(* ===== verification/Prelude.thy ===== *)
theory Prelude
  imports Main "HOL-Library.Word" "HOL-Library.List_Lexorder" "HOL-Library.Monad_Syntax"
begin

text \<open>
  Shared ground of the development: the machine types the Go sources use, the result type
  that carries Go's error values and run-time panics, and generic lemmas about lists, options
  and words that several components need.

  \<^item> A \<^verbatim>\<open>[]byte\<close> is a list of 8-bit words.  Where the sources tell \<^verbatim>\<open>nil\<close> from an empty
    slice the model uses \<open>bytes option\<close>; elsewhere \<^verbatim>\<open>nil\<close> is the empty list.
  \<^item> A call that may return an \<^verbatim>\<open>error\<close> or panic has type \<open>'a res\<close>: \<open>Inl (Err m)\<close> is the
    returned error with message \<open>m\<close>, \<open>Inl (Panic m)\<close> a run-time panic.
\<close>

unbundle bit_operations_syntax

type_synonym byte = "8 word"
type_synonym bytes = "byte list"
type_synonym u32 = "32 word"
type_synonym u64 = "64 word"

datatype go_err = Err string | Panic string

type_synonym 'a res = "go_err + 'a"

named_theorems layout \<open>lengths and positions inside the encoded records\<close>
named_theorems codec \<open>decoding what was encoded\<close>
named_theorems evaluate \<open>rules that compute closed terms in the examples\<close>

section \<open>Results\<close>

definition bindr :: "'a res \<Rightarrow> ('a \<Rightarrow> 'b res) \<Rightarrow> 'b res" where
  "bindr r f = (case r of Inl e \<Rightarrow> Inl e | Inr x \<Rightarrow> f x)"

lemma bindr_simps [simp]:
  "bindr (Inl e) f = Inl e"
  "bindr (Inr x) f = f x"
  by (simp_all add: bindr_def)

lemma bindr_eq_Inr [simp]: "bindr r f = Inr y \<longleftrightarrow> (\<exists>x. r = Inr x \<and> f x = Inr y)"
  by (cases r) auto

lemma bindr_eq_Inl: "bindr r f = Inl e \<longleftrightarrow> r = Inl e \<or> (\<exists>x. r = Inr x \<and> f x = Inl e)"
  by (cases r) auto

section \<open>Lists\<close>

lemma take_drop_append_exact:
  "n = length xs \<Longrightarrow> take n (xs @ ys) = xs"
  "n = length xs \<Longrightarrow> drop n (xs @ ys) = ys"
  by simp_all

lemma drop_append_add: "n = length xs + k \<Longrightarrow> drop n (xs @ ys) = drop k ys"
  by simp

lemma sorted_wrt_append_iff:
  "sorted_wrt P (xs @ y # ys) \<longleftrightarrow>
     sorted_wrt P xs \<and> sorted_wrt P ys \<and> (\<forall>x\<in>set xs. P x y) \<and> (\<forall>z\<in>set ys. P y z) \<and>
     (\<forall>x\<in>set xs. \<forall>z\<in>set ys. P x z)"
  by (auto simp: sorted_wrt_append)

lemma last_filter_append:
  "\<exists>x\<in>set ys. P x \<Longrightarrow> last (filter P (xs @ ys)) = last (filter P ys)"
  by (metis filter_append filter_empty_conv last_appendR)

section \<open>Words\<close>

lemma unat_bound: "unat (w :: 'a::len word) < 2 ^ LENGTH('a)"
  by (rule unsigned_less)

lemma unat_byte_less [simp]: "unat (b :: byte) < 256"
  using unat_bound [of b] by simp

lemma word_xor_cancel_left: "(x :: 'a::len word) XOR y = x XOR z \<longleftrightarrow> y = z"
  by (auto simp: bit_eq_iff bit_xor_iff)

lemma word_xor_cancel_right: "(y :: 'a::len word) XOR x = z XOR x \<longleftrightarrow> y = z"
  by (auto simp: bit_eq_iff bit_xor_iff)

lemma ucast_byte_inj: 
  "ucast (a :: byte) = (ucast b :: 'a::len word) \<Longrightarrow> 8 \<le> LENGTH('a) \<Longrightarrow> a = b"
proof (rule bit_word_eqI)
  fix n
  assume eq: "ucast a = (ucast b :: 'a word)" and len: "8 \<le> LENGTH('a)" and n: "n < LENGTH(8)"
  then have "bit (ucast a :: 'a word) n = bit (ucast b :: 'a word) n" by simp
  with len n show "bit a n = bit b n" by (simp add: bit_ucast_iff)
qed

end
