(* ===== verification/Go_Std.thy ===== *)
theory Go_Std
  imports Prelude
begin

text \<open>
  The parts of Go's standard library the sources call: \<^verbatim>\<open>encoding/binary\<close> (little-endian
  integers and varints), \<^verbatim>\<open>bytes.Compare\<close> and \<^verbatim>\<open>hash/crc32\<close> with the IEEE polynomial.
\<close>

section \<open>Little-endian integers\<close>

fun le_bytes :: "nat \<Rightarrow> nat \<Rightarrow> bytes" where
  "le_bytes 0 v = []"
| "le_bytes (Suc n) v = word_of_nat (v mod 256) # le_bytes n (v div 256)"

fun le_nat :: "bytes \<Rightarrow> nat" where
  "le_nat [] = 0"
| "le_nat (b # bs) = unat b + 256 * le_nat bs"

definition PutUint32 :: "u32 \<Rightarrow> bytes" where
  "PutUint32 w = le_bytes 4 (unat w)"

definition PutUint64 :: "u64 \<Rightarrow> bytes" where
  "PutUint64 w = le_bytes 8 (unat w)"

text \<open>The readers look at the first bytes of their argument; the sources panic when it is shorter,
  and each caller below writes that check where the source does not make it itself.\<close>

definition Uint32 :: "bytes \<Rightarrow> u32" where
  "Uint32 bs = word_of_nat (le_nat (take 4 bs))"

definition Uint64 :: "bytes \<Rightarrow> u64" where
  "Uint64 bs = word_of_nat (le_nat (take 8 bs))"

lemma unat_of_nat_small: "n < 2 ^ 32 \<Longrightarrow> unat (of_nat n :: u32) = n"
  by (simp add: unat_of_nat take_bit_nat_eq_self)

lemma total_of_length: "8 + n < 2 ^ 32 \<Longrightarrow> unat (8 + of_nat n :: u32) = 8 + n"
  using unat_of_nat_small [of "8 + n"] by simp

lemma le_bytes_numeral [evaluate]:
  "le_bytes (numeral k) v = word_of_nat (v mod 256) # le_bytes (pred_numeral k) (v div 256)"
  by (simp only: numeral_eq_Suc [of k] le_bytes.simps)

lemma length_le_bytes [simp, layout]: "length (le_bytes n v) = n"
  by (induction n arbitrary: v) auto

lemma le_nat_le_bytes: "le_nat (le_bytes n v) = v mod 256 ^ n"
proof (induction n arbitrary: v)
  case 0
  then show ?case by simp
next
  case (Suc n)
  have "unat (word_of_nat (v mod 256) :: byte) = v mod 256"
    by (simp add: unat_of_nat)
  then show ?case
    using mod_mult2_eq [of v 256 "256 ^ n"] by (simp add: Suc)
qed

lemma le_nat_bound: "le_nat bs < 256 ^ length bs"
proof (induction bs)
  case Nil
  then show ?case by simp
next
  case (Cons b bs)
  have "unat b < 256"
    using unat_bound [of b] by simp
  then have "unat b + 256 * le_nat bs < 256 + 256 * le_nat bs" by simp
  also have "\<dots> = 256 * Suc (le_nat bs)" by simp
  also have "\<dots> \<le> 256 * 256 ^ length bs"
    using Cons.IH by (simp only: mult_le_mono2 Suc_leI)
  finally show ?case by simp
qed

lemma le_bytes_le_nat: "length bs = n \<Longrightarrow> le_bytes n (le_nat bs) = bs"
proof (induction bs arbitrary: n)
  case Nil
  then show ?case by simp
next
  case (Cons b bs)
  have "unat b < 256"
    using unat_bound [of b] by simp
  then have "(unat b + 256 * le_nat bs) mod 256 = unat b"
    and "(unat b + 256 * le_nat bs) div 256 = le_nat bs"
    by simp_all
  with Cons show ?case by auto
qed

lemma length_PutUint [simp, layout]:
  "length (PutUint32 w) = 4" "length (PutUint64 v) = 8"
  by (simp_all add: PutUint32_def PutUint64_def)

lemma Uint32_PutUint32 [simp, codec]: "Uint32 (PutUint32 w @ bs) = w"
  using unat_bound [of w]
  by (simp add: Uint32_def PutUint32_def le_nat_le_bytes take_drop_append_exact)

lemma Uint64_PutUint64 [simp, codec]: "Uint64 (PutUint64 w @ bs) = w"
  using unat_bound [of w]
  by (simp add: Uint64_def PutUint64_def le_nat_le_bytes take_drop_append_exact)

lemma Uint_PutUint_nil [simp]: "Uint32 (PutUint32 w) = w" "Uint64 (PutUint64 v) = v"
  using Uint32_PutUint32 [of w "[]"] Uint64_PutUint64 [of v "[]"] by simp_all

lemma PutUint32_Uint32: "4 \<le> length bs \<Longrightarrow> PutUint32 (Uint32 bs) = take 4 bs"
  using le_nat_bound [of "take 4 bs"]
  by (simp add: PutUint32_def Uint32_def unat_of_nat le_bytes_le_nat)

lemma PutUint64_Uint64: "8 \<le> length bs \<Longrightarrow> PutUint64 (Uint64 bs) = take 8 bs"
  using le_nat_bound [of "take 8 bs"]
  by (simp add: PutUint64_def Uint64_def unat_of_nat le_bytes_le_nat)

text \<open>\<^verbatim>\<open>make([]byte, n)\<close> panics when \<open>n\<close> is negative or above the largest allocation.\<close>

definition maxAlloc :: int where
  "maxAlloc = 2 ^ 48"

section \<open>bytes.Compare\<close>

fun bytes_Compare :: "bytes \<Rightarrow> bytes \<Rightarrow> int" where
  "bytes_Compare [] [] = 0"
| "bytes_Compare [] (_ # _) = -1"
| "bytes_Compare (_ # _) [] = 1"
| "bytes_Compare (x # xs) (y # ys) =
     (if x < y then -1 else if y < x then 1 else bytes_Compare xs ys)"

lemma bytes_Compare_eq_0 [simp]: "bytes_Compare a b = 0 \<longleftrightarrow> a = b"
  by (induction a b rule: bytes_Compare.induct) auto

lemma bytes_Compare_less: "bytes_Compare a b < 0 \<longleftrightarrow> a < b"
  by (induction a b rule: bytes_Compare.induct) auto

lemma bytes_Compare_greater: "0 < bytes_Compare a b \<longleftrightarrow> b < a"
  by (induction a b rule: bytes_Compare.induct) auto

lemma bytes_Compare_range: "bytes_Compare a b \<in> {-1, 0, 1}"
  by (induction a b rule: bytes_Compare.induct) auto

lemma bytes_Compare_def_less:
  "bytes_Compare a b = (if a < b then -1 else if a = b then 0 else 1)"
  using bytes_Compare_range [of a b] bytes_Compare_less [of a b] bytes_Compare_eq_0 [of a b]
  by auto

section \<open>hash/crc32\<close>

text \<open>CRC-32 with the reflected IEEE polynomial, one bit at a time;  \<open>crc32_Update\<close> is
  \<^verbatim>\<open>crc32.Update(crc, crc32.IEEETable, p)\<close> and \<open>ChecksumIEEE\<close> is \<^verbatim>\<open>crc32.ChecksumIEEE\<close>.\<close>

definition crc_bit :: "u32 \<Rightarrow> u32" where
  "crc_bit c = (if bit c 0 then drop_bit 1 c XOR 0xEDB88320 else drop_bit 1 c)"

definition crc_byte :: "u32 \<Rightarrow> byte \<Rightarrow> u32" where
  "crc_byte c b = (crc_bit ^^ 8) (c XOR ucast b)"

fun crc_fold :: "u32 \<Rightarrow> bytes \<Rightarrow> u32" where
  "crc_fold c [] = c"
| "crc_fold c (b # bs) = crc_fold (crc_byte c b) bs"

definition crc32_Update :: "u32 \<Rightarrow> bytes \<Rightarrow> u32" where
  "crc32_Update c bs = NOT (crc_fold (NOT c) bs)"

definition ChecksumIEEE :: "bytes \<Rightarrow> u32" where
  "ChecksumIEEE bs = crc32_Update 0 bs"

lemma crc_fold_append: "crc_fold c (xs @ ys) = crc_fold (crc_fold c xs) ys"
  by (induction xs arbitrary: c) auto

text \<open>Updating a checksum with more data is the checksum of the concatenation: the table
  builder computes it in two pieces, the reader in one.\<close>

lemma crc32_Update_ChecksumIEEE: "crc32_Update (ChecksumIEEE xs) ys = ChecksumIEEE (xs @ ys)"
  by (simp add: ChecksumIEEE_def crc32_Update_def crc_fold_append)

text \<open>Each step of the register is injective, so a change confined to one byte always
  changes the checksum.\<close>

lemma bit_crc_bit_top: "bit (crc_bit c) 31 \<longleftrightarrow> bit c 0"
  by (simp add: crc_bit_def bit_xor_iff bit_drop_bit_eq bit_word_iff_drop_bit_and)

lemma crc_bit_inj: "crc_bit c = crc_bit d \<Longrightarrow> c = d"
proof -
  assume eq: "crc_bit c = crc_bit d"
  then have low: "bit c 0 \<longleftrightarrow> bit d 0"
    using bit_crc_bit_top [of c] bit_crc_bit_top [of d] by simp
  have high: "drop_bit 1 c = drop_bit 1 d"
  proof (cases "bit c 0")
    case True
    with eq low have "drop_bit 1 c XOR 0xEDB88320 = drop_bit 1 d XOR 0xEDB88320"
      by (simp add: crc_bit_def)
    then show ?thesis by (simp add: word_xor_cancel_right)
  next
    case False
    with eq low show ?thesis by (simp add: crc_bit_def)
  qed
  show "c = d"
  proof (rule bit_eqI)
    fix n
    show "bit c n \<longleftrightarrow> bit d n"
    proof (cases n)
      case 0
      with low show ?thesis by simp
    next
      case (Suc m)
      from high have "bit (drop_bit 1 c) m = bit (drop_bit 1 d) m" by simp
      with Suc show ?thesis by (simp add: bit_drop_bit_eq)
    qed
  qed
qed

lemma crc_bit_funpow_inj: "(crc_bit ^^ n) c = (crc_bit ^^ n) d \<Longrightarrow> c = d"
  by (induction n) (auto dest: crc_bit_inj)

lemma crc_byte_inj_reg: "crc_byte c b = crc_byte d b \<Longrightarrow> c = d"
  unfolding crc_byte_def by (drule crc_bit_funpow_inj) (simp add: word_xor_cancel_right)

lemma crc_byte_inj_data: "crc_byte c a = crc_byte c b \<Longrightarrow> a = b"
  unfolding crc_byte_def
proof (drule crc_bit_funpow_inj)
  assume "c XOR ucast a = c XOR ucast b"
  then have "ucast a = (ucast b :: u32)"
    by (simp add: word_xor_cancel_left)
  then show "a = b"
    by (rule ucast_byte_inj) simp
qed

lemma crc_fold_inj_reg: "crc_fold c bs = crc_fold d bs \<Longrightarrow> c = d"
  by (induction bs arbitrary: c d) (auto dest: crc_byte_inj_reg)

lemma ChecksumIEEE_one_byte:
  assumes "a \<noteq> b"
  shows "ChecksumIEEE (xs @ a # ys) \<noteq> ChecksumIEEE (xs @ b # ys)"
proof
  assume "ChecksumIEEE (xs @ a # ys) = ChecksumIEEE (xs @ b # ys)"
  then have "crc_fold (crc_fold (NOT 0) (xs @ [a])) ys = crc_fold (crc_fold (NOT 0) (xs @ [b])) ys"
    by (simp add: ChecksumIEEE_def crc32_Update_def crc_fold_append)
  then have "crc_fold (NOT 0) (xs @ [a]) = crc_fold (NOT 0) (xs @ [b])"
    by (rule crc_fold_inj_reg)
  then have "a = b"
    by (auto simp: crc_fold_append dest: crc_byte_inj_data)
  with assms show False by simp
qed

section \<open>Varints\<close>

text \<open>\<^verbatim>\<open>binary.PutUvarint\<close>, and \<^verbatim>\<open>binary.Uvarint\<close> with its loop variables: the bytes left, the
  index \<open>i\<close>, the value \<open>x\<close> so far and the shift \<open>s\<close>.  The second component of the result is the
  number of bytes read, 0 when the buffer is too small and negative on overflow.\<close>

function PutUvarint :: "u64 \<Rightarrow> bytes" where
  "PutUvarint x = (if x < 0x80 then [ucast x] else (ucast x OR 0x80) # PutUvarint (drop_bit 7 x))"
  by pat_completeness auto
termination
proof (relation "measure unat")
  show "\<not> x < 0x80 \<Longrightarrow> (drop_bit 7 x, x) \<in> measure unat" for x :: u64
    by (simp add: unat_drop_bit_eq drop_bit_eq_div word_le_nat_alt not_less unat_div)
qed simp

declare PutUvarint.simps [simp del]

fun Uvarint_loop :: "nat \<Rightarrow> u64 \<Rightarrow> nat \<Rightarrow> bytes \<Rightarrow> u64 \<times> int" where
  "Uvarint_loop i x s [] = (0, 0)"
| "Uvarint_loop i x s (b # bs) =
     (if i = 10 then (0, - int (i + 1))
      else if b < 0x80 then
        (if i = 9 \<and> 1 < b then (0, - int (i + 1))
         else (x OR push_bit s (ucast b), int (i + 1)))
      else Uvarint_loop (i + 1) (x OR push_bit s (ucast (b AND 0x7f))) (s + 7) bs)"

definition Uvarint :: "bytes \<Rightarrow> u64 \<times> int" where
  "Uvarint bs = Uvarint_loop 0 0 0 bs"

lemma ucast_low7: "ucast ((ucast (v :: u64) OR 0x80 :: byte) AND 0x7f) = take_bit 7 v"
proof -
  have "(ucast v OR 0x80 :: byte) AND 0x7f = take_bit 7 (ucast v)"
    by (simp add: take_bit_eq_mask mask_eq_exp_minus_1 bit.conj_disj_distrib2)
  then show ?thesis
    by (auto intro!: bit_word_eqI simp: bit_simps)
qed

lemma ucast_small: "v < 0x80 \<Longrightarrow> ucast (ucast (v :: u64) :: byte) = v"
proof -
  assume "v < 0x80"
  then have "take_bit 8 v = v"
    by (simp add: word_unat_eq_iff take_bit_eq_mod unat_mod_distrib word_less_nat_alt)
  moreover have "ucast (ucast v :: byte) = take_bit 8 v"
    by (rule bit_word_eqI) (auto simp: bit_simps)
  ultimately show ?thesis by simp
qed

lemma ucast_small_less: "v < 0x80 \<Longrightarrow> (ucast (v :: u64) :: byte) < 0x80"
  by (simp add: word_less_nat_alt unsigned_ucast_eq take_bit_nat_eq_self)
lemma ucast_high: "\<not> (ucast (v :: u64) OR 0x80 :: byte) < 0x80"
proof -
  have "(0x80 :: byte) \<le> ucast v OR 0x80" using le_word_or1 by blast
  then show ?thesis by simp
qed
lemma or_low_high: "push_bit s (take_bit 7 v) OR push_bit (s + 7) (drop_bit 7 v) = push_bit s (v :: u64)"
proof (rule bit_word_eqI)
  fix n
  show "bit (push_bit s (take_bit 7 v) OR push_bit (s + 7) (drop_bit 7 v)) n = bit (push_bit s v) n"
  proof (cases "s + 7 \<le> n")
    case True
    then have "7 + (n - (s + 7)) = n - s" by simp
    with True show ?thesis by (auto simp: bit_simps simp del: add_diff_cancel_left' diff_diff_left)
  next
    case False
    then show ?thesis by (auto simp: bit_simps)
  qed
qed

lemma Uvarint_loop_PutUvarint:
  assumes "i \<le> 9" and "s = 7 * i" and "unat v < 2 ^ (64 - 7 * i)"
  shows "Uvarint_loop i x s (PutUvarint v @ rest) = (x OR push_bit s v, int (i + length (PutUvarint v)))"
  using assms
proof (induction v arbitrary: i s x rule: PutUvarint.induct)
  case (1 v)
  show ?case
  proof (cases "v < 0x80")
    case True
    have "\<not> 1 < (ucast v :: byte)" if "i = 9"
      using "1.prems" that by (simp add: word_less_nat_alt unsigned_ucast_eq take_bit_nat_eq_self)
    with True "1.prems" show ?thesis
      by (simp add: PutUvarint.simps [of v] ucast_small_less ucast_small)
  next
    case False
    have big: "128 \<le> unat v" using False by (simp add: word_less_nat_alt not_less)
    have i: "i \<le> 8"
    proof (rule ccontr)
      assume "\<not> i \<le> 8"
      then have "i = 9" using "1.prems" by simp
      then show False using "1.prems" big by simp
    qed
    have "2 ^ (64 - 7 * i) = (2 :: nat) ^ ((64 - 7 * (i + 1)) + 7)"
      using i by (intro arg_cong [where f = "power 2"]) arith
    also have "\<dots> = 2 ^ (64 - 7 * (i + 1)) * 128"
      by (subst power_add) simp
    finally have "unat v < 2 ^ (64 - 7 * (i + 1)) * 128"
      using "1.prems"(3) by linarith
    then have "unat (drop_bit 7 v) < 2 ^ (64 - 7 * (i + 1))"
      using less_mult_imp_div_less by (simp add: drop_bit_eq_div unat_div)
    then have "Uvarint_loop (i + 1) (x OR push_bit s (take_bit 7 v)) (s + 7) (PutUvarint (drop_bit 7 v) @ rest)
      = ((x OR push_bit s (take_bit 7 v)) OR push_bit (s + 7) (drop_bit 7 v), int (i + 1 + length (PutUvarint (drop_bit 7 v))))"
      using "1.IH" [OF False, of "i + 1" "s + 7"] i "1.prems"(2) by simp
    with False i show ?thesis
      by (simp add: PutUvarint.simps [of v] ucast_high ucast_low7 or.assoc or_low_high)
  qed
qed

lemma Uvarint_PutUvarint [simp, codec]:
  "Uvarint (PutUvarint v @ rest) = (v, int (length (PutUvarint v)))"
  using Uvarint_loop_PutUvarint [of 0 0 v 0 rest] unat_bound [of v] by (simp add: Uvarint_def)

lemma PutUvarint_not_Nil [simp]: "PutUvarint v \<noteq> []"
  by (simp add: PutUvarint.simps)

end
