(* ===== verification/Internal_Key.thy ===== *)
theory Internal_Key
  imports Go_Std
begin

text \<open>
  Package \<^verbatim>\<open>internal\<close>: the internal key (user key followed by an 8-byte trailer that holds the
  sequence number and the record type) and the comparator that orders the whole engine
  (\<^verbatim>\<open>internal_key.go\<close>, \<^verbatim>\<open>comparator.go\<close>).

  The decoded key is also given as the datatype \<open>vkey\<close> with a linear order of its own (user key
  ascending, sequence number descending, type ascending); the comparator is shown to decide that
  order, so the other components reason about a \<open>linorder\<close>.
\<close>

section \<open>internal_key.go\<close>

definition RecordTypeValue :: byte where
  "RecordTypeValue = 0x01"

definition RecordTypeTombstone :: byte where
  "RecordTypeTombstone = 0x02"

record InternalKey =
  UserKey :: bytes
  Seq :: u64
  Type :: byte

definition EncodeInternalKey :: "bytes \<Rightarrow> u64 \<Rightarrow> byte \<Rightarrow> bytes res" where
  "EncodeInternalKey userKey seq typ =
     (if drop_bit 56 seq \<noteq> 0 then Inl (Panic ''sequence number exceeds 56 bits'')
      else let trailer = push_bit 8 seq OR ucast typ
           in Inr (userKey @ PutUint64 trailer))"

definition DecodeInternalKey :: "bytes \<Rightarrow> InternalKey res" where
  "DecodeInternalKey b =
     (if length b < 8 then Inl (Err ''internal key too short'')
      else let userKey = take (length b - 8) b;
               trailer = Uint64 (drop (length b - 8) b);
               seq = drop_bit 8 trailer;
               typ = ucast (trailer AND 0xFF)
           in if typ \<noteq> RecordTypeValue \<and> typ \<noteq> RecordTypeTombstone
              then Inl (Err ''invalid record type'')
              else Inr \<lparr>UserKey = userKey, Seq = seq, Type = typ\<rparr>)"

definition ExtractUserKey :: "bytes \<Rightarrow> bytes" where
  "ExtractUserKey b = (if length b < 8 then [] else take (length b - 8) b)"

definition ExtractTrailer :: "bytes \<Rightarrow> u64 \<times> byte \<times> go_err option" where
  "ExtractTrailer b =
     (if length b < 8 then (0, 0, Some (Err ''invalid internal key''))
      else let trailer = Uint64 (drop (length b - 8) b);
               seq = drop_bit 8 trailer;
               typ = ucast (trailer AND 0xFF)
           in (seq, typ, None))"

abbreviation trailer_seq :: "bytes \<Rightarrow> u64" where
  "trailer_seq b \<equiv> fst (ExtractTrailer b)"

abbreviation trailer_type :: "bytes \<Rightarrow> byte" where
  "trailer_type b \<equiv> fst (snd (ExtractTrailer b))"

section \<open>comparator.go\<close>

definition Compare :: "bytes \<Rightarrow> bytes \<Rightarrow> int" where
  "Compare a b =
     (let ua = ExtractUserKey a; ub = ExtractUserKey b; c = bytes_Compare ua ub
      in if c \<noteq> 0 then c
         else let (aseq, atype, _) = ExtractTrailer a; (bseq, btype, _) = ExtractTrailer b
              in if aseq > bseq then -1
                 else if aseq < bseq then 1
                 else if atype < btype then -1
                 else if atype > btype then 1
                 else 0)"

section \<open>The decoded key and its order\<close>

datatype vkey = VKey (vuser: bytes) (vseq: u64) (vtype: byte)

instantiation vkey :: linorder
begin

definition less_vkey :: "vkey \<Rightarrow> vkey \<Rightarrow> bool" where
  "less_vkey a b \<longleftrightarrow>
     vuser a < vuser b \<or>
     vuser a = vuser b \<and> (vseq b < vseq a \<or> vseq a = vseq b \<and> vtype a < vtype b)"

definition less_eq_vkey :: "vkey \<Rightarrow> vkey \<Rightarrow> bool" where
  "less_eq_vkey a b \<longleftrightarrow> a = b \<or> a < (b :: vkey)"

instance
proof
  fix x y z :: vkey
  show "(x < y) = (x \<le> y \<and> \<not> y \<le> x)"
    by (auto simp: less_vkey_def less_eq_vkey_def)
  show "x \<le> x"
    by (simp add: less_eq_vkey_def)
  show "x \<le> y \<Longrightarrow> y \<le> z \<Longrightarrow> x \<le> z"
    by (auto simp: less_vkey_def less_eq_vkey_def)
  show "x \<le> y \<Longrightarrow> y \<le> x \<Longrightarrow> x = y"
    by (auto simp: less_vkey_def less_eq_vkey_def)
  show "x \<le> y \<or> y \<le> x"
    by (cases x; cases y) (auto simp: less_vkey_def less_eq_vkey_def)
qed

end

definition vkey_of :: "bytes \<Rightarrow> vkey" where
  "vkey_of b = VKey (ExtractUserKey b) (trailer_seq b) (trailer_type b)"

definition wf_ikey :: "bytes \<Rightarrow> bool" where
  "wf_ikey b \<longleftrightarrow> 8 \<le> length b"

section \<open>Comparators as an interface\<close>

text \<open>What the ordered containers rely on: a three-way comparison that agrees with a linear order on
  the ranks of the keys.  The engine has two of them, \<^verbatim>\<open>bytes.Compare\<close> on user keys and
  \<^verbatim>\<open>internal.Comparator\<close> on internal keys.\<close>

locale comparator =
  fixes cmp :: "bytes \<Rightarrow> bytes \<Rightarrow> int"
    and rank :: "bytes \<Rightarrow> 'r::linorder"
  assumes cmp_less: "cmp a b < 0 \<longleftrightarrow> rank a < rank b"
    and cmp_zero: "cmp a b = 0 \<longleftrightarrow> rank a = rank b"
begin

lemma cmp_greater: "0 < cmp a b \<longleftrightarrow> rank b < rank a"
  using cmp_less [of a b] cmp_zero [of a b] by (metis linorder_neq_iff not_less_iff_gr_or_eq)

lemma cmp_refl: "cmp a a = 0"
  by (simp add: cmp_zero)

lemma cmp_swap_less: "cmp a b < 0 \<longleftrightarrow> 0 < cmp b a"
  by (simp add: cmp_less cmp_greater)

lemma cmp_trans: "cmp a b < 0 \<Longrightarrow> cmp b c < 0 \<Longrightarrow> cmp a c < 0"
  by (auto simp: cmp_less)

lemma cmp_less_le_trans: "cmp a b < 0 \<Longrightarrow> cmp b c \<le> 0 \<Longrightarrow> cmp a c < 0"
  using cmp_zero [of b c] by (auto simp: cmp_less le_less)

lemma cmp_not_less: "\<not> cmp a b < 0 \<longleftrightarrow> cmp b a \<le> 0"
  by (metis cmp_less cmp_zero cmp_greater linorder_not_less order_le_less)

text \<open>A strictly sorted run splits at any key into the smaller and the not smaller entries.\<close>

lemma sorted_dropWhile:
  assumes "sorted_wrt (\<lambda>a b. cmp a b < 0) ks" and "k \<in> set (dropWhile (\<lambda>a. cmp a t < 0) ks)"
  shows "\<not> cmp k t < 0"
  using assms
proof (induction ks)
  case Nil
  then show ?case by simp
next
  case (Cons x ks)
  then show ?case
    by (auto split: if_splits dest: cmp_trans)
qed

lemma sorted_distinct: "sorted_wrt (\<lambda>a b. cmp a b < 0) ks \<Longrightarrow> distinct ks"
  by (induction ks) (auto simp: cmp_refl)

end

section \<open>Trailers\<close>

lemma trailer_seq_bits: "drop_bit 56 seq = 0 \<Longrightarrow> drop_bit 8 (push_bit 8 seq OR ucast (typ :: byte)) = (seq :: u64)"
proof -
  assume zero: "drop_bit 56 seq = 0"
  have high: "\<not> bit seq n" if "56 \<le> n" for n
  proof -
    have "bit (drop_bit 56 seq) (n - 56) = bit seq n" using that by (simp add: bit_drop_bit_eq)
    with zero show ?thesis by simp
  qed
  have low: "\<not> bit typ (8 + n)" for n
    using bit_imp_le_length [of "typ" "8 + n"] by auto
  show ?thesis
  proof (rule bit_word_eqI)
    fix n
    show "bit (drop_bit 8 (push_bit 8 seq OR ucast typ)) n = bit seq n"
      using high [of n] low [of n] by (cases "56 \<le> n") (auto simp: bit_simps)
  qed
qed

lemma byte_mask_word: "(w :: u64) AND 0xFF = take_bit 8 w"
  by (simp add: take_bit_eq_mask mask_eq_exp_minus_1)

lemma trailer_type_bits: "ucast ((push_bit 8 seq OR ucast typ) AND (0xFF :: u64)) = (typ :: byte)"
  unfolding byte_mask_word by (rule bit_word_eqI) (auto simp: bit_simps)

lemma trailer_join: "push_bit 8 (drop_bit 8 w) OR ucast (ucast ((w :: u64) AND 0xFF) :: byte) = w"
  unfolding byte_mask_word by (rule bit_word_eqI) (auto simp: bit_simps)

lemma trailer_seq_small: "drop_bit 56 (drop_bit 8 (w :: u64)) = 0"
  by (rule bit_word_eqI) (auto simp: bit_simps)

lemma seq_56_iff: "drop_bit 56 (seq :: u64) = 0 \<longleftrightarrow> unat seq < 2 ^ 56"
  by (simp add: word_unat_eq_iff unat_drop_bit_eq drop_bit_eq_div unat_div div_eq_0_iff)

section \<open>Encoded keys\<close>

lemma EncodeInternalKey_ok:
  "drop_bit 56 seq = 0 \<Longrightarrow>
     EncodeInternalKey k seq typ = Inr (k @ PutUint64 (push_bit 8 seq OR ucast typ))"
  by (simp add: EncodeInternalKey_def)

lemma EncodeInternalKey_Inr:
  assumes "EncodeInternalKey k seq typ = Inr ik"
  shows "drop_bit 56 seq = 0" and "ExtractUserKey ik = k" and "trailer_seq ik = seq"
    and "trailer_type ik = typ" and "snd (snd (ExtractTrailer ik)) = None"
    and "wf_ikey ik" and "length ik = length k + 8"
proof -
  from assms show d: "drop_bit 56 seq = 0"
    by (simp add: EncodeInternalKey_def split: if_splits)
  with assms have ik: "ik = k @ PutUint64 (push_bit 8 seq OR ucast typ)"
    by (simp add: EncodeInternalKey_ok)
  show "ExtractUserKey ik = k" "length ik = length k + 8" "wf_ikey ik"
    by (simp_all add: ik ExtractUserKey_def wf_ikey_def)
  show "trailer_seq ik = seq" "trailer_type ik = typ" "snd (snd (ExtractTrailer ik)) = None"
    using d by (simp_all add: ik ExtractTrailer_def trailer_seq_bits trailer_type_bits Let_def
      del: drop_bit_or)
qed

lemma vkey_of_Encode:
  "EncodeInternalKey k seq typ = Inr ik \<Longrightarrow> vkey_of ik = VKey k seq typ"
  by (simp add: vkey_of_def EncodeInternalKey_Inr)

lemma vkey_of_inj:
  assumes "wf_ikey a" and "wf_ikey b" and "vkey_of a = vkey_of b"
  shows "a = b"
proof -
  let ?na = "length a - 8" and ?nb = "length b - 8"
  from assms have u: "take ?na a = take ?nb b"
    by (simp add: vkey_of_def ExtractUserKey_def wf_ikey_def)
  from assms have "drop_bit 8 (Uint64 (drop ?na a)) = drop_bit 8 (Uint64 (drop ?nb b))"
    and "ucast (Uint64 (drop ?na a) AND 0xFF) = (ucast (Uint64 (drop ?nb b) AND 0xFF) :: byte)"
    by (simp_all add: vkey_of_def ExtractTrailer_def wf_ikey_def Let_def)
  then have "Uint64 (drop ?na a) = Uint64 (drop ?nb b)"
    by (metis trailer_join)
  then have "PutUint64 (Uint64 (drop ?na a)) = PutUint64 (Uint64 (drop ?nb b))" by simp
  then have "drop ?na a = drop ?nb b"
    using assms(1,2) by (simp add: PutUint64_Uint64 wf_ikey_def)
  with u show ?thesis by (metis append_take_drop_id)
qed

section \<open>The comparator decides the order of the decoded keys\<close>

lemma Compare_vkey:
  "Compare a b = (if vkey_of a < vkey_of b then -1 else if vkey_of a = vkey_of b then 0 else 1)"
  by (auto simp: Compare_def Let_def vkey_of_def less_vkey_def bytes_Compare_def_less split: prod.split)

interpretation ikey: comparator Compare vkey_of
  by unfold_locales (simp_all add: Compare_vkey)

interpretation ukey: comparator bytes_Compare "\<lambda>k. k"
  by unfold_locales (simp_all add: bytes_Compare_less)

lemma Compare_eq_0_iff: "wf_ikey a \<Longrightarrow> wf_ikey b \<Longrightarrow> Compare a b = 0 \<longleftrightarrow> a = b"
  using vkey_of_inj by (auto simp: ikey.cmp_zero)

abbreviation ikey_less :: "bytes \<Rightarrow> bytes \<Rightarrow> bool" where
  "ikey_less a b \<equiv> Compare a b < 0"

text \<open>C20. Encoding a user key, a 56-bit sequence number and a valid record type and decoding the
  result gives the three back.\<close>

theorem EncodeInternalKey_roundtrip:
  assumes "unat seq < 2 ^ 56" and "typ = RecordTypeValue \<or> typ = RecordTypeTombstone"
  shows "bindr (EncodeInternalKey k seq typ) DecodeInternalKey =
           Inr \<lparr>UserKey = k, Seq = seq, Type = typ\<rparr>"
proof -
  have "drop_bit 56 seq = 0" using assms(1) by (simp add: seq_56_iff)
  then show ?thesis
    using assms(2)
    by (auto simp: EncodeInternalKey_ok DecodeInternalKey_def Let_def trailer_seq_bits
        trailer_type_bits simp del: drop_bit_or)
qed

theorem EncodeInternalKey_roundtrip_witness:
  "unat (5 :: u64) < 2 ^ 56 \<and>
   bindr (EncodeInternalKey [107] 5 RecordTypeTombstone) DecodeInternalKey =
     Inr \<lparr>UserKey = [107], Seq = 5, Type = RecordTypeTombstone\<rparr>"
  using EncodeInternalKey_roundtrip [of 5 RecordTypeTombstone "[107]"] by simp

text \<open>C21. Every internal key the decoder accepts is the encoding of what it returns, so no two
  different byte strings decode to the same key.\<close>

theorem DecodeInternalKey_roundtrip:
  assumes "DecodeInternalKey b = Inr ik"
  shows "EncodeInternalKey (UserKey ik) (Seq ik) (Type ik) = Inr b"
proof -
  let ?n = "length b - 8" and ?w = "Uint64 (drop (length b - 8) b)"
  from assms have len: "8 \<le> length b"
    by (simp add: DecodeInternalKey_def split: if_splits)
  with assms have ik: "UserKey ik = take ?n b" "Seq ik = drop_bit 8 ?w" "Type ik = ucast (?w AND 0xFF)"
    by (auto simp: DecodeInternalKey_def Let_def split: if_splits)
  have "PutUint64 ?w = drop ?n b" using len by (simp add: PutUint64_Uint64)
  then show ?thesis
    by (simp add: ik EncodeInternalKey_ok trailer_seq_small trailer_join)
qed

theorem DecodeInternalKey_roundtrip_witness:
  "DecodeInternalKey [107, 1, 5, 0, 0, 0, 0, 0, 0] = Inr \<lparr>UserKey = [107], Seq = 5, Type = 1\<rparr> \<and>
   EncodeInternalKey [107] 5 1 = Inr [107, 1, 5, 0, 0, 0, 0, 0, 0]"
proof -
  have d: "DecodeInternalKey [107, 1, 5, 0, 0, 0, 0, 0, 0] = Inr \<lparr>UserKey = [107], Seq = 5, Type = 1\<rparr>"
    by (simp add: DecodeInternalKey_def Uint64_def RecordTypeValue_def)
  with DecodeInternalKey_roundtrip [OF d] show ?thesis by simp
qed

text \<open>C22. On encoded keys the comparator sorts by user key ascending, then by sequence number
  descending, then by record type, so the newest version of a user key comes first.\<close>

theorem Compare_order:
  assumes "EncodeInternalKey k1 s1 t1 = Inr a" and "EncodeInternalKey k2 s2 t2 = Inr b"
  shows "(Compare a b < 0 \<longleftrightarrow> k1 < k2 \<or> k1 = k2 \<and> (s2 < s1 \<or> s1 = s2 \<and> t1 < t2)) \<and>
         (Compare a b = 0 \<longleftrightarrow> a = b) \<and> (0 < Compare a b \<longleftrightarrow> Compare b a < 0)"
proof -
  have "Compare a b < 0 \<longleftrightarrow> VKey k1 s1 t1 < VKey k2 s2 t2"
    using assms by (simp add: ikey.cmp_less vkey_of_Encode)
  moreover have "Compare a b = 0 \<longleftrightarrow> a = b"
    using assms by (simp add: Compare_eq_0_iff EncodeInternalKey_Inr(6))
  ultimately show ?thesis
    using ikey.cmp_swap_less by (simp add: less_vkey_def)
qed

theorem Compare_order_witness:
  "Compare [107, 1, 9, 0, 0, 0, 0, 0, 0] [107, 1, 5, 0, 0, 0, 0, 0, 0] < 0"
proof -
  have "EncodeInternalKey [107] 9 1 = Inr [107, 1, 9, 0, 0, 0, 0, 0, 0]"
    and "EncodeInternalKey [107] 5 1 = Inr [107, 1, 5, 0, 0, 0, 0, 0, 0]"
    by (simp_all add: EncodeInternalKey_def PutUint64_def evaluate)
  from Compare_order [OF this] show ?thesis by simp
qed

end
