(* ===== verification/Skiplist.thy ===== *)
theory Skiplist
  imports Internal_Key
begin

text \<open>
  Package \<^verbatim>\<open>memtable\<close>, \<^verbatim>\<open>skiplist.go\<close>: the probabilistic sorted list, with its nodes in a store.
  An address is an index of \<open>nodes\<close>, address 0 is the head, and a pointer is an \<open>address option\<close>.
  \<open>None\<close> as the result of an operation means that the code would dereference \<^verbatim>\<open>nil\<close>, index a
  \<^verbatim>\<open>next\<close> array out of range or never leave a loop; the theorems show that this does not happen.
  The draws of \<^verbatim>\<open>math/rand\<close> are an argument, \<open>coins i\<close> being the outcome of
  \<^verbatim>\<open>rand.Float64() < probability\<close> when the level is \<open>i\<close>.
\<close>

section \<open>skiplist.go\<close>

definition maxLevel :: nat where
  "maxLevel = 12"

record Node =
  nkey :: bytes
  nvalue :: bytes
  nnext :: "nat option list"

record Skiplist =
  nodes :: "Node list"
  level :: nat
  sl_count :: nat
  sizeBytes :: int

definition NewSkiplist :: Skiplist where
  "NewSkiplist =
     \<lparr>nodes = [\<lparr>nkey = [], nvalue = [], nnext = replicate maxLevel None\<rparr>],
      level = 1, sl_count = 0, sizeBytes = 0\<rparr>"

function randomLevel_loop :: "(nat \<Rightarrow> bool) \<Rightarrow> nat \<Rightarrow> nat" where
  "randomLevel_loop coins lvl =
     (if coins lvl \<and> lvl < maxLevel then randomLevel_loop coins (lvl + 1) else lvl)"
  by pat_completeness auto
termination
  by (relation "measure (\<lambda>(coins, lvl). maxLevel - lvl)") auto

declare randomLevel_loop.simps [simp del]

definition randomLevel :: "(nat \<Rightarrow> bool) \<Rightarrow> nat" where
  "randomLevel coins = randomLevel_loop coins 1"

text \<open>Reading and writing \<^verbatim>\<open>a.next[i]\<close>.\<close>

definition get_next :: "Node list \<Rightarrow> nat \<Rightarrow> nat \<Rightarrow> nat option option" where
  "get_next h a i =
     (if a < length h \<and> i < length (nnext (h ! a)) then Some (nnext (h ! a) ! i) else None)"

definition set_next :: "Node list \<Rightarrow> nat \<Rightarrow> nat \<Rightarrow> nat option \<Rightarrow> Node list option" where
  "set_next h a i p =
     (if a < length h \<and> i < length (nnext (h ! a))
      then Some (h[a := (h ! a)\<lparr>nnext := (nnext (h ! a))[i := p]\<rparr>]) else None)"

text \<open>The inner loop of \<^verbatim>\<open>Insert\<close> and \<^verbatim>\<open>Seek\<close>: move right on level \<open>i\<close> while the next key is smaller.\<close>

partial_function (option) walk :: "Node list \<Rightarrow> bytes \<Rightarrow> nat \<Rightarrow> nat \<Rightarrow> nat option" where
  "walk h key i current =
     (case get_next h current i of
        None \<Rightarrow> None
      | Some None \<Rightarrow> Some current
      | Some (Some nx) \<Rightarrow>
          (if \<not> nx < length h then None
           else if Compare (nkey (h ! nx)) key < 0 then walk h key i nx
           else Some current))"

text \<open>The outer loop, from level \<open>n - 1\<close> down to 0, recording the last node visited on each level.\<close>

fun find_position :: "Node list \<Rightarrow> bytes \<Rightarrow> nat \<Rightarrow> nat \<Rightarrow> nat option list \<Rightarrow> (nat \<times> nat option list) option" where
  "find_position h key 0 current update = Some (current, update)"
| "find_position h key (Suc i) current update =
     (case walk h key i current of
        None \<Rightarrow> None
      | Some c \<Rightarrow> find_position h key i c (update[i := Some c]))"

text \<open>The loop that links the new node \<open>z\<close> on the levels \<open>i, \<dots>, i + n - 1\<close>.\<close>

fun link_levels :: "nat option list \<Rightarrow> nat \<Rightarrow> nat \<Rightarrow> nat \<Rightarrow> Node list \<Rightarrow> Node list option" where
  "link_levels update z i 0 h = Some h"
| "link_levels update z i (Suc n) h =
     (case update ! i of
        None \<Rightarrow> None
      | Some u \<Rightarrow> do {
          nx \<leftarrow> get_next h u i;
          h1 \<leftarrow> set_next h z i nx;
          h2 \<leftarrow> set_next h1 u i (Some z);
          link_levels update z (Suc i) n h2
        })"

definition sl_insert_new :: "Skiplist \<Rightarrow> nat option list \<Rightarrow> bytes \<Rightarrow> bytes \<Rightarrow> nat \<Rightarrow> Skiplist option" where
  "sl_insert_new s update key value lvl =
     (let update' = map (\<lambda>i. if level s \<le> i \<and> i < lvl then Some 0 else update ! i) [0..<maxLevel];
          level' = (if lvl > level s then lvl else level s);
          z = length (nodes s);
          h = nodes s @ [\<lparr>nkey = key, nvalue = value, nnext = replicate lvl None\<rparr>]
      in case link_levels update' z 0 lvl h of
           None \<Rightarrow> None
         | Some h' \<Rightarrow> Some \<lparr>nodes = h', level = level', sl_count = sl_count s + 1,
                            sizeBytes = sizeBytes s + (int (length key) + int (length value))\<rparr>)"

definition Skiplist_Insert :: "Skiplist \<Rightarrow> bytes \<Rightarrow> bytes \<Rightarrow> (nat \<Rightarrow> bool) \<Rightarrow> Skiplist option" where
  "Skiplist_Insert s key value coins = do {
     (current, update) \<leftarrow> find_position (nodes s) key (level s) 0 (replicate maxLevel None);
     nx \<leftarrow> get_next (nodes s) current 0;
     case nx of
       None \<Rightarrow> sl_insert_new s update key value (randomLevel coins)
     | Some a \<Rightarrow>
         if \<not> a < length (nodes s) then None
         else if Compare (nkey (nodes s ! a)) key = 0 then
           Some (s\<lparr>sizeBytes := sizeBytes s - (int (length (nvalue (nodes s ! a))) - int (length value)),
                   nodes := (nodes s)[a := (nodes s ! a)\<lparr>nvalue := value\<rparr>]\<rparr>)
         else sl_insert_new s update key value (randomLevel coins)
   }"

definition Skiplist_Size :: "Skiplist \<Rightarrow> nat" where
  "Skiplist_Size s = sl_count s"

definition Skiplist_ApproximateSize :: "Skiplist \<Rightarrow> int" where
  "Skiplist_ApproximateSize s = sizeBytes s"

text \<open>The iterator: the list it walks and the current node.\<close>

record Iterator =
  it_list :: Skiplist
  it_node :: "nat option"

definition Skiplist_NewIterator :: "Skiplist \<Rightarrow> Iterator" where
  "Skiplist_NewIterator s = \<lparr>it_list = s, it_node = None\<rparr>"

definition Iterator_SeekToFirst :: "Iterator \<Rightarrow> Iterator option" where
  "Iterator_SeekToFirst it = do {
     p \<leftarrow> get_next (nodes (it_list it)) 0 0;
     Some (it\<lparr>it_node := p\<rparr>)
   }"

definition Iterator_Seek :: "Iterator \<Rightarrow> bytes \<Rightarrow> Iterator option" where
  "Iterator_Seek it target = do {
     (current, _) \<leftarrow> find_position (nodes (it_list it)) target (level (it_list it)) 0
                       (replicate maxLevel None);
     p \<leftarrow> get_next (nodes (it_list it)) current 0;
     Some (it\<lparr>it_node := p\<rparr>)
   }"

definition Iterator_Next :: "Iterator \<Rightarrow> Iterator option" where
  "Iterator_Next it =
     (case it_node it of
        None \<Rightarrow> Some it
      | Some a \<Rightarrow> do {
          p \<leftarrow> get_next (nodes (it_list it)) a 0;
          Some (it\<lparr>it_node := p\<rparr>)
        })"

definition Iterator_Valid :: "Iterator \<Rightarrow> bool" where
  "Iterator_Valid it \<longleftrightarrow> it_node it \<noteq> None"

definition Iterator_Key :: "Iterator \<Rightarrow> bytes" where
  "Iterator_Key it = (case it_node it of None \<Rightarrow> [] | Some a \<Rightarrow> nkey (nodes (it_list it) ! a))"

definition Iterator_Value :: "Iterator \<Rightarrow> bytes" where
  "Iterator_Value it = (case it_node it of None \<Rightarrow> [] | Some a \<Rightarrow> nvalue (nodes (it_list it) ! a))"

section \<open>Representation invariant\<close>

abbreviation height :: "Node list \<Rightarrow> nat \<Rightarrow> nat" where
  "height h a \<equiv> length (nnext (h ! a))"

abbreviation nx :: "Node list \<Rightarrow> nat \<Rightarrow> nat \<Rightarrow> nat option" where
  "nx h i a \<equiv> nnext (h ! a) ! i"

text \<open>\<open>linked f as\<close>: following \<open>f\<close> from the head of \<open>as\<close> visits exactly \<open>as\<close>.\<close>

fun linked :: "('a \<Rightarrow> 'a option) \<Rightarrow> 'a list \<Rightarrow> bool" where
  "linked f [] = True"
| "linked f [a] = (f a = None)"
| "linked f (a # b # as) = (f a = Some b \<and> linked f (b # as))"

definition on_level :: "Node list \<Rightarrow> nat \<Rightarrow> nat list \<Rightarrow> nat list" where
  "on_level h i as = filter (\<lambda>a. i < height h a) as"

text \<open>\<open>sl_rep s xs\<close>: the list \<open>s\<close> holds the nodes \<open>xs\<close> in this order; every level links exactly the
  nodes tall enough for it.\<close>

definition sl_rep :: "Skiplist \<Rightarrow> nat list \<Rightarrow> bool" where
  "sl_rep s xs \<longleftrightarrow>
     0 < length (nodes s) \<and> height (nodes s) 0 = maxLevel \<and>
     distinct xs \<and> set xs = {1 ..< length (nodes s)} \<and>
     1 \<le> level s \<and> level s \<le> maxLevel \<and>
     (\<forall>a \<in> set xs. 1 \<le> height (nodes s) a \<and> height (nodes s) a \<le> level s) \<and>
     sorted_wrt ikey_less (map (\<lambda>a. nkey (nodes s ! a)) xs) \<and>
     (\<forall>i < maxLevel. linked (nx (nodes s) i) (on_level (nodes s) i (0 # xs)))"

definition sl_entries :: "Skiplist \<Rightarrow> nat list \<Rightarrow> (bytes \<times> bytes) list" where
  "sl_entries s xs = map (\<lambda>a. (nkey (nodes s ! a), nvalue (nodes s ! a))) xs"

text \<open>The specification: insertion into a sorted association list.\<close>

fun upd_entry :: "bytes \<Rightarrow> bytes \<Rightarrow> (bytes \<times> bytes) list \<Rightarrow> (bytes \<times> bytes) list" where
  "upd_entry k v [] = [(k, v)]"
| "upd_entry k v ((k', v') # es) =
     (if Compare k' k < 0 then (k', v') # upd_entry k v es
      else if Compare k' k = 0 then (k', v) # es
      else (k, v) # (k', v') # es)"

section \<open>Linked levels\<close>

lemma linked_next: "linked f (as @ a # b # bs) \<Longrightarrow> f a = Some b"
  by (induction as rule: induct_list012) auto

lemma linked_last: "linked f (as @ [a]) \<Longrightarrow> f a = None"
  by (induction as rule: induct_list012) auto

lemma linked_suffix: "linked f (as @ bs) \<Longrightarrow> linked f bs"
proof (induction as)
  case (Cons a as)
  then show ?case by (cases "as @ bs") auto
qed simp

lemma linked_cong: "(\<And>a. a \<in> set as \<Longrightarrow> f a = g a) \<Longrightarrow> linked f as = linked g as"
  by (induction as rule: induct_list012) auto

text \<open>Splicing a new element in after the last element of the first part.\<close>

lemma linked_insert:
  assumes "linked f (as @ bs)" and "as \<noteq> []" and "distinct (as @ bs)" and "z \<notin> set (as @ bs)"
  shows "linked (f(z := f (last as), last as := Some z)) (as @ z # bs)"
  using assms
proof (induction as rule: induct_list012)
  case 1
  then show ?case by simp
next
  case (2 x)
  then have "linked f bs" by (metis linked_suffix)
  then have "linked (f(z := f x, x := Some z)) bs"
    using 2 by (subst linked_cong [where g = f]) auto
  with 2 show ?case by (cases bs) (auto simp: fun_upd_def)
next
  case (3 x y zs)
  have "last (y # zs) \<noteq> x" using 3 by auto
  with 3 show ?case by auto
qed

section \<open>Searching\<close>

lemma sl_rep_height:
  assumes "sl_rep s xs" and "a \<in> set (0 # xs)"
  shows "a < length (nodes s)" and "1 \<le> height (nodes s) a"
  using assms by (auto simp: sl_rep_def maxLevel_def)

lemma set_on_level: "set (on_level h i as) = {a \<in> set as. i < height h a}"
  by (auto simp: on_level_def)

lemma on_level_append: "on_level h i (as @ bs) = on_level h i as @ on_level h i bs"
  by (simp add: on_level_def)

definition before :: "Skiplist \<Rightarrow> bytes \<Rightarrow> nat list \<Rightarrow> nat list" where
  "before s k xs = takeWhile (\<lambda>a. ikey_less (nkey (nodes s ! a)) k) xs"

definition after :: "Skiplist \<Rightarrow> bytes \<Rightarrow> nat list \<Rightarrow> nat list" where
  "after s k xs = dropWhile (\<lambda>a. ikey_less (nkey (nodes s ! a)) k) xs"

lemma before_after [simp]: "before s k xs @ after s k xs = xs"
  by (simp add: before_def after_def)

lemma before_less: "a \<in> set (before s k xs) \<Longrightarrow> ikey_less (nkey (nodes s ! a)) k"
  by (auto simp: before_def dest: set_takeWhileD)

lemma after_not_less:
  assumes "sl_rep s xs" and "a \<in> set (after s k xs)"
  shows "\<not> ikey_less (nkey (nodes s ! a)) k"
proof -
  have "sorted_wrt ikey_less (map (\<lambda>a. nkey (nodes s ! a)) xs)"
    using assms(1) by (simp add: sl_rep_def)
  moreover have "nkey (nodes s ! a) \<in> set (dropWhile (\<lambda>c. ikey_less c k) (map (\<lambda>a. nkey (nodes s ! a)) xs))"
    using assms(2) by (auto simp: after_def dropWhile_map comp_def)
  ultimately show ?thesis by (rule ikey.sorted_dropWhile)
qed

lemma set_before_after: "set (before s k xs) \<subseteq> set xs" "set (after s k xs) \<subseteq> set xs"
  by (auto simp: before_def after_def dest: set_takeWhileD set_dropWhileD)

lemma set_before_Un: "set (before s k xs) \<union> set (after s k xs) = set xs"
  by (metis before_after set_append)

lemma on_level_mem: "on_level h i L = as @ c # bs \<Longrightarrow> c \<in> set L \<and> i < height h c"
proof -
  assume "on_level h i L = as @ c # bs"
  then have "c \<in> set (on_level h i L)" by simp
  then show ?thesis by (simp add: on_level_def)
qed

lemma on_level_head:
  assumes "sl_rep s xs" and "i < maxLevel"
  shows "on_level (nodes s) i (0 # L) = 0 # on_level (nodes s) i L"
  using assms by (simp add: on_level_def sl_rep_def)

lemma get_next_on:
  assumes "sl_rep s xs" and "a \<in> set (0 # xs)" and "i < height (nodes s) a"
  shows "get_next (nodes s) a i = Some (nx (nodes s) i a)"
  using assms sl_rep_height(1) by (simp add: get_next_def)

abbreviation pred_on :: "Skiplist \<Rightarrow> bytes \<Rightarrow> nat list \<Rightarrow> nat \<Rightarrow> nat" where
  "pred_on s k xs i \<equiv> last (on_level (nodes s) i (0 # before s k xs))"

lemma walk_correct:
  assumes rep: "sl_rep s xs" and i: "i < maxLevel"
    and cur: "on_level (nodes s) i (0 # before s k xs) = as @ c # bs"
  shows "walk (nodes s) k i c = Some (pred_on s k xs i)"
  using cur
proof (induction bs arbitrary: as c)
  case Nil
  let ?rest = "on_level (nodes s) i (after s k xs)"
  have "on_level (nodes s) i (0 # xs) = as @ c # ?rest"
    using Nil on_level_append [of "nodes s" i "0 # before s k xs" "after s k xs"] by simp
  then have lk: "linked (nx (nodes s) i) (as @ c # ?rest)"
    using rep i by (metis sl_rep_def)
  have "c \<in> set (0 # xs)" "i < height (nodes s) c"
    using on_level_mem [OF Nil] set_before_after(1) by auto
  then have get: "get_next (nodes s) c i = Some (nx (nodes s) i c)"
    by (rule get_next_on [OF rep])
  show ?case
  proof (cases ?rest)
    case Nil': Nil
    then have "nx (nodes s) i c = None" using lk linked_last [of "nx (nodes s) i" as c] by simp
    with get have "get_next (nodes s) c i = Some None" by simp
    with Nil show ?thesis by (simp add: walk.simps)
  next
    case (Cons b ws)
    then have b: "b \<in> set (after s k xs)" by (auto simp: on_level_def dest!: filter_eq_ConsD)
    then have "b < length (nodes s)" "\<not> ikey_less (nkey (nodes s ! b)) k"
      using after_not_less [OF rep b] sl_rep_height(1) [OF rep, of b] set_before_after(2) by auto
    with lk get Cons have "walk (nodes s) k i c = Some c"
      using linked_next by (subst walk.simps) fastforce
    with Nil show ?thesis by simp
  qed
next
  case (Cons d bs)
  have "as @ c # d # bs = 0 # on_level (nodes s) i (before s k xs)"
    using Cons.prems on_level_head [OF rep i] by simp
  then have "tl (as @ c # d # bs) = on_level (nodes s) i (before s k xs)" by simp
  moreover have "d \<in> set (tl (as @ c # d # bs))" by (cases as) simp_all
  ultimately have "d \<in> set (on_level (nodes s) i (before s k xs))" by metis
  then have d: "d \<in> set (before s k xs)" by (simp add: on_level_def)
  have "on_level (nodes s) i (0 # xs) = as @ c # d # bs @ on_level (nodes s) i (after s k xs)"
    using Cons.prems on_level_append [of "nodes s" i "0 # before s k xs" "after s k xs"] by simp
  then have next_d: "nx (nodes s) i c = Some d"
    using rep i linked_next by (metis sl_rep_def)
  have "c \<in> set (0 # xs)" "i < height (nodes s) c"
    using on_level_mem [OF Cons.prems] set_before_after(1) by auto
  then have "get_next (nodes s) c i = Some (Some d)"
    using get_next_on [OF rep] next_d by simp
  moreover have "d < length (nodes s)"
    using sl_rep_height(1) [OF rep, of d] d set_before_after(1) by auto
  ultimately have "walk (nodes s) k i c = walk (nodes s) k i d"
    using before_less [OF d] by (subst walk.simps) simp
  then show ?case using Cons.IH [of "as @ [c]" d] Cons.prems by simp
qed

text \<open>The outer loop finds the predecessor of \<open>k\<close> on every level.\<close>

lemma pred_on_mem:
  assumes "sl_rep s xs" and "i < maxLevel"
  shows "pred_on s k xs i \<in> set (0 # before s k xs)" and "i < height (nodes s) (pred_on s k xs i)"
proof -
  have "on_level (nodes s) i (0 # before s k xs) \<noteq> []"
    using on_level_head [OF assms] by simp
  then have "pred_on s k xs i \<in> set (on_level (nodes s) i (0 # before s k xs))" by simp
  then show "pred_on s k xs i \<in> set (0 # before s k xs)" "i < height (nodes s) (pred_on s k xs i)"
    by (auto simp: on_level_def split: if_splits)
qed

lemma find_position_correct:
  assumes "sl_rep s xs" and "n \<le> maxLevel" and "c \<in> set (0 # before s k xs)" and "n \<le> height (nodes s) c"
    and "length upd = maxLevel"
  shows "find_position (nodes s) k n c upd =
    Some (if n = 0 then c else pred_on s k xs 0,
          map (\<lambda>i. if i < n then Some (pred_on s k xs i) else upd ! i) [0..<maxLevel])"
  using assms(2-)
proof (induction n arbitrary: c upd)
  case 0
  then show ?case by (simp add: list_eq_iff_nth_eq)
next
  case (Suc n)
  have "c \<in> set (on_level (nodes s) n (0 # before s k xs))"
    using Suc.prems by (auto simp: on_level_def)
  then obtain as bs where "on_level (nodes s) n (0 # before s k xs) = as @ c # bs"
    by (meson split_list)
  then have "walk (nodes s) k n c = Some (pred_on s k xs n)"
    using walk_correct [OF assms(1)] Suc.prems(1) by simp
  moreover have n: "n < maxLevel" using Suc.prems(1) by simp
  moreover have "map (\<lambda>i. if i < n then Some (pred_on s k xs i) else upd[n := Some (pred_on s k xs n)] ! i) [0..<maxLevel]
     = map (\<lambda>i. if i < Suc n then Some (pred_on s k xs i) else upd ! i) [0..<maxLevel]"
    using Suc.prems(4) by (auto simp: nth_list_update less_Suc_eq)
  moreover have "find_position (nodes s) k n (pred_on s k xs n) (upd[n := Some (pred_on s k xs n)]) =
      Some (if n = 0 then pred_on s k xs n else pred_on s k xs 0,
        map (\<lambda>i. if i < n then Some (pred_on s k xs i) else upd[n := Some (pred_on s k xs n)] ! i) [0..<maxLevel])"
    using pred_on_mem [OF assms(1) n, of k] Suc.prems(4) n by (intro Suc.IH) simp_all
  ultimately show ?case by simp
qed

lemma on_level_0:
  assumes "sl_rep s xs" and "set as \<subseteq> set (0 # xs)"
  shows "on_level (nodes s) 0 as = as"
proof -
  have "0 < height (nodes s) a" if "a \<in> set as" for a
    using sl_rep_height(2) [OF assms(1), of a] assms(2) that by auto
  then show ?thesis by (simp add: on_level_def)
qed

lemma bottom_linked:
  assumes "sl_rep s xs"
  shows "linked (nx (nodes s) 0) (0 # xs)"
proof -
  have "linked (nx (nodes s) 0) (on_level (nodes s) 0 (0 # xs))"
    using assms by (simp add: sl_rep_def maxLevel_def)
  then show ?thesis using on_level_0 [OF assms, of "0 # xs"] by simp
qed

lemma get_next_bottom:
  assumes "sl_rep s xs" and "a \<in> set (0 # xs)"
  shows "get_next (nodes s) a 0 = Some (nx (nodes s) 0 a)"
  using get_next_on [OF assms, of 0] sl_rep_height(2) [OF assms] by (meson Suc_le_lessD One_nat_def order_less_le_trans zero_less_one)

lemma search_correct:
  assumes "sl_rep s xs"
  shows "find_position (nodes s) k (level s) 0 (replicate maxLevel None) =
      Some (last (0 # before s k xs),
            map (\<lambda>i. if i < level s then Some (pred_on s k xs i) else None) [0..<maxLevel])"
    and "get_next (nodes s) (last (0 # before s k xs)) 0 =
      Some (case after s k xs of [] \<Rightarrow> None | a # _ \<Rightarrow> Some a)"
proof -
  have lv: "level s \<le> maxLevel" "level s \<noteq> 0" "level s \<le> height (nodes s) 0"
    using assms by (auto simp: sl_rep_def)
  have p0: "pred_on s k xs 0 = last (0 # before s k xs)"
    using set_before_after(1) [of s k xs] by (subst on_level_0 [OF assms]) auto
  have "map (\<lambda>i. if i < level s then Some (pred_on s k xs i) else replicate maxLevel None ! i) [0..<maxLevel] =
      map (\<lambda>i. if i < level s then Some (pred_on s k xs i) else None) [0..<maxLevel]"
    by simp
  then show "find_position (nodes s) k (level s) 0 (replicate maxLevel None) =
      Some (last (0 # before s k xs),
            map (\<lambda>i. if i < level s then Some (pred_on s k xs i) else None) [0..<maxLevel])"
    using find_position_correct [OF assms lv(1), of 0 k "replicate maxLevel None"] lv p0 by simp
  let ?c = "last (0 # before s k xs)"
  have c: "?c \<in> set (0 # xs)" using set_before_after(1) [of s k xs] last_in_set [of "0 # before s k xs"] by auto
  have lk: "linked (nx (nodes s) 0) ((0 # before s k xs) @ after s k xs)"
    using bottom_linked [OF assms] by simp
  have split: "(0 # before s k xs) = butlast (0 # before s k xs) @ [?c]" by simp
  have "nx (nodes s) 0 ?c = (case after s k xs of [] \<Rightarrow> None | a # _ \<Rightarrow> Some a)"
  proof (cases "after s k xs")
    case Nil
    with lk show ?thesis using linked_last split by (metis append_Nil2 list.simps(4))
  next
    case (Cons b bs)
    with lk show ?thesis using linked_next split by (metis append.assoc append_Cons append_Nil list.simps(5))
  qed
  then show "get_next (nodes s) ?c 0 = Some (case after s k xs of [] \<Rightarrow> None | a # _ \<Rightarrow> Some a)"
    using get_next_bottom [OF assms c] by metis
qed

section \<open>Linking the new node\<close>

lemma link_levels_correct:
  assumes "\<And>j. i \<le> j \<Longrightarrow> j < i + n \<Longrightarrow> upd ! j = Some (u j) \<and> u j < length h \<and> j < height h (u j) \<and> u j \<noteq> z"
    and "z < length h" and "i + n \<le> height h z"
  shows "\<exists>h'. link_levels upd z i n h = Some h' \<and> length h' = length h \<and>
    (\<forall>a. nkey (h' ! a) = nkey (h ! a) \<and> nvalue (h' ! a) = nvalue (h ! a) \<and> height h' a = height h a) \<and>
    (\<forall>j. i \<le> j \<and> j < i + n \<longrightarrow> nx h' j = (nx h j)(z := nx h j (u j), u j := Some z)) \<and>
    (\<forall>j. \<not> (i \<le> j \<and> j < i + n) \<longrightarrow> nx h' j = nx h j)"
  using assms
proof (induction n arbitrary: i h)
  case 0
  then show ?case by auto
next
  case (Suc n)
  have u: "upd ! i = Some (u i)" "u i < length h" "i < height h (u i)" "u i \<noteq> z"
    using Suc.prems(1) [of i] by auto
  have z: "z < length h" "i < height h z" using Suc.prems by auto
  define h1 where "h1 = h[z := (h ! z)\<lparr>nnext := (nnext (h ! z))[i := nx h i (u i)]\<rparr>]"
  define h2 where "h2 = h1[u i := (h1 ! u i)\<lparr>nnext := (nnext (h1 ! u i))[i := Some z]\<rparr>]"
  have g: "get_next h (u i) i = Some (nx h i (u i))" "set_next h z i (nx h i (u i)) = Some h1"
    "set_next h1 (u i) i (Some z) = Some h2"
    using u z by (simp_all add: get_next_def set_next_def h1_def h2_def)
  have len: "length h2 = length h" by (simp add: h1_def h2_def)
  have same: "nkey (h2 ! a) = nkey (h ! a) \<and> nvalue (h2 ! a) = nvalue (h ! a) \<and> height h2 a = height h a" for a
    using u z by (auto simp: h1_def h2_def nth_list_update)
  have here: "nx h2 i = (nx h i)(z := nx h i (u i), u i := Some z)"
    using u z by (auto simp: h1_def h2_def nth_list_update fun_eq_iff)
  have other: "nx h2 j = nx h j" if "j \<noteq> i" for j
    using that u z by (auto simp: h1_def h2_def nth_list_update fun_eq_iff)
  have "\<exists>h'. link_levels upd z (Suc i) n h2 = Some h' \<and> length h' = length h2 \<and>
    (\<forall>a. nkey (h' ! a) = nkey (h2 ! a) \<and> nvalue (h' ! a) = nvalue (h2 ! a) \<and> height h' a = height h2 a) \<and>
    (\<forall>j. Suc i \<le> j \<and> j < Suc i + n \<longrightarrow> nx h' j = (nx h2 j)(z := nx h2 j (u j), u j := Some z)) \<and>
    (\<forall>j. \<not> (Suc i \<le> j \<and> j < Suc i + n) \<longrightarrow> nx h' j = nx h2 j)"
    using Suc.prems same len by (intro Suc.IH) simp_all
  then obtain h' where h': "link_levels upd z (Suc i) n h2 = Some h'" "length h' = length h2"
    "\<And>a. nkey (h' ! a) = nkey (h2 ! a) \<and> nvalue (h' ! a) = nvalue (h2 ! a) \<and> height h' a = height h2 a"
    "\<And>j. Suc i \<le> j \<Longrightarrow> j < Suc i + n \<Longrightarrow> nx h' j = (nx h2 j)(z := nx h2 j (u j), u j := Some z)"
    "\<And>j. \<not> (Suc i \<le> j \<and> j < Suc i + n) \<Longrightarrow> nx h' j = nx h2 j"
    by blast
  have run: "link_levels upd z i (Suc n) h = Some h'" using g u h'(1) by simp
  have in_range: "nx h' j = (nx h j)(z := nx h j (u j), u j := Some z)" if "i \<le> j" "j < i + Suc n" for j
    using that h'(4) [of j] h'(5) [of i] here other [of j] by (cases "j = i") (simp_all, metis Suc_leI le_neq_implies_less)
  have out: "nx h' j = nx h j" if "\<not> (i \<le> j \<and> j < i + Suc n)" for j
    using that h'(5) [of j] other [of j] by fastforce
  show ?case
    using run h'(2,3) len same in_range out by metis
qed

section \<open>Insertion\<close>

lemma randomLevel_bounds: "1 \<le> randomLevel coins" "randomLevel coins \<le> maxLevel"
proof -
  have "lvl \<le> maxLevel \<Longrightarrow> lvl \<le> randomLevel_loop coins lvl \<and> randomLevel_loop coins lvl \<le> maxLevel" for lvl
  proof (induction coins lvl rule: randomLevel_loop.induct)
    case (1 coins lvl)
    then show ?case by (subst (1 2) randomLevel_loop.simps) auto
  qed
  then show "1 \<le> randomLevel coins" "randomLevel coins \<le> maxLevel"
    by (auto simp: randomLevel_def maxLevel_def)
qed


lemma map_fst_entries: "map fst (sl_entries s xs) = map (\<lambda>a. nkey (nodes s ! a)) xs"
  by (simp add: sl_entries_def)

lemma upd_entry_split:
  assumes "sl_rep s xs"
  shows "upd_entry k v (sl_entries s xs) =
    (case after s k xs of
       [] \<Rightarrow> sl_entries s (before s k xs) @ [(k, v)]
     | a # as \<Rightarrow>
         if Compare (nkey (nodes s ! a)) k = 0
         then sl_entries s (before s k xs) @ (nkey (nodes s ! a), v) # sl_entries s as
         else sl_entries s (before s k xs) @ (k, v) # sl_entries s (a # as))"
proof -
  have pre: "upd_entry k v (sl_entries s (bs @ cs)) = sl_entries s bs @ upd_entry k v (sl_entries s cs)"
    if "\<And>a. a \<in> set bs \<Longrightarrow> ikey_less (nkey (nodes s ! a)) k" for bs cs
    using that by (induction bs) (auto simp: sl_entries_def)
  have "upd_entry k v (sl_entries s xs) = sl_entries s (before s k xs) @ upd_entry k v (sl_entries s (after s k xs))"
    using pre [of "before s k xs" "after s k xs"] before_less by auto
  then show ?thesis
    using after_not_less [OF assms, of _ k]
    by (cases "after s k xs") (auto simp: sl_entries_def)
qed

lemma sl_rep_update:
  assumes "sl_rep s xs" and "a < length (nodes s)"
  shows "sl_rep (s\<lparr>sizeBytes := n, nodes := (nodes s)[a := (nodes s ! a)\<lparr>nvalue := v\<rparr>]\<rparr>) xs"
proof -
  let ?h = "(nodes s)[a := (nodes s ! a)\<lparr>nvalue := v\<rparr>]"
  have "nnext (?h ! b) = nnext (nodes s ! b) \<and> nkey (?h ! b) = nkey (nodes s ! b)" for b
    using assms(2) by (auto simp: nth_list_update)
  moreover from this have "on_level ?h i as = on_level (nodes s) i as" for i as
    by (simp add: on_level_def)
  ultimately show ?thesis using assms(1) by (simp add: sl_rep_def)
qed

text \<open>\<open>spliced s xs k v lvl h\<close>: the store \<open>h\<close> is the store of \<open>s\<close> with one more node, of height \<open>lvl\<close>,
  linked after the predecessor of \<open>k\<close> on each of its levels.\<close>

definition spliced :: "Skiplist \<Rightarrow> nat list \<Rightarrow> bytes \<Rightarrow> bytes \<Rightarrow> nat \<Rightarrow> Node list \<Rightarrow> bool" where
  "spliced s xs k v lvl h \<longleftrightarrow> (let z = length (nodes s) in
     length h = Suc z \<and> nkey (h ! z) = k \<and> nvalue (h ! z) = v \<and> height h z = lvl \<and>
     (\<forall>a < z. nkey (h ! a) = nkey (nodes s ! a) \<and> nvalue (h ! a) = nvalue (nodes s ! a) \<and>
             height h a = height (nodes s) a) \<and>
     (\<forall>i < lvl. \<forall>a \<le> z. nx h i a =
        ((nx (nodes s) i)(z := nx (nodes s) i (pred_on s k xs i), pred_on s k xs i := Some z)) a) \<and>
     (\<forall>i. lvl \<le> i \<longrightarrow> (\<forall>a < z. nx h i a = nx (nodes s) i a)))"

lemma pred_on_old:
  assumes "sl_rep s xs" and "i < maxLevel"
  shows "pred_on s k xs i < length (nodes s)"
  using pred_on_mem(1) [OF assms, of k] sl_rep_height(1) [OF assms(1)] set_before_after(1) [of s k xs] by auto

lemma pred_on_above:
  assumes "sl_rep s xs" and "level s \<le> i" and "i < maxLevel"
  shows "pred_on s k xs i = 0"
proof -
  have "on_level (nodes s) i (before s k xs) = []"
    using assms(1,2) set_before_after(1) [of s k xs] by (force simp: on_level_def filter_empty_conv sl_rep_def)
  then show ?thesis using on_level_head [OF assms(1,3)] by simp
qed

lemma sl_insert_new_spliced:
  assumes rep: "sl_rep s xs" and lvl: "lvl \<le> maxLevel"
  shows "\<exists>h. spliced s xs k v lvl h \<and>
    sl_insert_new s (map (\<lambda>i. if i < level s then Some (pred_on s k xs i) else None) [0..<maxLevel]) k v lvl =
      Some \<lparr>nodes = h, level = (if lvl > level s then lvl else level s), sl_count = sl_count s + 1,
            sizeBytes = sizeBytes s + (int (length k) + int (length v))\<rparr>"
proof -
  let ?upd = "map (\<lambda>i. if i < level s then Some (pred_on s k xs i) else None) [0..<maxLevel]"
  let ?z = "length (nodes s)" and ?u = "\<lambda>i. pred_on s k xs i"
  define h where "h = nodes s @ [\<lparr>nkey = k, nvalue = v, nnext = replicate lvl None\<rparr>]"
  define upd where "upd = map (\<lambda>i. if level s \<le> i \<and> i < lvl then Some 0 else ?upd ! i) [0..<maxLevel]"
  have old: "h ! a = nodes s ! a" if "a < ?z" for a using that by (simp add: h_def nth_append)
  have u: "upd ! j = Some (?u j) \<and> ?u j < length h \<and> j < height h (?u j) \<and> ?u j \<noteq> ?z" if "j < lvl" for j
  proof -
    have j: "j < maxLevel" using that lvl by simp
    have "upd ! j = Some (?u j)" using j that pred_on_above [OF rep _ j, of k] by (auto simp: upd_def)
    then show ?thesis
      using pred_on_old [OF rep j, of k] pred_on_mem(2) [OF rep j, of k] old [of "?u j"] by (simp add: h_def)
  qed
  obtain h' where h': "link_levels upd ?z 0 lvl h = Some h'" "length h' = length h"
    "\<And>a. nkey (h' ! a) = nkey (h ! a) \<and> nvalue (h' ! a) = nvalue (h ! a) \<and> height h' a = height h a"
    "\<And>j. j < lvl \<Longrightarrow> nx h' j = (nx h j)(?z := nx h j (?u j), ?u j := Some ?z)"
    "\<And>j. \<not> j < lvl \<Longrightarrow> nx h' j = nx h j"
    using link_levels_correct [of 0 lvl upd ?u h ?z] u by (auto simp: h_def)
  have new: "nkey (h' ! ?z) = k" "nvalue (h' ! ?z) = v" "height h' ?z = lvl"
    using h'(3) [of ?z] by (simp_all add: h_def)
  have below: "nx h' i a = ((nx (nodes s) i)(?z := nx (nodes s) i (?u i), ?u i := Some ?z)) a"
    if "i < lvl" "a \<le> ?z" for i a
    using fun_cong [OF h'(4) [OF that(1)], of a] that old [of a] old [of "?u i"] pred_on_old [OF rep, of i k] lvl by simp
  have above: "nx h' i a = nx (nodes s) i a" if "lvl \<le> i" "a < ?z" for i a
    using fun_cong [OF h'(5) [of i], of a] that old by simp
  have "spliced s xs k v lvl h'"
    unfolding spliced_def Let_def
    using h'(2,3) old new below above by (auto simp: h_def)
  moreover have "sl_insert_new s ?upd k v lvl = Some \<lparr>nodes = h', level = (if lvl > level s then lvl else level s),
      sl_count = sl_count s + 1, sizeBytes = sizeBytes s + (int (length k) + int (length v))\<rparr>"
    using h'(1) unfolding sl_insert_new_def Let_def upd_def h_def by simp
  ultimately show ?thesis by blast
qed

lemma spliced_on_level:
  assumes "sl_rep s xs" and "spliced s xs k v lvl h" and "i < maxLevel"
  shows "on_level h i (0 # before s k xs @ length (nodes s) # after s k xs) =
    on_level (nodes s) i (0 # before s k xs) @ (if i < lvl then [length (nodes s)] else []) @
    on_level (nodes s) i (after s k xs)"
proof -
  let ?z = "length (nodes s)"
  have lev: "on_level h i as = on_level (nodes s) i as" if "set as \<subseteq> set (0 # xs)" for as
    unfolding on_level_def
    by (intro filter_cong refl)
      (use assms(2) sl_rep_height(1) [OF assms(1)] that in \<open>auto simp: spliced_def Let_def subset_iff\<close>)
  have "on_level h i (0 # before s k xs @ ?z # after s k xs) =
      on_level h i (0 # before s k xs) @ on_level h i [?z] @ on_level h i (after s k xs)"
    using on_level_append [of h i "0 # before s k xs" "?z # after s k xs"]
      on_level_append [of h i "[?z]" "after s k xs"] by simp
  moreover have "on_level h i (0 # before s k xs) = on_level (nodes s) i (0 # before s k xs)"
    "on_level h i (after s k xs) = on_level (nodes s) i (after s k xs)"
    using set_before_after [of s k xs] by (auto intro!: lev)
  moreover have "on_level h i [?z] = (if i < lvl then [?z] else [])"
    using assms(2) by (simp add: on_level_def spliced_def Let_def)
  ultimately show ?thesis by simp
qed

lemma spliced_linked:
  assumes rep: "sl_rep s xs" and sp: "spliced s xs k v lvl h" and i: "i < maxLevel"
  shows "linked (nx h i) (on_level h i (0 # before s k xs @ length (nodes s) # after s k xs))"
proof -
  let ?z = "length (nodes s)"
  let ?A = "on_level (nodes s) i (0 # before s k xs)" and ?B = "on_level (nodes s) i (after s k xs)"
  have AB: "?A @ ?B = on_level (nodes s) i (0 # xs)"
    using on_level_append [of "nodes s" i "0 # before s k xs" "after s k xs"] by simp
  have mem: "a < ?z" if "a \<in> set (?A @ ?B)" for a
    using that sl_rep_height(1) [OF rep, of a] unfolding AB by (auto simp: set_on_level)
  have lk: "linked (nx (nodes s) i) (?A @ ?B)" using rep i unfolding AB by (simp add: sl_rep_def)
  have "linked (nx h i) (?A @ (if i < lvl then [?z] else []) @ ?B)"
  proof (cases "i < lvl")
    case True
    let ?f = "(nx (nodes s) i)(?z := nx (nodes s) i (last ?A), last ?A := Some ?z)"
    have "distinct (0 # xs)" using rep by (auto simp: sl_rep_def)
    then have "distinct (?A @ ?B)" unfolding AB by (auto simp: on_level_def)
    moreover have "?A \<noteq> []" using on_level_head [OF rep i] by simp
    ultimately have "linked ?f (?A @ ?z # ?B)"
      using mem by (intro linked_insert [OF lk]) blast+
    moreover have "nx h i a = ?f a" if "a \<in> set (?A @ ?z # ?B)" for a
    proof -
      have "a \<le> ?z" using that mem [of a] by auto
      with sp True show ?thesis by (simp add: spliced_def Let_def)
    qed
    ultimately show ?thesis using True linked_cong [of "?A @ ?z # ?B" "nx h i" ?f] by simp
  next
    case False
    then have "nx h i a = nx (nodes s) i a" if "a \<in> set (?A @ ?B)" for a
      using sp mem [OF that] by (simp add: spliced_def Let_def)
    with False lk show ?thesis using linked_cong [of "?A @ ?B" "nx h i" "nx (nodes s) i"] by simp
  qed
  then show ?thesis using spliced_on_level [OF assms] by simp
qed

lemma spliced_entries:
  assumes "sl_rep s xs" and "spliced s xs k v lvl h" and "nodes s' = h"
  shows "sl_entries s' (before s k xs @ length (nodes s) # after s k xs) =
    sl_entries s (before s k xs) @ (k, v) # sl_entries s (after s k xs)"
proof -
  have "map (\<lambda>a. (nkey (h ! a), nvalue (h ! a))) as = sl_entries s as" if "set as \<subseteq> set xs" for as
    unfolding sl_entries_def
    by (intro map_cong refl)
      (use assms(2) sl_rep_height(1) [OF assms(1)] that in \<open>auto simp: spliced_def Let_def subset_iff\<close>)
  from this [OF set_before_after(1)] this [OF set_before_after(2)] show ?thesis
    using assms(2,3) by (simp add: sl_entries_def spliced_def Let_def)
qed

lemma spliced_sorted:
  assumes rep: "sl_rep s xs" and new: "\<And>a. a \<in> set xs \<Longrightarrow> Compare (nkey (nodes s ! a)) k \<noteq> 0"
  shows "sorted_wrt ikey_less (map fst (sl_entries s (before s k xs) @ (k, v) # sl_entries s (after s k xs)))"
proof -
  have "map (\<lambda>a. nkey (nodes s ! a)) xs =
      map (\<lambda>a. nkey (nodes s ! a)) (before s k xs) @ map (\<lambda>a. nkey (nodes s ! a)) (after s k xs)"
    by (metis before_after map_append)
  then have "sorted_wrt ikey_less (map (\<lambda>a. nkey (nodes s ! a)) (before s k xs) @ map (\<lambda>a. nkey (nodes s ! a)) (after s k xs))"
    using rep by (simp add: sl_rep_def)
  moreover have "ikey_less k (nkey (nodes s ! a))" if "a \<in> set (after s k xs)" for a
    using after_not_less [OF rep that] new [of a] that set_before_after(2) [of s k xs]
    by (metis ikey.cmp_greater ikey.cmp_less ikey.cmp_zero linorder_less_linear subsetD)
  ultimately show ?thesis
    using before_less [of _ s k xs] by (auto simp: sl_entries_def comp_def sorted_wrt_append)
qed

lemma spliced_rep:
  assumes rep: "sl_rep s xs" and sp: "spliced s xs k v lvl h" and lvl: "1 \<le> lvl" "lvl \<le> maxLevel"
    and new: "\<And>a. a \<in> set xs \<Longrightarrow> Compare (nkey (nodes s ! a)) k \<noteq> 0"
    and s': "nodes s' = h" "level s' = (if lvl > level s then lvl else level s)"
  shows "sl_rep s' (before s k xs @ length (nodes s) # after s k xs)"
proof -
  let ?z = "length (nodes s)"
  let ?ys = "before s k xs @ ?z # after s k xs"
  have facts: "0 < ?z" "length h = Suc ?z" "height h ?z = lvl" "\<And>a. a < ?z \<Longrightarrow> height h a = height (nodes s) a"
    using rep sp by (auto simp: sl_rep_def spliced_def Let_def)
  have set: "set ?ys = insert ?z (set xs)" using set_before_Un [of s k xs] by auto
  have "distinct (before s k xs)" "distinct (after s k xs)" "set (before s k xs) \<inter> set (after s k xs) = {}"
    using rep distinct_append [of "before s k xs" "after s k xs"] by (auto simp: sl_rep_def)
  moreover have "?z \<notin> set xs" using sl_rep_height(1) [OF rep, of ?z] by auto
  ultimately have dist: "distinct ?ys" using set_before_after [of s k xs] by auto
  have lv: "1 \<le> level s' \<and> level s' \<le> maxLevel" using rep lvl by (simp add: sl_rep_def s'(2))
  have "1 \<le> height h a \<and> height h a \<le> level s'" if "a \<in> set ?ys" for a
  proof (cases "a = ?z")
    case True
    with lvl facts(3) show ?thesis by (simp add: s'(2))
  next
    case False
    with that set have a: "a \<in> set xs" by blast
    then have "1 \<le> height (nodes s) a" "height (nodes s) a \<le> level s" using rep by (auto simp: sl_rep_def)
    moreover have "height h a = height (nodes s) a" using facts(4) sl_rep_height(1) [OF rep, of a] a by simp
    ultimately show ?thesis by (simp add: s'(2))
  qed
  moreover have "sorted_wrt ikey_less (map fst (sl_entries s' ?ys))"
    unfolding spliced_entries [OF rep sp s'(1)] using rep new by (rule spliced_sorted)
  then have "sorted_wrt ikey_less (map (\<lambda>a. nkey (nodes s' ! a)) ?ys)"
    by (simp only: map_fst_entries)
  moreover have "set ?ys = {1 ..< length h}"
    unfolding set using rep facts(1,2) by (auto simp: sl_rep_def Suc_le_eq)
  moreover have "0 < length h" "height h 0 = maxLevel" using rep facts by (simp_all add: sl_rep_def)
  ultimately show ?thesis
    using spliced_linked [OF rep sp] dist lv unfolding sl_rep_def s'(1) by blast
qed

text \<open>The counters \<^verbatim>\<open>count\<close> and \<^verbatim>\<open>sizeBytes\<close> agree with the entries.\<close>

definition entry_bytes :: "(bytes \<times> bytes) list \<Rightarrow> int" where
  "entry_bytes es = (\<Sum>e \<leftarrow> es. int (length (fst e)) + int (length (snd e)))"

definition sl_sizes :: "Skiplist \<Rightarrow> nat list \<Rightarrow> bool" where
  "sl_sizes s xs \<longleftrightarrow> sl_count s = length xs \<and> sizeBytes s = entry_bytes (sl_entries s xs)"

lemma sl_entries_append [simp]: "sl_entries s (as @ bs) = sl_entries s as @ sl_entries s bs"
  and entry_bytes_append [simp]: "entry_bytes (es @ fs) = entry_bytes es + entry_bytes fs"
  and entry_bytes_Cons [simp]: "entry_bytes (e # es) = int (length (fst e)) + int (length (snd e)) + entry_bytes es"
  by (simp_all add: sl_entries_def entry_bytes_def)

lemma Skiplist_Insert_existing:
  assumes rep: "sl_rep s xs" and a: "after s k xs = a # as" "Compare (nkey (nodes s ! a)) k = 0"
  shows "\<exists>s' xs'. Skiplist_Insert s k v coins = Some s' \<and> sl_rep s' xs' \<and>
    sl_entries s' xs' = upd_entry k v (sl_entries s xs) \<and> (sl_sizes s xs \<longrightarrow> sl_sizes s' xs')"
proof -
  let ?s = "s\<lparr>sizeBytes := sizeBytes s - (int (length (nvalue (nodes s ! a))) - int (length v)),
    nodes := (nodes s)[a := (nodes s ! a)\<lparr>nvalue := v\<rparr>]\<rparr>"
  have "a \<in> set (0 # xs)" using a(1) set_before_after(2) [of s k xs] by auto
  then have lt: "a < length (nodes s)" by (rule sl_rep_height(1) [OF rep])
  have xs: "xs = before s k xs @ a # as" using a(1) before_after by metis
  moreover have "distinct xs" using rep by (simp add: sl_rep_def)
  ultimately have "a \<notin> set (before s k xs)" "a \<notin> set as"
    by (metis distinct_append distinct.simps(2) disjoint_iff list.set_intros(1))+
  then have ents: "sl_entries ?s (before s k xs @ a # as) =
      sl_entries s (before s k xs) @ (nkey (nodes s ! a), v) # sl_entries s as"
    using lt by (auto simp: sl_entries_def nth_list_update)
  have old: "sl_entries s (before s k xs @ a # as) =
      sl_entries s (before s k xs) @ (nkey (nodes s ! a), nvalue (nodes s ! a)) # sl_entries s as"
    by (simp add: sl_entries_def)
  have "sl_sizes ?s (before s k xs @ a # as)" if "sl_sizes s (before s k xs @ a # as)"
    using that unfolding sl_sizes_def ents old by simp
  then have "sl_sizes s xs \<longrightarrow> sl_sizes ?s xs" using xs by simp
  moreover have "sl_entries ?s (before s k xs @ a # as) = upd_entry k v (sl_entries s xs)"
    unfolding upd_entry_split [OF rep] ents using a by simp
  then have "sl_entries ?s xs = upd_entry k v (sl_entries s xs)" using xs by simp
  moreover have "Skiplist_Insert s k v coins = Some ?s"
    using search_correct [OF rep, of k] a lt by (simp add: Skiplist_Insert_def)
  ultimately show ?thesis using sl_rep_update [OF rep lt] by blast
qed

lemma after_no_equal:
  assumes rep: "sl_rep s xs" and mem: "a \<in> set xs" and eq: "Compare (nkey (nodes s ! a)) k = 0"
  shows "\<exists>bs. after s k xs = a # bs"
proof -
  have "a \<in> set (after s k xs)"
    using eq mem before_less [of a s k xs] set_before_Un [of s k xs] by auto
  then obtain b bs where b: "after s k xs = b # bs" "a = b \<or> a \<in> set bs" by (cases "after s k xs") auto
  have "a \<notin> set bs"
  proof
    assume a: "a \<in> set bs"
    have "sorted_wrt ikey_less (map (\<lambda>a. nkey (nodes s ! a)) (before s k xs @ b # bs))"
      using rep b(1) before_after [of s k xs] by (simp add: sl_rep_def)
    then have "ikey_less (nkey (nodes s ! b)) (nkey (nodes s ! a))"
      using a by (simp add: sorted_wrt_append)
    then have "ikey_less (nkey (nodes s ! b)) k"
      using eq by (simp add: ikey.cmp_less ikey.cmp_zero)
    with after_not_less [OF rep, of b k] b(1) show False by simp
  qed
  with b show ?thesis by simp
qed

lemma Skiplist_Insert_new:
  assumes rep: "sl_rep s xs" and new: "\<And>a. a \<in> set xs \<Longrightarrow> Compare (nkey (nodes s ! a)) k \<noteq> 0"
  shows "\<exists>s' xs'. Skiplist_Insert s k v coins = Some s' \<and> sl_rep s' xs' \<and>
    sl_entries s' xs' = upd_entry k v (sl_entries s xs) \<and> (sl_sizes s xs \<longrightarrow> sl_sizes s' xs')"
proof -
  let ?ys = "before s k xs @ length (nodes s) # after s k xs"
  obtain h where h: "spliced s xs k v (randomLevel coins) h" and
    run: "sl_insert_new s (map (\<lambda>i. if i < level s then Some (pred_on s k xs i) else None) [0..<maxLevel])
        k v (randomLevel coins) =
      Some \<lparr>nodes = h, level = (if randomLevel coins > level s then randomLevel coins else level s),
        sl_count = sl_count s + 1, sizeBytes = sizeBytes s + (int (length k) + int (length v))\<rparr>" (is "_ = Some ?s'")
    using sl_insert_new_spliced [OF rep randomLevel_bounds(2)] by blast
  have "sl_rep ?s' ?ys"
    using rep h randomLevel_bounds new by (rule spliced_rep) simp_all
  moreover have ents: "sl_entries ?s' ?ys = sl_entries s (before s k xs) @ (k, v) # sl_entries s (after s k xs)"
    by (rule spliced_entries [OF rep h]) simp
  have hd: "a < length (nodes s) \<and> Compare (nkey (nodes s ! a)) k \<noteq> 0" if "after s k xs = a # as" for a as
    using that sl_rep_height(1) [OF rep, of a] set_before_after(2) [of s k xs] new [of a] by auto
  have "sl_entries ?s' ?ys = upd_entry k v (sl_entries s xs)"
    unfolding ents upd_entry_split [OF rep]
    using hd by (cases "after s k xs") (simp_all add: sl_entries_def)
  moreover note hd
  then have "Skiplist_Insert s k v coins = Some ?s'"
    using search_correct [OF rep, of k] run
    by (cases "after s k xs") (simp_all add: Skiplist_Insert_def)
  moreover have "sl_sizes ?s' ?ys" if "sl_sizes s xs"
  proof -
    have "sl_sizes s (before s k xs @ after s k xs)" using that by simp
    then show ?thesis unfolding sl_sizes_def ents by (simp del: before_after)
  qed
  ultimately show ?thesis by blast
qed

text \<open>Insertion succeeds on every well-formed list and has the effect of the specification.\<close>

lemma Skiplist_Insert_correct:
  assumes "sl_rep s xs"
  shows "\<exists>s' xs'. Skiplist_Insert s k v coins = Some s' \<and> sl_rep s' xs' \<and>
    sl_entries s' xs' = upd_entry k v (sl_entries s xs) \<and> (sl_sizes s xs \<longrightarrow> sl_sizes s' xs')"
proof (cases "\<exists>a \<in> set xs. Compare (nkey (nodes s ! a)) k = 0")
  case True
  with assms Skiplist_Insert_existing after_no_equal show ?thesis by metis
next
  case False
  with assms Skiplist_Insert_new show ?thesis by metis
qed

lemma NewSkiplist_rep: "sl_rep NewSkiplist []" "sl_entries NewSkiplist [] = []" "sl_sizes NewSkiplist []"
  by (auto simp: sl_rep_def NewSkiplist_def sl_entries_def on_level_def maxLevel_def sl_sizes_def entry_bytes_def)


section \<open>Iteration\<close>

text \<open>\<open>iter_rep it xs ys\<close>: the iterator walks a list with the nodes \<open>xs\<close> and has \<open>ys\<close> still to come.\<close>

definition iter_rep :: "Iterator \<Rightarrow> nat list \<Rightarrow> nat list \<Rightarrow> bool" where
  "iter_rep it xs ys \<longleftrightarrow> sl_rep (it_list it) xs \<and> (\<exists>zs. xs = zs @ ys) \<and>
     it_node it = (case ys of [] \<Rightarrow> None | a # _ \<Rightarrow> Some a)"

lemma iter_rep_New: "sl_rep s xs \<Longrightarrow> iter_rep (Skiplist_NewIterator s) xs []"
  by (simp add: iter_rep_def Skiplist_NewIterator_def)

lemma iter_rep_seek:
  assumes "iter_rep it xs ys"
  shows "\<exists>it'. Iterator_Seek it k = Some it' \<and> iter_rep it' xs (after (it_list it) k xs) \<and> it_list it' = it_list it"
proof -
  have rep: "sl_rep (it_list it) xs" using assms by (simp add: iter_rep_def)
  have "\<exists>zs. xs = zs @ after (it_list it) k xs" by (metis before_after)
  then show ?thesis
    using search_correct [OF rep, of k] rep by (auto simp: Iterator_Seek_def iter_rep_def)
qed

lemma iter_rep_first:
  assumes "iter_rep it xs ys"
  shows "\<exists>it'. Iterator_SeekToFirst it = Some it' \<and> iter_rep it' xs xs \<and> it_list it' = it_list it"
proof -
  have rep: "sl_rep (it_list it) xs" using assms by (simp add: iter_rep_def)
  then have lk: "linked (nx (nodes (it_list it)) 0) (0 # xs)"
    by (rule bottom_linked)
  have "get_next (nodes (it_list it)) 0 0 = Some (nx (nodes (it_list it)) 0 0)"
    using get_next_bottom [OF rep, of 0] by simp
  moreover have "nx (nodes (it_list it)) 0 0 = (case xs of [] \<Rightarrow> None | a # _ \<Rightarrow> Some a)"
    using lk by (cases xs) auto
  ultimately show ?thesis using rep by (auto simp: Iterator_SeekToFirst_def iter_rep_def)
qed

lemma iter_rep_next:
  assumes "iter_rep it xs (a # ys)"
  shows "\<exists>it'. Iterator_Next it = Some it' \<and> iter_rep it' xs ys \<and> it_list it' = it_list it"
proof -
  let ?h = "nodes (it_list it)"
  have rep: "sl_rep (it_list it) xs" and node: "it_node it = Some a" using assms by (auto simp: iter_rep_def)
  obtain zs where xs: "xs = zs @ a # ys" using assms by (auto simp: iter_rep_def)
  then have mem: "a \<in> set (0 # xs)" by simp
  have "linked (nx ?h 0) (0 # xs)" using rep by (rule bottom_linked)
  then have "linked (nx ?h 0) (a # ys)"
    using linked_suffix [of "nx ?h 0" "0 # zs" "a # ys"] xs by simp
  then have "nx ?h 0 a = (case ys of [] \<Rightarrow> None | b # _ \<Rightarrow> Some b)" by (cases ys) auto
  moreover have "get_next ?h a 0 = Some (nx ?h 0 a)"
    by (rule get_next_bottom [OF rep mem])
  moreover have "xs = (zs @ [a]) @ ys" using xs by simp
  then have "\<exists>zs. xs = zs @ ys" by blast
  ultimately show ?thesis using rep node by (simp add: Iterator_Next_def iter_rep_def)
qed

lemma iter_rep_read:
  "iter_rep it xs ys \<Longrightarrow> Iterator_Valid it \<longleftrightarrow> ys \<noteq> []"
  "iter_rep it xs (a # ys) \<Longrightarrow> Iterator_Key it = nkey (nodes (it_list it) ! a)"
  "iter_rep it xs (a # ys) \<Longrightarrow> Iterator_Value it = nvalue (nodes (it_list it) ! a)"
  by (auto simp: iter_rep_def Iterator_Valid_def Iterator_Key_def Iterator_Value_def split: list.splits)

lemma entries_after:
  "sl_entries s (after s k xs) = dropWhile (\<lambda>e. ikey_less (fst e) k) (sl_entries s xs)"
  by (simp add: sl_entries_def after_def dropWhile_map comp_def)

end
