(* ===== verification/Memtable.thy ===== *)
theory Memtable
  imports Skiplist
begin

text \<open>
  Package \<^verbatim>\<open>memtable\<close>, \<^verbatim>\<open>memtable.go\<close>: the skip list with its size estimate.  The read-write mutex is
  not modelled; each method runs under it from start to end.  The theory ends with the
  correctness of the memtable as a sorted map: what a run of insertions leaves in it, what a
  lookup returns and what an iterator visits.
\<close>

section \<open>memtable.go\<close>

record Memtable =
  skiplist :: Skiplist
  msize :: int

definition Memtable_New :: Memtable where
  "Memtable_New = \<lparr>skiplist = NewSkiplist, msize = 0\<rparr>"

definition Memtable_Insert :: "Memtable \<Rightarrow> bytes \<Rightarrow> bytes \<Rightarrow> (nat \<Rightarrow> bool) \<Rightarrow> Memtable option" where
  "Memtable_Insert m key value coins = do {
     let estimatedSize = int (length key) + int (length value) + 16;
     s \<leftarrow> Skiplist_Insert (skiplist m) key value coins;
     Some \<lparr>skiplist = s, msize = msize m + estimatedSize\<rparr>
   }"

definition Memtable_Iterator :: "Memtable \<Rightarrow> Iterator" where
  "Memtable_Iterator m = Skiplist_NewIterator (skiplist m)"

definition Memtable_Get :: "Memtable \<Rightarrow> bytes \<Rightarrow> (bytes \<times> bool) option" where
  "Memtable_Get m key = do {
     it \<leftarrow> Iterator_Seek (Skiplist_NewIterator (skiplist m)) key;
     Some (if Iterator_Valid it \<and> Iterator_Key it = key then (Iterator_Value it, True) else ([], False))
   }"

definition Memtable_Size :: "Memtable \<Rightarrow> nat" where
  "Memtable_Size m = Skiplist_Size (skiplist m)"

definition Memtable_ApproximateSize :: "Memtable \<Rightarrow> int" where
  "Memtable_ApproximateSize m = msize m"

section \<open>The memtable as a sorted map\<close>

definition mem_rep :: "Memtable \<Rightarrow> (bytes \<times> bytes) list \<Rightarrow> bool" where
  "mem_rep m es \<longleftrightarrow> (\<exists>xs. sl_rep (skiplist m) xs \<and> sl_entries (skiplist m) xs = es \<and> sl_sizes (skiplist m) xs)"

abbreviation sorted_entries :: "(bytes \<times> bytes) list \<Rightarrow> bool" where
  "sorted_entries es \<equiv> sorted_wrt ikey_less (map fst es)"

lemma mem_rep_sorted: "mem_rep m es \<Longrightarrow> sorted_entries es"
  by (auto simp: mem_rep_def sl_rep_def map_fst_entries)

lemma mem_rep_New: "mem_rep Memtable_New []"
  using NewSkiplist_rep by (auto simp: mem_rep_def Memtable_New_def)

lemma mem_rep_Insert:
  assumes "mem_rep m es"
  shows "\<exists>m'. Memtable_Insert m k v coins = Some m' \<and> mem_rep m' (upd_entry k v es) \<and>
    msize m' = msize m + int (length k) + int (length v) + 16"
proof -
  obtain xs where xs: "sl_rep (skiplist m) xs" "sl_entries (skiplist m) xs = es" "sl_sizes (skiplist m) xs"
    using assms by (auto simp: mem_rep_def)
  from Skiplist_Insert_correct [OF xs(1), of k v coins] xs(2,3)
  obtain s' xs' where "Skiplist_Insert (skiplist m) k v coins = Some s'" "sl_rep s' xs'"
    "sl_entries s' xs' = upd_entry k v es" "sl_sizes s' xs'" by auto
  then show ?thesis by (auto simp: Memtable_Insert_def mem_rep_def)
qed

lemma sorted_entries_distinct: "sorted_entries es \<Longrightarrow> distinct (map fst es)"
  by (rule ikey.sorted_distinct)

lemma map_of_upd_entry:
  assumes "sorted_entries es" and "wf_ikey k" and "\<And>e. e \<in> set es \<Longrightarrow> wf_ikey (fst e)"
  shows "map_of (upd_entry k v es) = (map_of es)(k \<mapsto> v)"
  using assms
proof (induction k v es rule: upd_entry.induct)
  case (1 k v)
  then show ?case by simp
next
  case (2 k v k' v' es)
  from 2(4) [of "(k', v')"] 2(3) have eq: "Compare k' k = 0 \<longleftrightarrow> k' = k" by (simp add: Compare_eq_0_iff)
  show ?case
  proof (cases "ikey_less k' k")
    case True
    then have "k' \<noteq> k" using ikey.cmp_refl by auto
    with True 2 show ?thesis by (auto simp: fun_eq_iff)
  next
    case False
    with eq show ?thesis by (auto simp: fun_eq_iff)
  qed
qed

lemma map_of_dropWhile_head:
  assumes "sorted_entries es" and "wf_ikey k" and "\<And>e. e \<in> set es \<Longrightarrow> wf_ikey (fst e)"
  shows "map_of es k =
    (case dropWhile (\<lambda>e. ikey_less (fst e) k) es of [] \<Rightarrow> None | e # _ \<Rightarrow> if fst e = k then Some (snd e) else None)"
  using assms
proof (induction es)
  case Nil
  then show ?case by simp
next
  case (Cons e es)
  show ?case
  proof (cases "ikey_less (fst e) k")
    case True
    then have "fst e \<noteq> k" using ikey.cmp_refl by auto
    with True Cons show ?thesis by (cases e) simp
  next
    case False
    have "map_of es k = None" if "fst e \<noteq> k"
    proof -
      have "k \<notin> fst ` set es" using Cons.prems(1) False by auto
      then show ?thesis by (simp add: map_of_eq_None_iff)
    qed
    with False show ?thesis by (cases e) simp
  qed
qed

lemma Memtable_Get_correct:
  assumes "mem_rep m es" and "wf_ikey k" and "\<And>e. e \<in> set es \<Longrightarrow> wf_ikey (fst e)"
  shows "Memtable_Get m k = Some (case map_of es k of Some v \<Rightarrow> (v, True) | None \<Rightarrow> ([], False))"
proof -
  obtain xs where xs: "sl_rep (skiplist m) xs" "sl_entries (skiplist m) xs = es"
    using assms(1) by (auto simp: mem_rep_def)
  let ?s = "skiplist m" and ?ys = "after (skiplist m) k xs"
  from iter_rep_seek [OF iter_rep_New [OF xs(1)], of k]
  obtain it where it: "Iterator_Seek (Skiplist_NewIterator ?s) k = Some it" "iter_rep it xs ?ys" "it_list it = ?s"
    by (auto simp: Skiplist_NewIterator_def)
  have "map_of es k = (case sl_entries ?s ?ys of [] \<Rightarrow> None | e # _ \<Rightarrow> if fst e = k then Some (snd e) else None)"
    unfolding entries_after xs(2) using mem_rep_sorted [OF assms(1)] assms(2,3) by (rule map_of_dropWhile_head)
  then show ?thesis
    using it iter_rep_read by (cases ?ys) (simp_all add: Memtable_Get_def sl_entries_def)
qed

section \<open>Properties\<close>

text \<open>A run of insertions, each with the coin flips it draws.\<close>

fun mem_inserts :: "(bytes \<times> bytes \<times> (nat \<Rightarrow> bool)) list \<Rightarrow> Memtable \<Rightarrow> Memtable option" where
  "mem_inserts [] m = Some m"
| "mem_inserts ((k, v, coins) # ops) m = Option.bind (Memtable_Insert m k v coins) (mem_inserts ops)"

lemma mem_inserts_correct:
  "mem_rep m es \<Longrightarrow> \<exists>m'. mem_inserts ops m = Some m' \<and> mem_rep m' (fold (\<lambda>(k, v, _). upd_entry k v) ops es)"
proof (induction ops arbitrary: m es)
  case Nil
  then show ?case by simp
next
  case (Cons op ops)
  obtain k v coins where op: "op = (k, v, coins)" by (cases op)
  from mem_rep_Insert [OF Cons.prems, of k v coins]
  obtain m1 where "Memtable_Insert m k v coins = Some m1" "mem_rep m1 (upd_entry k v es)" by blast
  with Cons.IH op show ?case by simp
qed

text \<open>C10. Any run of insertions, with any coin flips, succeeds and leaves the skip list well formed on
  every level, holding exactly the entries of the sorted association list the same insertions
  build, in comparator order.\<close>

theorem memtable_refines_sorted_list:
  "\<exists>m xs. mem_inserts ops Memtable_New = Some m \<and> sl_rep (skiplist m) xs \<and>
     sl_entries (skiplist m) xs = fold (\<lambda>(k, v, _). upd_entry k v) ops [] \<and>
     Memtable_Size m = length xs"
  using mem_inserts_correct [OF mem_rep_New, of ops]
  by (auto simp: mem_rep_def sl_sizes_def Memtable_Size_def Skiplist_Size_def)

text \<open>The versions a run of insertions leaves, by key.\<close>

lemma wf_upd_entry:
  "wf_ikey k \<Longrightarrow> \<forall>e\<in>set es. wf_ikey (fst e) \<Longrightarrow> \<forall>e\<in>set (upd_entry k v es). wf_ikey (fst e)"
  by (induction k v es rule: upd_entry.induct) auto

lemma fold_upd_entry_map_of:
  fixes ops :: "(bytes \<times> bytes \<times> (nat \<Rightarrow> bool)) list"
  assumes "\<forall>op\<in>set ops. wf_ikey (fst op)" and "mem_rep m es" and "\<forall>e\<in>set es. wf_ikey (fst e)"
  shows "map_of (fold (\<lambda>(k, v, _). upd_entry k v) ops es) =
      map_of es ++ map_of (rev (map (\<lambda>(k, v, _). (k, v)) ops)) \<and>
    (\<forall>e\<in>set (fold (\<lambda>(k, v, _). upd_entry k v) ops es). wf_ikey (fst e))"
  using assms
proof (induction ops arbitrary: m es)
  case Nil
  then show ?case by simp
next
  case (Cons op ops)
  obtain k v coins where op: "op = (k, v, coins)" by (cases op)
  from mem_rep_Insert [OF Cons.prems(2), of k v coins]
  obtain m1 where m1: "mem_rep m1 (upd_entry k v es)" by blast
  from Cons.prems op have wf: "wf_ikey k" by simp
  note IH = Cons.IH [OF _ m1 wf_upd_entry [OF wf Cons.prems(3)]]
  have "map_of (upd_entry k v es) = (map_of es)(k \<mapsto> v)"
    using map_of_upd_entry [OF mem_rep_sorted [OF Cons.prems(2)] wf] Cons.prems(3) by blast
  with IH Cons.prems(1) op show ?case by (simp add: map_add_def fun_eq_iff split: option.split)
qed

text \<open>C24. After any run of insertions of internal keys, looking a key up returns the value its last
  insertion stored, and reports a miss exactly when no insertion had the key.\<close>

theorem memtable_get_after_inserts:
  assumes "\<forall>op\<in>set ops. wf_ikey (fst op)" and "wf_ikey k"
  shows "Option.bind (mem_inserts ops Memtable_New) (\<lambda>m. Memtable_Get m k) =
    Some (case map_of (rev (map (\<lambda>(k, v, _). (k, v)) ops)) k of Some v \<Rightarrow> (v, True) | None \<Rightarrow> ([], False))"
proof -
  let ?es = "fold (\<lambda>(k, v, _). upd_entry k v) ops []"
  from mem_inserts_correct [OF mem_rep_New, of ops]
  obtain m where m: "mem_inserts ops Memtable_New = Some m" "mem_rep m ?es" by blast
  from fold_upd_entry_map_of [OF assms(1) mem_rep_New]
  have "map_of ?es = map_of (rev (map (\<lambda>(k, v, _). (k, v)) ops))" and "\<forall>e\<in>set ?es. wf_ikey (fst e)"
    by simp_all
  with Memtable_Get_correct [OF m(2) assms(2)] m(1) show ?thesis by simp
qed

theorem memtable_get_after_inserts_witness:
  "Option.bind (mem_inserts
       [(PutUint64 7, [1], \<lambda>_. False), (PutUint64 8, [2], \<lambda>i. i < 3), (PutUint64 7, [3], \<lambda>_. True)] Memtable_New)
     (\<lambda>m. Memtable_Get m (PutUint64 7)) = Some ([3], True)"
  using memtable_get_after_inserts
    [of "[(PutUint64 7, [1], \<lambda>_. False), (PutUint64 8, [2], \<lambda>i. i < 3), (PutUint64 7, [3], \<lambda>_. True)]" "PutUint64 7"]
  by (simp add: wf_ikey_def)

end
