(* ===== verification/Iterators.thy ===== *)
theory Iterators
  imports Memtable
begin

text \<open>
  Package \<^verbatim>\<open>iterators\<close>: the iterator interface (\<^verbatim>\<open>iterator.go\<close>), the memtable iterator, the filter that hides
  versions newer than a read sequence number, and the merge of several iterators.

  An interface value of Go is a state together with a record of the operations on it (\<open>iter_ops\<close>), so a
  composite iterator calls its children through that record as the code calls them through the
  interface.  An operation returns \<open>None\<close> where the code would panic or not return.  What an
  iterator promises its clients is the locale \<open>internal_iterator\<close>: it walks a fixed sequence of entries.
\<close>

section \<open>iterator.go\<close>

record 'it iter_ops =
  op_SeekToFirst :: "'it \<Rightarrow> 'it option"
  op_Next :: "'it \<Rightarrow> 'it option"
  op_Valid :: "'it \<Rightarrow> bool"
  op_Key :: "'it \<Rightarrow> bytes"
  op_Value :: "'it \<Rightarrow> bytes"

type_synonym entries = "(bytes \<times> bytes) list"

text \<open>\<open>R it es rest\<close>: the iterator walks the entries \<open>es\<close>, and \<open>rest\<close> is what it still has to show, the
  current entry first.\<close>

locale internal_iterator =
  fixes ops :: "'it iter_ops"
    and R :: "'it \<Rightarrow> entries \<Rightarrow> entries \<Rightarrow> bool"
  assumes seek: "R it es rest \<Longrightarrow> \<exists>it'. op_SeekToFirst ops it = Some it' \<and> R it' es es"
    and next_ok: "R it es (e # rest) \<Longrightarrow> \<exists>it'. op_Next ops it = Some it' \<and> R it' es rest"
    and valid: "R it es rest \<Longrightarrow> op_Valid ops it \<longleftrightarrow> rest \<noteq> []"
    and key: "R it es (e # rest) \<Longrightarrow> op_Key ops it = fst e"
    and val: "R it es (e # rest) \<Longrightarrow> op_Value ops it = snd e"

section \<open>memtable_iterator.go\<close>

record MemtableIterator =
  mi_iter :: Iterator

definition NewMemtableIterator :: "Memtable \<Rightarrow> MemtableIterator" where
  "NewMemtableIterator mt = \<lparr>mi_iter = Memtable_Iterator mt\<rparr>"

definition mi_SeekToFirst :: "MemtableIterator \<Rightarrow> MemtableIterator option" where
  "mi_SeekToFirst it = map_option (\<lambda>i. it\<lparr>mi_iter := i\<rparr>) (Iterator_SeekToFirst (mi_iter it))"

definition mi_Seek :: "MemtableIterator \<Rightarrow> bytes \<Rightarrow> MemtableIterator option" where
  "mi_Seek it k = map_option (\<lambda>i. it\<lparr>mi_iter := i\<rparr>) (Iterator_Seek (mi_iter it) k)"

definition mi_Next :: "MemtableIterator \<Rightarrow> MemtableIterator option" where
  "mi_Next it = map_option (\<lambda>i. it\<lparr>mi_iter := i\<rparr>) (Iterator_Next (mi_iter it))"

definition mi_Valid :: "MemtableIterator \<Rightarrow> bool" where
  "mi_Valid it = Iterator_Valid (mi_iter it)"

definition mi_Key :: "MemtableIterator \<Rightarrow> bytes" where
  "mi_Key it = Iterator_Key (mi_iter it)"

definition mi_Value :: "MemtableIterator \<Rightarrow> bytes" where
  "mi_Value it = Iterator_Value (mi_iter it)"

definition mi_ops :: "MemtableIterator iter_ops" where
  "mi_ops = \<lparr>op_SeekToFirst = mi_SeekToFirst, op_Next = mi_Next, op_Valid = mi_Valid, op_Key = mi_Key, op_Value = mi_Value\<rparr>"

definition mi_rep :: "MemtableIterator \<Rightarrow> entries \<Rightarrow> entries \<Rightarrow> bool" where
  "mi_rep it es rest \<longleftrightarrow> (\<exists>xs ys. iter_rep (mi_iter it) xs ys \<and>
     es = sl_entries (it_list (mi_iter it)) xs \<and> rest = sl_entries (it_list (mi_iter it)) ys)"

lemma sl_entries_Cons: "sl_entries s ys = e # rest \<longleftrightarrow>
    (\<exists>a zs. ys = a # zs \<and> e = (nkey (nodes s ! a), nvalue (nodes s ! a)) \<and> rest = sl_entries s zs)"
  by (cases ys) (auto simp: sl_entries_def)

interpretation mem_iter: internal_iterator mi_ops mi_rep
proof
  fix it :: MemtableIterator and es rest :: entries
  assume "mi_rep it es rest"
  then obtain xs ys where r: "iter_rep (mi_iter it) xs ys" "es = sl_entries (it_list (mi_iter it)) xs"
    "rest = sl_entries (it_list (mi_iter it)) ys" by (auto simp: mi_rep_def)
  show "\<exists>it'. op_SeekToFirst mi_ops it = Some it' \<and> mi_rep it' es es"
    using iter_rep_first [OF r(1)] r by (force simp: mi_ops_def mi_SeekToFirst_def mi_rep_def)
  show "op_Valid mi_ops it \<longleftrightarrow> rest \<noteq> []"
    using iter_rep_read(1) [OF r(1)] r(3) by (simp add: mi_ops_def mi_Valid_def sl_entries_def)
next
  fix it :: MemtableIterator and es rest :: entries and e
  assume "mi_rep it es (e # rest)"
  then obtain xs a zs where r: "iter_rep (mi_iter it) xs (a # zs)" "es = sl_entries (it_list (mi_iter it)) xs"
    "e = (nkey (nodes (it_list (mi_iter it)) ! a), nvalue (nodes (it_list (mi_iter it)) ! a))"
    "rest = sl_entries (it_list (mi_iter it)) zs" by (auto simp: mi_rep_def sl_entries_Cons eq_commute [of "_ # _"])
  show "\<exists>it'. op_Next mi_ops it = Some it' \<and> mi_rep it' es rest"
    using iter_rep_next [OF r(1)] r by (force simp: mi_ops_def mi_Next_def mi_rep_def)
  show "op_Key mi_ops it = fst e" "op_Value mi_ops it = snd e"
    using iter_rep_read(2,3) [OF r(1)] r(3) by (simp_all add: mi_ops_def mi_Key_def mi_Value_def)
qed

lemma NewMemtableIterator_rep: "mem_rep m es \<Longrightarrow> mi_rep (NewMemtableIterator m) es []"
  by (force simp: mem_rep_def mi_rep_def NewMemtableIterator_def Memtable_Iterator_def iter_rep_New
      Skiplist_NewIterator_def sl_entries_def dest: iter_rep_New)

section \<open>version_filter_iterator.go\<close>

record 'it VersionFilterIterator =
  vf_child :: 'it
  vf_readSeq :: u64
  vf_valid :: bool
  vf_key :: bytes
  vf_value :: bytes

definition NewVersionFilterIterator :: "'it \<Rightarrow> u64 \<Rightarrow> 'it VersionFilterIterator" where
  "NewVersionFilterIterator child readSeq =
     \<lparr>vf_child = child, vf_readSeq = readSeq, vf_valid = False, vf_key = [], vf_value = []\<rparr>"

partial_function (option) vf_scan :: "'it iter_ops \<Rightarrow> 'it VersionFilterIterator \<Rightarrow> 'it VersionFilterIterator option" where
  "vf_scan ops it =
     (if op_Valid ops (vf_child it) then
        let k = op_Key ops (vf_child it)
        in case ExtractTrailer k of
             (seq, _, Some err) \<Rightarrow> Some it
           | (seq, _, None) \<Rightarrow>
               if seq \<le> vf_readSeq it then
                 Option.bind (op_Next ops (vf_child it)) (\<lambda>c.
                   Some (it\<lparr>vf_key := k, vf_value := op_Value ops (vf_child it), vf_valid := True, vf_child := c\<rparr>))
               else Option.bind (op_Next ops (vf_child it)) (\<lambda>c. vf_scan ops (it\<lparr>vf_child := c\<rparr>))
      else Some it)"

definition vf_advance :: "'it iter_ops \<Rightarrow> 'it VersionFilterIterator \<Rightarrow> 'it VersionFilterIterator option" where
  "vf_advance ops it = vf_scan ops (it\<lparr>vf_valid := False\<rparr>)"

definition vf_SeekToFirst :: "'it iter_ops \<Rightarrow> 'it VersionFilterIterator \<Rightarrow> 'it VersionFilterIterator option" where
  "vf_SeekToFirst ops it =
     Option.bind (op_SeekToFirst ops (vf_child it)) (\<lambda>c. vf_advance ops (it\<lparr>vf_child := c\<rparr>))"

definition vf_ops :: "'it iter_ops \<Rightarrow> 'it VersionFilterIterator iter_ops" where
  "vf_ops ops = \<lparr>op_SeekToFirst = vf_SeekToFirst ops, op_Next = vf_advance ops, op_Valid = vf_valid,
     op_Key = vf_key, op_Value = vf_value\<rparr>"

definition visible :: "u64 \<Rightarrow> bytes \<times> bytes \<Rightarrow> bool" where
  "visible readSeq e \<longleftrightarrow> trailer_seq (fst e) \<le> readSeq"

abbreviation wf_entries :: "entries \<Rightarrow> bool" where
  "wf_entries es \<equiv> \<forall>e\<in>set es. wf_ikey (fst e)"

definition vf_rep :: "('it \<Rightarrow> entries \<Rightarrow> entries \<Rightarrow> bool) \<Rightarrow> 'it VersionFilterIterator \<Rightarrow> entries \<Rightarrow> entries \<Rightarrow> bool" where
  "vf_rep R it es rest \<longleftrightarrow> (\<exists>all tail. R (vf_child it) all tail \<and> wf_entries all \<and> wf_entries tail \<and>
     es = filter (visible (vf_readSeq it)) all \<and>
     rest = (if vf_valid it then (vf_key it, vf_value it) # filter (visible (vf_readSeq it)) tail else []))"

lemma ExtractTrailer_wf: "wf_ikey k \<Longrightarrow> \<exists>seq typ. ExtractTrailer k = (seq, typ, None)"
  by (simp add: ExtractTrailer_def wf_ikey_def Let_def)

context internal_iterator
begin

lemma vf_scan_correct:
  assumes "R (vf_child it) all tail" and "wf_entries tail" and "\<not> vf_valid it"
  shows "\<exists>it' tail'. vf_scan ops it = Some it' \<and> R (vf_child it') all tail' \<and> wf_entries tail' \<and>
    vf_readSeq it' = vf_readSeq it \<and>
    filter (visible (vf_readSeq it)) tail =
      (if vf_valid it' then (vf_key it', vf_value it') # filter (visible (vf_readSeq it)) tail' else [])"
  using assms
proof (induction tail arbitrary: it)
  case Nil
  then show ?case using valid by (auto simp: vf_scan.simps)
next
  case (Cons e tail)
  obtain c where c: "op_Next ops (vf_child it) = Some c" "R c all tail" using next_ok [OF Cons.prems(1)] by blast
  have k: "op_Valid ops (vf_child it)" "op_Key ops (vf_child it) = fst e" "op_Value ops (vf_child it) = snd e"
    using valid [OF Cons.prems(1)] key [OF Cons.prems(1)] val [OF Cons.prems(1)] by simp_all
  obtain seq ty where t: "ExtractTrailer (fst e) = (seq, ty, None)"
    using Cons.prems(2) ExtractTrailer_wf [of "fst e"] by auto
  show ?case
  proof (cases "visible (vf_readSeq it) e")
    case True
    then show ?thesis
      using c k t Cons.prems by (subst vf_scan.simps) (auto simp: visible_def Let_def)
  next
    case False
    then have "vf_scan ops it = vf_scan ops (it\<lparr>vf_child := c\<rparr>)"
      using c k t by (subst vf_scan.simps) (auto simp: visible_def Let_def)
    with Cons.IH [of "it\<lparr>vf_child := c\<rparr>"] c(2) Cons.prems False show ?thesis by (simp split del: if_split cong: if_cong)
  qed
qed

lemma vf_iterator: "internal_iterator (vf_ops ops) (vf_rep R)"
proof
  fix it :: "'it VersionFilterIterator" and es rest
  assume "vf_rep R it es rest"
  then obtain all tail where r: "R (vf_child it) all tail" "wf_entries all" "wf_entries tail"
    "es = filter (visible (vf_readSeq it)) all"
    "rest = (if vf_valid it then (vf_key it, vf_value it) # filter (visible (vf_readSeq it)) tail else [])"
    by (auto simp: vf_rep_def)
  obtain c where c: "op_SeekToFirst ops (vf_child it) = Some c" "R c all all" using seek [OF r(1)] by blast
  from vf_scan_correct [of "it\<lparr>vf_child := c, vf_valid := False\<rparr>" all all] c(2) r(2)
  show "\<exists>it'. op_SeekToFirst (vf_ops ops) it = Some it' \<and> vf_rep R it' es es"
    using c(1) r(2,4) by (fastforce simp: vf_ops_def vf_SeekToFirst_def vf_advance_def vf_rep_def)
  show "op_Valid (vf_ops ops) it \<longleftrightarrow> rest \<noteq> []" using r(5) by (simp add: vf_ops_def)
next
  fix it :: "'it VersionFilterIterator" and es e rest
  assume "vf_rep R it es (e # rest)"
  then obtain all tail where r: "R (vf_child it) all tail" "wf_entries all" "wf_entries tail"
    "es = filter (visible (vf_readSeq it)) all" "vf_valid it" "e = (vf_key it, vf_value it)"
    "rest = filter (visible (vf_readSeq it)) tail"
    by (auto simp: vf_rep_def split: if_splits)
  from vf_scan_correct [of "it\<lparr>vf_valid := False\<rparr>" all tail] r
  show "\<exists>it'. op_Next (vf_ops ops) it = Some it' \<and> vf_rep R it' es rest"
    by (fastforce simp: vf_ops_def vf_advance_def vf_rep_def)
  show "op_Key (vf_ops ops) it = fst e" "op_Value (vf_ops ops) it = snd e"
    using r(6) by (simp_all add: vf_ops_def)
qed

lemma vf_New: "R child all [] \<Longrightarrow> wf_entries all \<Longrightarrow>
    vf_rep R (NewVersionFilterIterator child readSeq) (filter (visible readSeq) all) []"
  by (force simp: vf_rep_def NewVersionFilterIterator_def)

end


section \<open>merge_iterator.go\<close>

text \<open>The arrays \<^verbatim>\<open>iters\<close> and \<^verbatim>\<open>valid\<close> have the same length; they are one list of pairs here.\<close>

record 'it MergeIterator =
  mg_iters :: "('it \<times> bool) list"
  mg_currKey :: "bytes option"
  mg_currValue :: bytes
  mg_initialized :: bool
  mg_Deduplicate :: bool

definition NewMergeIterator :: "'it list \<Rightarrow> bool \<Rightarrow> 'it MergeIterator" where
  "NewMergeIterator children deduplicate =
     \<lparr>mg_iters = map (\<lambda>c. (c, False)) children, mg_currKey = None, mg_currValue = [], mg_initialized = False,
      mg_Deduplicate = deduplicate\<rparr>"

fun map_opt :: "('a \<Rightarrow> 'b option) \<Rightarrow> 'a list \<Rightarrow> 'b list option" where
  "map_opt f [] = Some []"
| "map_opt f (x # xs) = Option.bind (f x) (\<lambda>y. Option.bind (map_opt f xs) (\<lambda>ys. Some (y # ys)))"

definition find_best :: "'it iter_ops \<Rightarrow> ('it \<times> bool) list \<Rightarrow> nat option" where
  "find_best ops cs =
     fold (\<lambda>i best.
       if \<not> snd (cs ! i) then best
       else case best of
              None \<Rightarrow> Some i
            | Some b \<Rightarrow>
                if Compare (op_Key ops (fst (cs ! i))) (op_Key ops (fst (cs ! b))) < 0 then Some i else Some b)
       [0..<length cs] None"

definition skip_equal :: "'it iter_ops \<Rightarrow> bytes \<Rightarrow> 'it \<times> bool \<Rightarrow> ('it \<times> bool) option" where
  "skip_equal ops k c =
     (if snd c \<and> op_Key ops (fst c) = k
      then Option.bind (op_Next ops (fst c)) (\<lambda>it. Some (it, op_Valid ops it))
      else Some c)"

partial_function (option) skip_user :: "'it iter_ops \<Rightarrow> bytes \<Rightarrow> 'it \<times> bool \<Rightarrow> ('it \<times> bool) option" where
  "skip_user ops u c =
     (if snd c \<and> ExtractUserKey (op_Key ops (fst c)) = u
      then Option.bind (op_Next ops (fst c)) (\<lambda>it. skip_user ops u (it, op_Valid ops it))
      else Some c)"

definition mg_advance :: "'it iter_ops \<Rightarrow> 'it MergeIterator \<Rightarrow> 'it MergeIterator option" where
  "mg_advance ops m =
     (case find_best ops (mg_iters m) of
        None \<Rightarrow> Some (m\<lparr>mg_currKey := None, mg_currValue := []\<rparr>)
      | Some b \<Rightarrow>
          let k = op_Key ops (fst (mg_iters m ! b)); v = op_Value ops (fst (mg_iters m ! b))
          in Option.bind (map_opt (skip_equal ops k) (mg_iters m)) (\<lambda>cs.
               Option.bind (if mg_Deduplicate m then map_opt (skip_user ops (ExtractUserKey k)) cs else Some cs) (\<lambda>cs'.
                 Some (m\<lparr>mg_iters := cs', mg_currKey := Some k, mg_currValue := v\<rparr>))))"

definition seek_child :: "'it iter_ops \<Rightarrow> 'it \<times> bool \<Rightarrow> ('it \<times> bool) option" where
  "seek_child ops c = Option.bind (op_SeekToFirst ops (fst c)) (\<lambda>it. Some (it, op_Valid ops it))"

definition mg_SeekToFirst :: "'it iter_ops \<Rightarrow> 'it MergeIterator \<Rightarrow> 'it MergeIterator option" where
  "mg_SeekToFirst ops m =
     Option.bind (map_opt (seek_child ops) (mg_iters m)) (\<lambda>cs.
       mg_advance ops (m\<lparr>mg_iters := cs, mg_initialized := True\<rparr>))"

definition mg_Next :: "'it iter_ops \<Rightarrow> 'it MergeIterator \<Rightarrow> 'it MergeIterator option" where
  "mg_Next ops m = (if \<not> mg_initialized m then Some m else mg_advance ops m)"

definition mg_Valid :: "'it MergeIterator \<Rightarrow> bool" where
  "mg_Valid m \<longleftrightarrow> mg_currKey m \<noteq> None"

definition mg_Key :: "'it MergeIterator \<Rightarrow> bytes" where
  "mg_Key m = (case mg_currKey m of Some k \<Rightarrow> k | None \<Rightarrow> [])"

definition mg_ops :: "'it iter_ops \<Rightarrow> 'it MergeIterator iter_ops" where
  "mg_ops ops = \<lparr>op_SeekToFirst = mg_SeekToFirst ops, op_Next = mg_Next ops, op_Valid = mg_Valid,
     op_Key = mg_Key, op_Value = mg_currValue\<rparr>"

section \<open>What a merge shows\<close>

text \<open>The entries of all children in key order, an earlier child winning over a later one; with
  deduplication, the first (newest) entry of each user key.\<close>

definition merge_entries :: "entries list \<Rightarrow> entries" where
  "merge_entries rss = foldr (\<lambda>(k, v). upd_entry k v) (concat rss) []"

function newest :: "entries \<Rightarrow> entries" where
  "newest [] = []"
| "newest (e # es) = e # newest (filter (\<lambda>x. ExtractUserKey (fst x) \<noteq> ExtractUserKey (fst e)) es)"
  by pat_completeness auto
termination by (relation "measure length") (auto simp: le_imp_less_Suc)

definition shown :: "bool \<Rightarrow> entries \<Rightarrow> entries" where
  "shown dedup es = (if dedup then newest es else es)"

lemma keys_upd_entry: "fst ` set (upd_entry k v es) \<subseteq> insert k (fst ` set es)"
  by (induction k v es rule: upd_entry.induct) auto

lemma sorted_upd_entry: "sorted_entries es \<Longrightarrow> sorted_entries (upd_entry k v es)"
proof (induction k v es rule: upd_entry.induct)
  case (1 k v)
  then show ?case by simp
next
  case (2 k v k' v' es)
  consider "Compare k' k < 0" | "Compare k' k = 0" | "Compare k k' < 0"
    using ikey.cmp_swap_less [of k k'] by linarith
  then show ?case
  proof cases
    case 1
    have "ikey_less k' x" if "x \<in> fst ` set (upd_entry k v es)" for x
    proof -
      have "x = k \<or> x \<in> fst ` set es" using that keys_upd_entry [of k v es] by blast
      then show ?thesis using 1 "2.prems" by auto
    qed
    then show ?thesis using 1 2 by auto
  next
    case 2: 2
    then show ?thesis using "2.prems" by simp
  next
    case 3
    then have "\<not> Compare k' k < 0" "Compare k' k \<noteq> 0" using ikey.cmp_swap_less [of k k'] by auto
    moreover have "ikey_less k x" if "ikey_less k' x" for x using 3 that by (rule ikey.cmp_trans)
    ultimately show ?thesis using 2 3 by auto
  qed
qed

lemma merge_entries_facts:
  assumes "\<forall>es\<in>set rss. wf_entries es"
  shows "sorted_entries (merge_entries rss)" and "wf_entries (merge_entries rss)"
    and "map_of (merge_entries rss) = map_of (concat rss)"
proof -
  have *: "wf_entries es \<Longrightarrow> sorted_entries (foldr (\<lambda>(k, v). upd_entry k v) es []) \<and>
      wf_entries (foldr (\<lambda>(k, v). upd_entry k v) es []) \<and> map_of (foldr (\<lambda>(k, v). upd_entry k v) es []) = map_of es" for es
  proof (induction es)
    case (Cons e es)
    then show ?case
      using map_of_upd_entry [of "foldr (\<lambda>(k, v). upd_entry k v) es []" "fst e" "snd e"]
        wf_upd_entry [of "fst e" "foldr (\<lambda>(k, v). upd_entry k v) es []" "snd e"]
      by (cases e) (simp add: sorted_upd_entry)
  qed simp
  show "sorted_entries (merge_entries rss)" "wf_entries (merge_entries rss)" "map_of (merge_entries rss) = map_of (concat rss)"
    using * [of "concat rss"] assms by (auto simp: merge_entries_def)
qed

lemma sorted_entries_unique:
  "sorted_entries as \<Longrightarrow> sorted_entries bs \<Longrightarrow> map_of as = map_of bs \<Longrightarrow> as = bs"
proof (induction as arbitrary: bs)
  case Nil
  then show ?case by (cases bs) (auto simp: fun_eq_iff split: if_splits)
next
  case (Cons a as)
  obtain k v where a: "a = (k, v)" by (cases a)
  have "map_of bs k = Some v" using Cons.prems(3) [symmetric] a by simp
  then obtain b bs' where bs: "bs = b # bs'" by (cases bs) auto
  obtain k' v' where b: "b = (k', v')" by (cases b)
  have "map_of (a # as) k' = Some v'" using fun_cong [OF Cons.prems(3), of k'] bs b by simp
  then have "k' = k"
    using \<open>map_of bs k = Some v\<close> Cons.prems(1,2) bs b a
    by (auto split: if_splits dest!: map_of_SomeD) (metis fst_conv ikey.cmp_swap_less not_less_iff_gr_or_eq)
  have "map_of as = map_of bs'"
  proof
    fix x
    have "k \<notin> fst ` set as" "k \<notin> fst ` set bs'"
      using Cons.prems(1,2) bs b a \<open>k' = k\<close> ikey.cmp_refl by auto
    then show "map_of as x = map_of bs' x"
      using fun_cong [OF Cons.prems(3), of x] bs b a \<open>k' = k\<close>
      by (cases "x = k") (simp_all add: map_of_eq_None_iff [THEN iffD2])
  qed
  moreover have "v = v'" using Cons.prems(3) bs b a \<open>k' = k\<close> by (auto simp: fun_eq_iff split: if_splits)
  ultimately show ?case using Cons bs b a \<open>k' = k\<close> by simp
qed


text \<open>One step of the merge on the remaining entries of the children: the smallest head is shown and
  removed from every child that has it.\<close>

definition skip_head :: "bytes \<Rightarrow> entries \<Rightarrow> entries" where
  "skip_head k es = (case es of [] \<Rightarrow> [] | e # t \<Rightarrow> if fst e = k then t else es)"

definition least_head :: "bytes \<Rightarrow> entries list \<Rightarrow> bool" where
  "least_head k rss \<longleftrightarrow> (\<forall>es\<in>set rss. es \<noteq> [] \<longrightarrow> \<not> ikey_less (fst (hd es)) k)"

lemma map_of_skip_head: "x \<noteq> k \<Longrightarrow> map_of (concat (map (skip_head k) rss)) x = map_of (concat rss) x"
proof (induction rss)
  case (Cons es rss)
  have "map_of (skip_head k es) x = map_of es x" using Cons.prems by (auto simp: skip_head_def split: list.split)
  with Cons show ?case by (simp add: map_add_def split: option.split)
qed simp

lemma skip_head_greater:
  assumes "sorted_entries es" and "wf_entries es" and "wf_ikey k" and "es \<noteq> [] \<longrightarrow> \<not> ikey_less (fst (hd es)) k"
    and "x \<in> set (skip_head k es)"
  shows "ikey_less k (fst x)"
proof (cases es)
  case Nil
  then show ?thesis using assms(5) by (simp add: skip_head_def)
next
  case (Cons e t)
  show ?thesis
  proof (cases "fst e = k")
    case True
    then show ?thesis using assms(1,5) Cons by (simp add: skip_head_def)
  next
    case False
    then have "Compare (fst e) k \<noteq> 0" using assms(2,3) Cons by (simp add: Compare_eq_0_iff)
    then have less: "ikey_less k (fst e)" using assms(4) Cons ikey.cmp_swap_less [of k "fst e"] by auto
    have "x = e \<or> ikey_less (fst e) (fst x)" using assms(1,5) Cons False by (auto simp: skip_head_def)
    with less show ?thesis using ikey.cmp_trans by blast
  qed
qed

lemma no_key_before:
  assumes "\<forall>es\<in>set rss. sorted_entries es \<and> wf_entries es" and "wf_ikey k" and "least_head k rss"
    and "\<forall>es\<in>set rss. es \<noteq> [] \<longrightarrow> fst (hd es) \<noteq> k"
  shows "map_of (concat rss) k = None"
proof -
  have "k \<noteq> fst x" if "es \<in> set rss" "x \<in> set es" for es x
  proof -
    have "skip_head k es = es" using assms(4) that by (auto simp: skip_head_def split: list.split)
    then have "ikey_less k (fst x)"
      using skip_head_greater [of es k x] assms(1-3) that by (auto simp: least_head_def)
    then show ?thesis using ikey.cmp_refl by auto
  qed
  then show ?thesis by (auto simp: map_of_eq_None_iff)
qed

lemma wf_skip_head: "wf_entries es \<Longrightarrow> wf_entries (skip_head k es)"
  by (cases es) (simp_all add: skip_head_def)

lemma sorted_skip_head: "sorted_entries es \<Longrightarrow> sorted_entries (skip_head k es)"
  by (cases es) (simp_all add: skip_head_def)

lemma merge_step:
  assumes all: "\<forall>es\<in>set rss. sorted_entries es \<and> wf_entries es"
    and b: "b < length rss" "rss ! b = (k, v) # t" and least: "least_head k rss"
    and first: "\<forall>i<b. rss ! i \<noteq> [] \<longrightarrow> fst (hd (rss ! i)) \<noteq> k"
  shows "merge_entries rss = (k, v) # merge_entries (map (skip_head k) rss)"
proof -
  let ?rss = "map (skip_head k) rss"
  have mem: "(k, v) # t \<in> set rss" using b nth_mem by metis
  then have k: "wf_ikey k" using all by fastforce
  have wf: "\<forall>es\<in>set rss. wf_entries es" "\<forall>es\<in>set ?rss. wf_entries es"
    using all wf_skip_head by (simp, simp only: set_map ball_simps) blast
  note m = merge_entries_facts [OF wf(1)] and m' = merge_entries_facts [OF wf(2)]
  have greater: "ikey_less k x" if "x \<in> fst ` set (merge_entries ?rss)" for x
  proof -
    from that have "map_of (merge_entries ?rss) x \<noteq> None" by (simp add: map_of_eq_None_iff)
    then obtain w where "map_of (concat ?rss) x = Some w" unfolding m'(3) by blast
    then have "(x, w) \<in> set (concat ?rss)" by (rule map_of_SomeD)
    then obtain y es where "y \<in> set (skip_head k es)" "es \<in> set rss" "x = fst y" by auto
    then show ?thesis using skip_head_greater [of es k y] all k least by (auto simp: least_head_def)
  qed
  have rss: "rss = take b rss @ ((k, v) # t) # drop (Suc b) rss" using b by (metis id_take_nth_drop)
  have sub: "set (take b rss) \<subseteq> set rss" by (rule set_take_subset)
  have "map_of (concat (take b rss)) k = None"
  proof (rule no_key_before)
    show "\<forall>es\<in>set (take b rss). sorted_entries es \<and> wf_entries es" using all sub by blast
    show "least_head k (take b rss)" using least sub unfolding least_head_def by blast
    show "\<forall>es\<in>set (take b rss). es \<noteq> [] \<longrightarrow> fst (hd es) \<noteq> k"
      using first b(1) by (fastforce simp: in_set_conv_nth)
  qed (rule k)
  then have "map_of (concat rss) k = Some v" by (subst rss) (simp add: map_add_def)
  then have "map_of (merge_entries rss) = map_of ((k, v) # merge_entries ?rss)"
    using map_of_skip_head [of _ k rss] by (auto simp: m(3) m'(3) fun_eq_iff)
  moreover have "sorted_entries ((k, v) # merge_entries ?rss)" using greater m'(1) by auto
  ultimately show ?thesis using m(1) by (intro sorted_entries_unique)
qed

lemma map_of_filter_keys: "map_of (filter (\<lambda>e. Q (fst e)) es) x = (if Q x then map_of es x else None)"
  by (induction es) auto

lemma merge_filter:
  assumes "\<forall>es\<in>set rss. wf_entries es"
  shows "merge_entries (map (filter (\<lambda>e. Q (fst e))) rss) = filter (\<lambda>e. Q (fst e)) (merge_entries rss)"
proof -
  let ?f = "filter (\<lambda>e. Q (fst e))"
  have wf: "\<forall>es\<in>set (map ?f rss). wf_entries es" using assms by auto
  note m = merge_entries_facts [OF assms] and m' = merge_entries_facts [OF wf]
  have "map_of (merge_entries (map ?f rss)) = map_of (?f (merge_entries rss))"
    by (simp add: m(3) m'(3) map_of_filter_keys fun_eq_iff flip: filter_concat)
  moreover have "sorted_entries (?f (merge_entries rss))"
    using m(1) by (simp add: sorted_wrt_map sorted_wrt_filter)
  ultimately show ?thesis using m'(1) by (intro sorted_entries_unique)
qed

lemma user_le: "ikey_less a b \<Longrightarrow> ExtractUserKey a \<le> ExtractUserKey b"
  by (auto simp: ikey.cmp_less vkey_of_def less_vkey_def)

lemma dropWhile_user:
  assumes "sorted_entries es" and "\<forall>x\<in>set es. u \<le> ExtractUserKey (fst x)"
  shows "dropWhile (\<lambda>x. ExtractUserKey (fst x) = u) es = filter (\<lambda>x. ExtractUserKey (fst x) \<noteq> u) es"
  using assms
proof (induction es)
  case (Cons e es)
  show ?case
  proof (cases "ExtractUserKey (fst e) = u")
    case False
    then have "u < ExtractUserKey (fst e)" using Cons.prems(2) by (simp add: order_le_neq_trans)
    then have "ExtractUserKey (fst x) \<noteq> u" if "x \<in> set es" for x
      using that Cons.prems(1) user_le [of "fst e" "fst x"] by auto
    then have "filter (\<lambda>x. ExtractUserKey (fst x) \<noteq> u) es = es" by (simp add: filter_id_conv)
    with False show ?thesis by simp
  qed (use Cons in simp)
qed simp


text \<open>The scan for the smallest head.\<close>

lemma find_best_step:
  fixes cs :: "('it \<times> bool) list" and j :: nat and ops :: "'it iter_ops"
  defines "best \<equiv> fold (\<lambda>i best.
       if \<not> snd (cs ! i) then best
       else case best of
              None \<Rightarrow> Some i
            | Some b \<Rightarrow>
                if Compare (op_Key ops (fst (cs ! i))) (op_Key ops (fst (cs ! b))) < 0 then Some i else Some b)
       [0..<j] None"
  shows "case best of None \<Rightarrow> \<forall>i<j. \<not> snd (cs ! i)
    | Some b \<Rightarrow> b < j \<and> snd (cs ! b) \<and>
        (\<forall>i<j. snd (cs ! i) \<longrightarrow> \<not> ikey_less (op_Key ops (fst (cs ! i))) (op_Key ops (fst (cs ! b)))) \<and>
        (\<forall>i<b. snd (cs ! i) \<longrightarrow> op_Key ops (fst (cs ! i)) \<noteq> op_Key ops (fst (cs ! b)))"
  unfolding best_def
proof (induction j)
  case 0
  then show ?case by simp
next
  case (Suc j)
  let ?key = "\<lambda>i. op_Key ops (fst (cs ! i))"
  let ?f = "\<lambda>i best.
       if \<not> snd (cs ! i) then best
       else case best of None \<Rightarrow> Some i | Some b \<Rightarrow> if Compare (?key i) (?key b) < 0 then Some i else Some b"
  have trans: "ikey_less a c" if "ikey_less a b" "\<not> ikey_less c b" for a b c
    using that by (simp add: ikey.cmp_less not_less)
  show ?case
  proof (cases "fold ?f [0..<j] None")
    case None
    with Suc have no: "\<forall>i<j. \<not> snd (cs ! i)" by simp
    then show ?thesis using None ikey.cmp_refl by (auto simp: less_Suc_eq)
  next
    case (Some b)
    with Suc have b: "b < j" "snd (cs ! b)" "\<forall>i<j. snd (cs ! i) \<longrightarrow> \<not> ikey_less (?key i) (?key b)"
      "\<forall>i<b. snd (cs ! i) \<longrightarrow> ?key i \<noteq> ?key b" by simp_all
    show ?thesis
    proof (cases "snd (cs ! j) \<and> ikey_less (?key j) (?key b)")
      case True
      have "\<not> ikey_less (?key i) (?key j)" if "i < Suc j" "snd (cs ! i)" for i
        using that b(3) True trans ikey.cmp_refl ikey.cmp_trans by (metis less_Suc_eq order_less_irrefl)
      moreover have "?key i \<noteq> ?key j" if "i < j" "snd (cs ! i)" for i
        using that b(3) True by auto
      ultimately show ?thesis using Some True by simp
    next
      case False
      then have "fold ?f [0..<Suc j] None = Some b" using Some by auto
      then show ?thesis using b False by (auto simp: less_Suc_eq)
    qed
  qed
qed


lemma find_best_None: "find_best ops cs = None \<Longrightarrow> i < length cs \<Longrightarrow> \<not> snd (cs ! i)"
  using find_best_step [where cs = cs and ops = ops and j = "length cs"] by (simp add: find_best_def)

lemma find_best_Some:
  assumes "find_best ops cs = Some b"
  shows "b < length cs" and "snd (cs ! b)"
    and "\<forall>i<length cs. snd (cs ! i) \<longrightarrow> \<not> ikey_less (op_Key ops (fst (cs ! i))) (op_Key ops (fst (cs ! b)))"
    and "\<forall>i<b. snd (cs ! i) \<longrightarrow> op_Key ops (fst (cs ! i)) \<noteq> op_Key ops (fst (cs ! b))"
  using find_best_step [where cs = cs and ops = ops and j = "length cs"] assms unfolding find_best_def by simp_all

lemma map_opt_rel:
  assumes "list_all2 P cs ps" and "\<And>c p. P c p \<Longrightarrow> \<exists>c'. f c = Some c' \<and> Q c' (g p)"
  shows "\<exists>cs'. map_opt f cs = Some cs' \<and> list_all2 Q cs' (map g ps)"
  using assms(1)
proof (induction cs ps rule: list_all2_induct)
  case (Cons c cs p ps)
  then show ?case using assms(2) [of c p] by auto
qed simp

section \<open>The merge keeps the contract\<close>

definition child_rep :: "('it \<Rightarrow> entries \<Rightarrow> entries \<Rightarrow> bool) \<Rightarrow> 'it \<times> bool \<Rightarrow> entries \<times> entries \<Rightarrow> bool" where
  "child_rep R c p \<longleftrightarrow> R (fst c) (fst p) (snd p) \<and> (snd c \<longleftrightarrow> snd p \<noteq> []) \<and>
     sorted_entries (fst p) \<and> wf_entries (fst p) \<and> sorted_entries (snd p) \<and> wf_entries (snd p)"

definition mg_rep :: "('it \<Rightarrow> entries \<Rightarrow> entries \<Rightarrow> bool) \<Rightarrow> 'it MergeIterator \<Rightarrow> entries \<Rightarrow> entries \<Rightarrow> bool" where
  "mg_rep R m es rest \<longleftrightarrow> (\<exists>ps. list_all2 (child_rep R) (mg_iters m) ps \<and>
     es = shown (mg_Deduplicate m) (merge_entries (map fst ps)) \<and>
     rest = (case mg_currKey m of
         None \<Rightarrow> []
       | Some k \<Rightarrow> (k, mg_currValue m) # shown (mg_Deduplicate m) (merge_entries (map snd ps))) \<and>
     (mg_currKey m \<noteq> None \<longrightarrow> mg_initialized m))"

lemma child_rep_all:
  "list_all2 (child_rep R) cs ps \<Longrightarrow> \<forall>es\<in>set (map snd ps). sorted_entries es \<and> wf_entries es"
  by (induction cs ps rule: list_all2_induct) (simp_all add: child_rep_def)

lemma dropWhile_user_children:
  assumes "\<forall>es\<in>set rss. sorted_entries es \<and> wf_entries es" and "wf_ikey k" and "least_head k rss"
  shows "map (dropWhile (\<lambda>x. ExtractUserKey (fst x) = ExtractUserKey k)) (map (skip_head k) rss) =
    map (filter (\<lambda>x. ExtractUserKey (fst x) \<noteq> ExtractUserKey k)) (map (skip_head k) rss)"
proof (rule map_cong [OF refl])
  fix es assume "es \<in> set (map (skip_head k) rss)"
  then obtain es0 where es: "es = skip_head k es0" "es0 \<in> set rss" by auto
  with assms have "ikey_less k (fst x)" if "x \<in> set es" for x
    using skip_head_greater [of es0 k x] that by (simp add: least_head_def)
  then have "\<forall>x\<in>set es. ExtractUserKey k \<le> ExtractUserKey (fst x)" using user_le by blast
  moreover have "sorted_entries es" using es assms(1) sorted_skip_head by blast
  ultimately show "dropWhile (\<lambda>x. ExtractUserKey (fst x) = ExtractUserKey k) es =
      filter (\<lambda>x. ExtractUserKey (fst x) \<noteq> ExtractUserKey k) es"
    by (intro dropWhile_user)
qed

lemma shown_step:
  assumes "\<forall>es\<in>set rss. sorted_entries es \<and> wf_entries es" and "wf_ikey k" and "least_head k rss"
    and "merge_entries rss = (k, v) # merge_entries (map (skip_head k) rss)"
  shows "shown dd (merge_entries rss) = (k, v) # shown dd (merge_entries
    (map (if dd then dropWhile (\<lambda>x. ExtractUserKey (fst x) = ExtractUserKey k) else (\<lambda>es. es)) (map (skip_head k) rss)))"
proof (cases dd)
  case True
  have "\<forall>es\<in>set (map (skip_head k) rss). wf_entries es"
    using assms(1) wf_skip_head by (simp only: set_map ball_simps) blast
  from merge_filter [OF this, of "\<lambda>x. ExtractUserKey x \<noteq> ExtractUserKey k"] True
    dropWhile_user_children [OF assms(1-3)]
  show ?thesis unfolding assms(4) by (simp only: shown_def if_True newest.simps fst_conv)
qed (simp add: shown_def assms(4))

context internal_iterator
begin

lemma skip_equal_rep:
  assumes "child_rep R c p"
  shows "\<exists>c'. skip_equal ops k c = Some c' \<and> child_rep R c' (fst p, skip_head k (snd p))"
proof (cases "snd p")
  case Nil
  then show ?thesis using assms by (auto simp: skip_equal_def child_rep_def skip_head_def)
next
  case (Cons e t)
  with assms have r: "R (fst c) (fst p) (e # t)" "snd c" by (simp_all add: child_rep_def)
  obtain it where it: "op_Next ops (fst c) = Some it" "R it (fst p) t" using next_ok [OF r(1)] by blast
  show ?thesis
    using assms Cons r it valid [OF it(2)] key [OF r(1)]
    by (cases c) (auto simp: skip_equal_def child_rep_def skip_head_def)
qed

lemma skip_user_rep:
  assumes "child_rep R c p"
  shows "\<exists>c'. skip_user ops u c = Some c' \<and> child_rep R c' (fst p, dropWhile (\<lambda>x. ExtractUserKey (fst x) = u) (snd p))"
  using assms
proof (induction "snd p" arbitrary: c p)
  case Nil
  then have "skip_user ops u c = Some c" by (subst skip_user.simps) (simp add: child_rep_def)
  with Nil show ?case by (simp add: child_rep_def flip: Nil(1))
next
  case (Cons e t)
  from Cons have r: "R (fst c) (fst p) (e # t)" "snd c" by (auto simp: child_rep_def)
  obtain it where it: "op_Next ops (fst c) = Some it" "R it (fst p) t" using next_ok [OF r(1)] by blast
  have c': "child_rep R (it, op_Valid ops it) (fst p, t)"
    using Cons it valid [OF it(2)] by (auto simp: child_rep_def simp flip: Cons(2))
  show ?case
  proof (cases "ExtractUserKey (fst e) = u")
    case True
    then have "skip_user ops u c = skip_user ops u (it, op_Valid ops it)"
      using it r key [OF r(1)] by (subst skip_user.simps) simp
    with Cons(1) [OF _ c'] True show ?thesis by (simp flip: Cons(2))
  next
    case False
    then have "skip_user ops u c = Some c" using key [OF r(1)] by (subst skip_user.simps) simp
    with Cons.prems False show ?thesis by (simp add: child_rep_def flip: Cons(2))
  qed
qed

lemma seek_child_rep: "child_rep R c p \<Longrightarrow> \<exists>c'. seek_child ops c = Some c' \<and> child_rep R c' (fst p, fst p)"
  using seek [of "fst c" "fst p" "snd p"] valid by (fastforce simp: seek_child_def child_rep_def)

lemma child_head:
  assumes "list_all2 (child_rep R) cs ps" and "i < length cs"
  shows "snd (cs ! i) \<longleftrightarrow> snd (ps ! i) \<noteq> []"
    and "snd (ps ! i) = e # t \<Longrightarrow> op_Key ops (fst (cs ! i)) = fst e \<and> op_Value ops (fst (cs ! i)) = snd e"
proof -
  have c: "child_rep R (cs ! i) (ps ! i)" using assms by (simp add: list_all2_nthD)
  then show "snd (cs ! i) \<longleftrightarrow> snd (ps ! i) \<noteq> []" by (simp add: child_rep_def)
  show "op_Key ops (fst (cs ! i)) = fst e \<and> op_Value ops (fst (cs ! i)) = snd e" if "snd (ps ! i) = e # t"
  proof -
    have "R (fst (cs ! i)) (fst (ps ! i)) (e # t)" using c that by (simp add: child_rep_def)
    from key [OF this] val [OF this] show ?thesis by simp
  qed
qed

lemma best_is_least:
  assumes cs: "list_all2 (child_rep R) cs ps" and best: "find_best ops cs = Some b"
  obtains k v t where "snd (ps ! b) = (k, v) # t" and "b < length ps"
    and "op_Key ops (fst (cs ! b)) = k" and "op_Value ops (fst (cs ! b)) = v"
    and "least_head k (map snd ps)" and "\<forall>i<b. map snd ps ! i \<noteq> [] \<longrightarrow> fst (hd (map snd ps ! i)) \<noteq> k"
proof -
  note b = find_best_Some [OF best]
  have len: "length cs = length ps" using cs by (rule list_all2_lengthD)
  obtain e t where e: "snd (ps ! b) = e # t" using child_head(1) [OF cs b(1)] b(2) by (cases "snd (ps ! b)") auto
  have k: "op_Key ops (fst (cs ! b)) = fst e" "op_Value ops (fst (cs ! b)) = snd e"
    using child_head(2) [OF cs b(1) e] by simp_all
  have heads: "op_Key ops (fst (cs ! i)) = fst (hd (snd (ps ! i)))" "snd (cs ! i)"
    if "i < length ps" "snd (ps ! i) \<noteq> []" for i
    using that child_head [OF cs, of i] len by (cases "snd (ps ! i)"; simp)+
  have "least_head (fst e) (map snd ps)"
    unfolding least_head_def
  proof (intro ballI impI)
    fix es assume "es \<in> set (map snd ps)" "es \<noteq> []"
    then obtain i where "i < length ps" "es = snd (ps ! i)" by (auto simp: in_set_conv_nth)
    with heads [of i] \<open>es \<noteq> []\<close> b(3) k(1) len show "\<not> ikey_less (fst (hd es)) (fst e)" by auto
  qed
  moreover have "\<forall>i<b. map snd ps ! i \<noteq> [] \<longrightarrow> fst (hd (map snd ps ! i)) \<noteq> fst e"
    using b(1,4) k(1) heads len by auto
  ultimately show thesis using e k b(1) len by (intro that [of "fst e" "snd e" t]) auto
qed

lemma mg_advance_rep:
  assumes cs: "list_all2 (child_rep R) (mg_iters m) ps"
  shows "\<exists>m' ps'. mg_advance ops m = Some m' \<and> list_all2 (child_rep R) (mg_iters m') ps' \<and> map fst ps' = map fst ps \<and>
    mg_Deduplicate m' = mg_Deduplicate m \<and> mg_initialized m' = mg_initialized m \<and>
    shown (mg_Deduplicate m) (merge_entries (map snd ps)) =
      (case mg_currKey m' of
         None \<Rightarrow> []
       | Some k \<Rightarrow> (k, mg_currValue m') # shown (mg_Deduplicate m) (merge_entries (map snd ps')))"
proof (cases "find_best ops (mg_iters m)")
  case None
  have "snd p = []" if "p \<in> set ps" for p
    using that find_best_None [OF None] child_head(1) [OF cs] list_all2_lengthD [OF cs]
    by (auto simp: in_set_conv_nth)
  then have "concat (map snd ps) = []" by simp
  then have "shown (mg_Deduplicate m) (merge_entries (map snd ps)) = []"
    by (simp only: merge_entries_def) (simp add: shown_def)
  then show ?thesis using None cs by (auto simp: mg_advance_def)
next
  case (Some b)
  let ?dd = "mg_Deduplicate m"
  obtain k v t where e: "snd (ps ! b) = (k, v) # t" "b < length ps"
    and kv: "op_Key ops (fst (mg_iters m ! b)) = k" "op_Value ops (fst (mg_iters m ! b)) = v"
    and least: "least_head k (map snd ps)" "\<forall>i<b. map snd ps ! i \<noteq> [] \<longrightarrow> fst (hd (map snd ps ! i)) \<noteq> k"
    using best_is_least [OF cs Some] by metis
  let ?u = "ExtractUserKey k"
  note all = child_rep_all [OF cs]
  have "(k, v) # t \<in> set (map snd ps)" using e by (metis in_set_conv_nth length_map nth_map)
  then have wf: "wf_ikey k" using all by fastforce
  have step: "merge_entries (map snd ps) = (k, v) # merge_entries (map (skip_head k) (map snd ps))"
    using all e least by (intro merge_step [of _ b k v t]) auto
  obtain cs1 where cs1: "map_opt (skip_equal ops k) (mg_iters m) = Some cs1"
    "list_all2 (child_rep R) cs1 (map (\<lambda>p. (fst p, skip_head k (snd p))) ps)"
    using map_opt_rel [where f = "skip_equal ops k" and Q = "child_rep R" and g = "\<lambda>p. (fst p, skip_head k (snd p))", OF cs skip_equal_rep] by blast
  let ?d = "if ?dd then dropWhile (\<lambda>x. ExtractUserKey (fst x) = ?u) else (\<lambda>es. es)"
  let ?ps' = "map (\<lambda>p. (fst p, ?d (skip_head k (snd p)))) ps"
  obtain cs2 where cs2: "(if ?dd then map_opt (skip_user ops ?u) cs1 else Some cs1) = Some cs2"
    "list_all2 (child_rep R) cs2 ?ps'"
    using map_opt_rel [where f = "skip_user ops ?u" and Q = "child_rep R" and
        g = "\<lambda>p. (fst p, dropWhile (\<lambda>x. ExtractUserKey (fst x) = ?u) (snd p))", OF cs1(2) skip_user_rep] cs1(2) by (cases ?dd) (auto simp: o_def)
  let ?m = "m\<lparr>mg_iters := cs2, mg_currKey := Some k, mg_currValue := v\<rparr>"
  have "mg_advance ops m = Some ?m"
    using Some kv cs1(1) cs2(1) by (simp add: mg_advance_def Let_def split: if_splits)
  moreover have "map fst ?ps' = map fst ps" "map snd ?ps' = map ?d (map (skip_head k) (map snd ps))" by simp_all
  ultimately show ?thesis
    using cs2(2) shown_step [OF all wf least(1) step, of ?dd] by (intro exI [of _ ?m] exI [of _ ?ps']) (simp add: o_def)
qed

lemma mg_iterator: "internal_iterator (mg_ops ops) (mg_rep R)"
proof
  fix m :: "'it MergeIterator" and es rest
  assume "mg_rep R m es rest"
  then obtain ps where r: "list_all2 (child_rep R) (mg_iters m) ps"
    "es = shown (mg_Deduplicate m) (merge_entries (map fst ps))"
    "rest = (case mg_currKey m of None \<Rightarrow> []
       | Some k \<Rightarrow> (k, mg_currValue m) # shown (mg_Deduplicate m) (merge_entries (map snd ps)))"
    by (auto simp: mg_rep_def)
  obtain cs where cs: "map_opt (seek_child ops) (mg_iters m) = Some cs"
    "list_all2 (child_rep R) cs (map (\<lambda>p. (fst p, fst p)) ps)"
    using map_opt_rel [where f = "seek_child ops" and Q = "child_rep R" and g = "\<lambda>p. (fst p, fst p)", OF r(1) seek_child_rep] by blast
  define m1 where "m1 = m\<lparr>mg_iters := cs, mg_initialized := True\<rparr>"
  have m1: "mg_iters m1 = cs" "mg_Deduplicate m1 = mg_Deduplicate m" "mg_initialized m1" by (simp_all add: m1_def)
  let ?qs = "map (\<lambda>p. (fst p, fst p)) ps"
  have qs: "map snd ?qs = map fst ps" "map fst ?qs = map fst ps" by simp_all
  from mg_advance_rep [of m1 ?qs, unfolded qs m1] cs(2) obtain m' ps' where
    m': "mg_advance ops m1 = Some m'" "list_all2 (child_rep R) (mg_iters m') ps'"
    "map fst ps' = map fst ps" "mg_Deduplicate m' = mg_Deduplicate m" "mg_initialized m' = True"
    "shown (mg_Deduplicate m) (merge_entries (map fst ps)) = (case mg_currKey m' of None \<Rightarrow> []
       | Some k \<Rightarrow> (k, mg_currValue m') # shown (mg_Deduplicate m) (merge_entries (map snd ps')))"
    using m1(3) by blast
  then have "mg_rep R m' es es" unfolding mg_rep_def using r(2) by (intro exI [of _ ps']) (simp split: option.split)
  then show "\<exists>it'. op_SeekToFirst (mg_ops ops) m = Some it' \<and> mg_rep R it' es es"
    using cs(1) m'(1) by (simp add: mg_ops_def mg_SeekToFirst_def m1_def)
  show "op_Valid (mg_ops ops) m \<longleftrightarrow> rest \<noteq> []" using r(3) by (simp add: mg_ops_def mg_Valid_def split: option.split)
next
  fix m :: "'it MergeIterator" and es e rest
  assume "mg_rep R m es (e # rest)"
  then obtain ps k where r: "list_all2 (child_rep R) (mg_iters m) ps"
    "es = shown (mg_Deduplicate m) (merge_entries (map fst ps))" "mg_currKey m = Some k" "mg_initialized m"
    "e = (k, mg_currValue m)" "rest = shown (mg_Deduplicate m) (merge_entries (map snd ps))"
    by (auto simp: mg_rep_def split: option.splits)
  from mg_advance_rep [OF r(1)] obtain m' ps' where
    m': "mg_advance ops m = Some m'" "list_all2 (child_rep R) (mg_iters m') ps'"
    "map fst ps' = map fst ps" "mg_Deduplicate m' = mg_Deduplicate m" "mg_initialized m'"
    "rest = (case mg_currKey m' of None \<Rightarrow> []
       | Some k \<Rightarrow> (k, mg_currValue m') # shown (mg_Deduplicate m) (merge_entries (map snd ps')))"
    using r(4,6) by auto
  then have "mg_rep R m' es rest" unfolding mg_rep_def using r(2) by (intro exI [of _ ps']) (simp split: option.split)
  then show "\<exists>it'. op_Next (mg_ops ops) m = Some it' \<and> mg_rep R it' es rest"
    using m'(1) r(4) by (simp add: mg_ops_def mg_Next_def)
  show "op_Key (mg_ops ops) m = fst e" "op_Value (mg_ops ops) m = snd e"
    using r(3,5) by (simp_all add: mg_ops_def mg_Key_def)
qed

lemma mg_New:
  assumes "list_all2 (\<lambda>c es. R c es [] \<and> sorted_entries es \<and> wf_entries es) children ess"
  shows "mg_rep R (NewMergeIterator children dd) (shown dd (merge_entries ess)) []"
proof -
  have "list_all2 (child_rep R) (map (\<lambda>c. (c, False)) children) (map (\<lambda>es. (es, [])) ess)"
    using assms by (simp add: list_all2_map1 list_all2_map2 child_rep_def)
  then show ?thesis
    by (auto simp: mg_rep_def NewMergeIterator_def o_def intro!: exI [of _ "map (\<lambda>es. (es, [])) ess"])
qed

end


section \<open>Iterators of different kinds side by side\<close>

text \<open>A slice of interface values holds iterators of several types: the sum of their states, with the
  operations dispatched on the tag.\<close>

definition sum_ops :: "'a iter_ops \<Rightarrow> 'b iter_ops \<Rightarrow> ('a + 'b) iter_ops" where
  "sum_ops A B = \<lparr>
     op_SeekToFirst = (\<lambda>it. case it of Inl a \<Rightarrow> map_option Inl (op_SeekToFirst A a) | Inr b \<Rightarrow> map_option Inr (op_SeekToFirst B b)),
     op_Next = (\<lambda>it. case it of Inl a \<Rightarrow> map_option Inl (op_Next A a) | Inr b \<Rightarrow> map_option Inr (op_Next B b)),
     op_Valid = (\<lambda>it. case it of Inl a \<Rightarrow> op_Valid A a | Inr b \<Rightarrow> op_Valid B b),
     op_Key = (\<lambda>it. case it of Inl a \<Rightarrow> op_Key A a | Inr b \<Rightarrow> op_Key B b),
     op_Value = (\<lambda>it. case it of Inl a \<Rightarrow> op_Value A a | Inr b \<Rightarrow> op_Value B b)\<rparr>"

definition sum_rep :: "('a \<Rightarrow> entries \<Rightarrow> entries \<Rightarrow> bool) \<Rightarrow> ('b \<Rightarrow> entries \<Rightarrow> entries \<Rightarrow> bool) \<Rightarrow>
    'a + 'b \<Rightarrow> entries \<Rightarrow> entries \<Rightarrow> bool" where
  "sum_rep RA RB it es rest = (case it of Inl a \<Rightarrow> RA a es rest | Inr b \<Rightarrow> RB b es rest)"

lemma sum_iterator:
  assumes "internal_iterator A RA" and "internal_iterator B RB"
  shows "internal_iterator (sum_ops A B) (sum_rep RA RB)"
proof
  fix it :: "'a + 'b" and es rest
  assume r: "sum_rep RA RB it es rest"
  show "\<exists>it'. op_SeekToFirst (sum_ops A B) it = Some it' \<and> sum_rep RA RB it' es es"
    using r internal_iterator.seek [OF assms(1)] internal_iterator.seek [OF assms(2)]
    by (cases it) (fastforce simp: sum_rep_def sum_ops_def)+
  show "op_Valid (sum_ops A B) it \<longleftrightarrow> rest \<noteq> []"
    using r internal_iterator.valid [OF assms(1)] internal_iterator.valid [OF assms(2)]
    by (cases it) (simp_all add: sum_rep_def sum_ops_def)
next
  fix it :: "'a + 'b" and es e rest
  assume r: "sum_rep RA RB it es (e # rest)"
  consider (left) a where "it = Inl a" "RA a es (e # rest)" | (right) b where "it = Inr b" "RB b es (e # rest)"
    using r by (cases it) (auto simp: sum_rep_def)
  then have "(\<exists>it'. op_Next (sum_ops A B) it = Some it' \<and> sum_rep RA RB it' es rest) \<and>
      op_Key (sum_ops A B) it = fst e \<and> op_Value (sum_ops A B) it = snd e"
  proof cases
    case left
    show ?thesis
      using internal_iterator.next_ok [OF assms(1) left(2)] internal_iterator.key [OF assms(1) left(2)]
        internal_iterator.val [OF assms(1) left(2)] left(1) by (auto simp: sum_ops_def sum_rep_def)
  next
    case right
    show ?thesis
      using internal_iterator.next_ok [OF assms(2) right(2)] internal_iterator.key [OF assms(2) right(2)]
        internal_iterator.val [OF assms(2) right(2)] right(1) by (auto simp: sum_ops_def sum_rep_def)
  qed
  then show "\<exists>it'. op_Next (sum_ops A B) it = Some it' \<and> sum_rep RA RB it' es rest"
    "op_Key (sum_ops A B) it = fst e" "op_Value (sum_ops A B) it = snd e" by blast+
qed

section \<open>Draining an iterator\<close>

text \<open>The loop \<^verbatim>\<open>for it.Valid() { ...; it.Next() }\<close>, with the number of rounds bounded by the first argument.\<close>

fun drain :: "'it iter_ops \<Rightarrow> nat \<Rightarrow> 'it \<Rightarrow> entries option" where
  "drain ops 0 it = (if op_Valid ops it then None else Some [])"
| "drain ops (Suc n) it =
     (if op_Valid ops it then
        Option.bind (op_Next ops it) (\<lambda>it'. map_option ((#) (op_Key ops it, op_Value ops it)) (drain ops n it'))
      else Some [])"

context internal_iterator
begin

lemma drain_rest: "R it es rest \<Longrightarrow> length rest \<le> n \<Longrightarrow> drain ops n it = Some rest"
proof (induction rest arbitrary: it n)
  case Nil
  then show ?case using valid by (cases n) auto
next
  case (Cons e rest)
  obtain it' where it': "op_Next ops it = Some it'" "R it' es rest" using next_ok [OF Cons.prems(1)] by blast
  obtain m where n: "n = Suc m" using Cons.prems(2) by (cases n) auto
  show ?case
    using Cons.IH [OF it'(2), of m] Cons.prems(2) it'(1) valid [OF Cons.prems(1)] key [OF Cons.prems(1)]
      val [OF Cons.prems(1)] by (simp add: n)
qed

lemma seek_drain: "R it es rest \<Longrightarrow> length es \<le> n \<Longrightarrow> Option.bind (op_SeekToFirst ops it) (drain ops n) = Some es"
  using seek [of it es rest] drain_rest by fastforce

end

interpretation mem_vf: internal_iterator "vf_ops mi_ops" "vf_rep mi_rep"
  by (rule mem_iter.vf_iterator)

interpretation mem_merge: internal_iterator "mg_ops (vf_ops mi_ops)" "mg_rep (vf_rep mi_rep)"
  by (rule mem_vf.mg_iterator)

section \<open>The newest visible version\<close>

lemma newest_iff:
  assumes "sorted_entries es"
  shows "x \<in> set (newest es) \<longleftrightarrow>
    x \<in> set es \<and> (\<forall>e\<in>set es. ExtractUserKey (fst e) = ExtractUserKey (fst x) \<longrightarrow> \<not> ikey_less (fst e) (fst x))"
  using assms
proof (induction es rule: newest.induct)
  case 1
  then show ?case by simp
next
  case (2 e es)
  let ?f = "filter (\<lambda>x. ExtractUserKey (fst x) \<noteq> ExtractUserKey (fst e)) es"
  have e: "\<forall>y\<in>set es. ikey_less (fst e) (fst y)" using 2(2) by auto
  have "sorted_entries ?f" using 2(2) by (simp add: sorted_wrt_map sorted_wrt_filter)
  note IH = 2(1) [OF this]
  show ?case
  proof (cases "ExtractUserKey (fst x) = ExtractUserKey (fst e)")
    case True
    have "x \<notin> set (newest ?f)" using IH True by simp
    moreover have "\<forall>y\<in>set (e # es). \<not> ikey_less (fst y) (fst e)"
      using e ikey.cmp_refl ikey.cmp_swap_less by (metis order_less_irrefl order_less_not_sym set_ConsD)
    ultimately show ?thesis using True e by auto
  next
    case False
    then show ?thesis using IH by auto
  qed
qed

lemma newest_users:
  assumes "sorted_entries es"
  shows "sorted_wrt (<) (map (\<lambda>e. ExtractUserKey (fst e)) (newest es))"
  using assms
proof (induction es rule: newest.induct)
  case 1
  then show ?case by simp
next
  case (2 e es)
  let ?f = "filter (\<lambda>x. ExtractUserKey (fst x) \<noteq> ExtractUserKey (fst e)) es"
  have s: "sorted_entries ?f" using 2(2) by (simp add: sorted_wrt_map sorted_wrt_filter)
  have "ExtractUserKey (fst e) < ExtractUserKey (fst y)" if "y \<in> set (newest ?f)" for y
  proof -
    have "y \<in> set ?f" using newest_iff [OF s] that by blast
    then show ?thesis using 2(2) user_le [of "fst e" "fst y"] by (auto simp: order_less_le)
  qed
  with 2(1) [OF s] show ?case by simp
qed


section \<open>Properties\<close>

text \<open>The versions a run of insertions into each of several memtables leaves: for each internal key the
  last value written, an earlier memtable winning over a later one.\<close>

definition written :: "(bytes \<times> bytes \<times> (nat \<Rightarrow> bool)) list list \<Rightarrow> bytes \<rightharpoonup> bytes" where
  "written opss = map_of (concat (map (\<lambda>ops. rev (map (\<lambda>(k, v, _). (k, v)) ops)) opss))"

definition snapshot_iter :: "Memtable list \<Rightarrow> u64 \<Rightarrow> MemtableIterator VersionFilterIterator MergeIterator" where
  "snapshot_iter ms readSeq =
     NewMergeIterator (map (\<lambda>m. NewVersionFilterIterator (NewMemtableIterator m) readSeq) ms) True"

lemma mem_inserts_entries:
  assumes "mem_inserts ops Memtable_New = Some m" and "\<forall>op\<in>set ops. wf_ikey (fst op)"
  shows "\<exists>es. mem_rep m es \<and> sorted_entries es \<and> wf_entries es \<and> map_of es = map_of (rev (map (\<lambda>(k, v, _). (k, v)) ops))"
  using mem_inserts_correct [OF mem_rep_New, of ops] fold_upd_entry_map_of [OF assms(2) mem_rep_New] assms(1)
  by (auto dest: mem_rep_sorted)

lemma mem_inserts_all:
  assumes "list_all2 (\<lambda>ops m. mem_inserts ops Memtable_New = Some m) opss ms"
    and "\<forall>ops\<in>set opss. \<forall>op\<in>set ops. wf_ikey (fst op)"
  shows "\<exists>ess. list_all2 (\<lambda>m es. mem_rep m es \<and> sorted_entries es \<and> wf_entries es) ms ess \<and>
    map_of (concat ess) = written opss"
  using assms
proof (induction opss ms rule: list_all2_induct)
  case Nil
  then show ?case by (auto simp: written_def)
next
  case (Cons ops opss m ms)
  from Cons obtain ess where ess: "list_all2 (\<lambda>m es. mem_rep m es \<and> sorted_entries es \<and> wf_entries es) ms ess"
    "map_of (concat ess) = written opss" by auto
  obtain es where es: "mem_rep m es" "sorted_entries es" "wf_entries es"
    "map_of es = map_of (rev (map (\<lambda>(k, v, _). (k, v)) ops))"
    using mem_inserts_entries [OF Cons(1)] Cons.prems by auto
  show ?case
    using ess es by (intro exI [of _ "es # ess"]) (simp add: written_def map_of_append)
qed

lemma list_all2_wf:
  "list_all2 (\<lambda>m es. P m es \<and> sorted_entries es \<and> wf_entries es) ms ess \<Longrightarrow> \<forall>es\<in>set ess. wf_entries es"
  by (induction ms ess rule: list_all2_induct) simp_all

lemma snapshot_iter_rep:
  assumes "list_all2 (\<lambda>m es. mem_rep m es \<and> sorted_entries es \<and> wf_entries es) ms ess"
  shows "mg_rep (vf_rep mi_rep) (snapshot_iter ms readSeq)
    (newest (filter (visible readSeq) (merge_entries ess))) []"
proof -
  have "list_all2 (\<lambda>c es. vf_rep mi_rep c es [] \<and> sorted_entries es \<and> wf_entries es)
      (map (\<lambda>m. NewVersionFilterIterator (NewMemtableIterator m) readSeq) ms) (map (filter (visible readSeq)) ess)"
    using assms
    by (auto simp: list_all2_map1 list_all2_map2 sorted_wrt_map sorted_wrt_filter
        intro: mem_iter.vf_New NewMemtableIterator_rep elim!: list.rel_mono_strong)
  from mem_vf.mg_New [OF this, of True]
  have "mg_rep (vf_rep mi_rep) (snapshot_iter ms readSeq) (newest (merge_entries (map (filter (visible readSeq)) ess))) []"
    by (simp add: snapshot_iter_def shown_def)
  moreover have "\<forall>es\<in>set ess. wf_entries es" using assms by (rule list_all2_wf)
  from merge_filter [OF this, of "\<lambda>k. trailer_seq k \<le> readSeq"]
  have "merge_entries (map (filter (visible readSeq)) ess) = filter (visible readSeq) (merge_entries ess)"
    by (simp add: visible_def [abs_def])
  ultimately show ?thesis by simp
qed

text \<open>C14. A scan over any number of memtables at a read sequence number visits user keys in strictly
  increasing order and shows, for each, exactly the newest version whose sequence number is not
  above the read sequence number.\<close>

theorem snapshot_scan:
  assumes "list_all2 (\<lambda>ops m. mem_inserts ops Memtable_New = Some m) opss ms"
    and "\<forall>ops\<in>set opss. \<forall>op\<in>set ops. wf_ikey (fst op)"
  shows "\<exists>n out. Option.bind (mg_SeekToFirst (vf_ops mi_ops) (snapshot_iter ms readSeq)) (drain (mg_ops (vf_ops mi_ops)) n) = Some out \<and>
    sorted_wrt (<) (map (\<lambda>e. ExtractUserKey (fst e)) out) \<and>
    (\<forall>k v. (k, v) \<in> set out \<longleftrightarrow>
       written opss k = Some v \<and> trailer_seq k \<le> readSeq \<and>
       (\<forall>k'\<in>dom (written opss). trailer_seq k' \<le> readSeq \<and> ExtractUserKey k' = ExtractUserKey k \<longrightarrow> Compare k k' \<le> 0))"
proof -
  obtain ess where ess: "list_all2 (\<lambda>m es. mem_rep m es \<and> sorted_entries es \<and> wf_entries es) ms ess"
    "map_of (concat ess) = written opss"
    using mem_inserts_all [OF assms] by blast
  have wf: "\<forall>es\<in>set ess. wf_entries es" using ess(1) by (rule list_all2_wf)
  let ?M = "merge_entries ess" and ?out = "newest (filter (visible readSeq) (merge_entries ess))"
  have M: "sorted_entries ?M" "map_of ?M = written opss" using merge_entries_facts [OF wf] ess(2) by simp_all
  have "sorted_entries (filter (visible readSeq) ?M)" using M(1) by (simp add: sorted_wrt_map sorted_wrt_filter)
  note N = newest_iff [OF this] newest_users [OF this]
  have mem: "(k, v) \<in> set ?M \<longleftrightarrow> written opss k = Some v" for k v
    using M sorted_entries_distinct [OF M(1)] by (metis map_of_eq_Some_iff)
  have dom: "(\<forall>e\<in>set (filter (visible readSeq) ?M). Q (fst e)) \<longleftrightarrow>
      (\<forall>k\<in>dom (written opss). trailer_seq k \<le> readSeq \<longrightarrow> Q k)" for Q
    by (force simp: visible_def mem)
  have "(k, v) \<in> set ?out \<longleftrightarrow> written opss k = Some v \<and> trailer_seq k \<le> readSeq \<and>
       (\<forall>k'\<in>dom (written opss). trailer_seq k' \<le> readSeq \<and> ExtractUserKey k' = ExtractUserKey k \<longrightarrow> Compare k k' \<le> 0)" for k v
    using dom [of "\<lambda>k'. ExtractUserKey k' = ExtractUserKey k \<longrightarrow> \<not> ikey_less k' k"]
    by (simp add: N(1) mem visible_def ikey.cmp_not_less imp_conjL)
  moreover have "Option.bind (mg_SeekToFirst (vf_ops mi_ops) (snapshot_iter ms readSeq))
      (drain (mg_ops (vf_ops mi_ops)) (length ?out)) = Some ?out"
    using mem_merge.seek_drain [OF snapshot_iter_rep [OF ess(1)], of readSeq] by (simp add: mg_ops_def)
  ultimately show ?thesis using N(2) by blast
qed


theorem snapshot_scan_witness:
  "\<exists>m1 m2 n out.
     mem_inserts [([107, 1, 9, 0, 0, 0, 0, 0, 0], [1], \<lambda>_. False)] Memtable_New = Some m1 \<and>
     mem_inserts [([107, 1, 5, 0, 0, 0, 0, 0, 0], [2], \<lambda>_. True)] Memtable_New = Some m2 \<and>
     Option.bind (mg_SeekToFirst (vf_ops mi_ops) (snapshot_iter [m1, m2] 7)) (drain (mg_ops (vf_ops mi_ops)) n) = Some out \<and>
     ([107, 1, 5, 0, 0, 0, 0, 0, 0], [2]) \<in> set out"
proof -
  let ?new = "[107, 1, 9, 0, 0, 0, 0, 0, 0] :: bytes" and ?old = "[107, 1, 5, 0, 0, 0, 0, 0, 0] :: bytes"
  let ?o1 = "[(?new, [1], \<lambda>_. False)] :: (bytes \<times> bytes \<times> (nat \<Rightarrow> bool)) list"
    and ?o2 = "[(?old, [2], \<lambda>_. True)] :: (bytes \<times> bytes \<times> (nat \<Rightarrow> bool)) list"
  obtain m1 m2 where m: "mem_inserts ?o1 Memtable_New = Some m1" "mem_inserts ?o2 Memtable_New = Some m2"
    using mem_inserts_correct [OF mem_rep_New] by blast
  then have "list_all2 (\<lambda>ops m. mem_inserts ops Memtable_New = Some m) [?o1, ?o2] [m1, m2]" by simp
  from snapshot_scan [OF this, of 7] obtain n out where out:
    "Option.bind (mg_SeekToFirst (vf_ops mi_ops) (snapshot_iter [m1, m2] 7)) (drain (mg_ops (vf_ops mi_ops)) n) = Some out"
    "\<forall>k v. (k, v) \<in> set out \<longleftrightarrow> written [?o1, ?o2] k = Some v \<and> trailer_seq k \<le> 7 \<and>
       (\<forall>k'\<in>dom (written [?o1, ?o2]). trailer_seq k' \<le> 7 \<and> ExtractUserKey k' = ExtractUserKey k \<longrightarrow> Compare k k' \<le> 0)"
    by (auto simp: wf_ikey_def)
  have "trailer_seq ?new = 9" "trailer_seq ?old = 5"
    by (simp_all add: ExtractTrailer_def Uint64_def)
  moreover have "written [?o1, ?o2] = [?new \<mapsto> [1], ?old \<mapsto> [2]]" by (auto simp: written_def)
  ultimately have "(?old, [2]) \<in> set out" using out(2) ikey.cmp_refl by simp
  with m out(1) show ?thesis by blast
qed

end
