(* ===== verification/Block.thy ===== *)
theory Block
  imports Iterators
begin

text \<open>
  Package \<^verbatim>\<open>sstable\<close>, \<^verbatim>\<open>block.go\<close>: the key-value block with prefix-compressed keys and restart points.  The
  builder's buffer is a byte list.  Offsets that the code keeps in \<^verbatim>\<open>uint32\<close> are 32-bit words, lengths read
  from a block are 64-bit words converted to signed integers as \<^verbatim>\<open>int(x)\<close> does; a slice or allocation out
  of range is a panic, the value \<open>None\<close>.
\<close>

section \<open>Building a block\<close>

definition restartInterval :: nat where
  "restartInterval = 16"

record BlockBuilder =
  bb_buf :: bytes
  bb_restarts :: "u32 list"
  bb_counter :: nat
  bb_lastUnsafeKey :: "bytes option"
  bb_finished :: bool

definition NewBlockBuilder :: BlockBuilder where
  "NewBlockBuilder = \<lparr>bb_buf = [], bb_restarts = [0], bb_counter = 0, bb_lastUnsafeKey = None, bb_finished = False\<rparr>"

definition BlockBuilder_Reset :: "BlockBuilder \<Rightarrow> BlockBuilder" where
  "BlockBuilder_Reset b =
     b\<lparr>bb_buf := [], bb_restarts := take 0 (bb_restarts b) @ [0], bb_counter := 0, bb_lastUnsafeKey := None, bb_finished := False\<rparr>"

fun shared_prefix :: "bytes \<Rightarrow> bytes \<Rightarrow> nat" where
  "shared_prefix (x # xs) (y # ys) = (if x = y then Suc (shared_prefix xs ys) else 0)"
| "shared_prefix _ _ = 0"

definition putVarint :: "nat \<Rightarrow> bytes" where
  "putVarint n = PutUvarint (of_nat n)"

definition BlockBuilder_Add :: "bytes \<Rightarrow> bytes \<Rightarrow> BlockBuilder \<Rightarrow> BlockBuilder" where
  "BlockBuilder_Add key value b =
     (let (shared, b1) =
            (if bb_counter b < restartInterval \<and> bb_lastUnsafeKey b \<noteq> None
             then (shared_prefix (the (bb_lastUnsafeKey b)) key, b)
             else (0, if bb_counter b \<ge> restartInterval
                      then b\<lparr>bb_restarts := bb_restarts b @ [of_nat (length (bb_buf b))], bb_counter := 0\<rparr>
                      else b));
          unshared = length key - shared
      in b1\<lparr>bb_buf := bb_buf b1 @ putVarint shared @ putVarint unshared @ putVarint (length value) @ drop shared key @ value,
            bb_lastUnsafeKey := Some key, bb_counter := bb_counter b1 + 1\<rparr>)"

definition BlockBuilder_Finish :: "BlockBuilder \<Rightarrow> BlockBuilder \<times> bytes" where
  "BlockBuilder_Finish b =
     (let buf = bb_buf b @ concat (map PutUint32 (bb_restarts b)) @ PutUint32 (of_nat (length (bb_restarts b)))
      in (b\<lparr>bb_buf := buf, bb_finished := True\<rparr>, buf))"

definition BlockBuilder_CurrentSize :: "BlockBuilder \<Rightarrow> nat" where
  "BlockBuilder_CurrentSize b = length (bb_buf b)"

definition BlockBuilder_Empty :: "BlockBuilder \<Rightarrow> bool" where
  "BlockBuilder_Empty b \<longleftrightarrow> length (bb_buf b) = 0"

section \<open>Reading a block\<close>

record BlockIterator =
  bi_data :: bytes
  bi_restarts :: u32
  bi_numRestarts :: u32
  bi_offset :: nat
  bi_nextOffset :: nat
  bi_key :: bytes
  bi_value :: bytes
  bi_err :: bool
  bi_valid :: bool

definition corrupt_block :: BlockIterator where
  "corrupt_block = \<lparr>bi_data = [], bi_restarts = 0, bi_numRestarts = 0, bi_offset = 0, bi_nextOffset = 0,
     bi_key = [], bi_value = [], bi_err = True, bi_valid = False\<rparr>"

definition NewBlockIterator :: "bytes \<Rightarrow> BlockIterator" where
  "NewBlockIterator data =
     (let n = of_nat (length data) :: u32
      in if n < 4 then corrupt_block
         else let numRestarts = Uint32 (drop (unat (n - 4)) data);
                  restartsOffset = n - 4 - numRestarts * 4
              in if restartsOffset > n - 4 then corrupt_block
                 else \<lparr>bi_data = data, bi_restarts = restartsOffset, bi_numRestarts = numRestarts, bi_offset = 0,
                       bi_nextOffset = 0, bi_key = [], bi_value = [], bi_err = False, bi_valid = False\<rparr>)"

definition bi_Valid :: "BlockIterator \<Rightarrow> bool" where
  "bi_Valid it \<longleftrightarrow> bi_valid it \<and> \<not> bi_err it"

definition GetRestartPoint :: "BlockIterator \<Rightarrow> u32 \<Rightarrow> u32 option" where
  "GetRestartPoint it index =
     (let offset = unat (bi_restarts it + index * 4)
      in if offset + 4 \<le> length (bi_data it) then Some (Uint32 (drop offset (bi_data it))) else None)"

definition SeekToRestartPoint :: "u32 \<Rightarrow> BlockIterator \<Rightarrow> BlockIterator option" where
  "SeekToRestartPoint index it =
     (let index = (if index \<ge> bi_numRestarts it then 0 else index)
      in Option.bind (GetRestartPoint it index) (\<lambda>offset.
           Some (it\<lparr>bi_nextOffset := unat offset, bi_offset := unat offset, bi_valid := False\<rparr>)))"

text \<open>\<^verbatim>\<open>ParseEntry\<close>: \<open>None\<close> is a panic, \<open>Some None\<close> the result \<^verbatim>\<open>ok = false\<close>.\<close>

definition parse_lengths :: "bytes \<Rightarrow> (u64 \<times> u64 \<times> u64 \<times> nat) option" where
  "parse_lengths src =
     (case Uvarint src of (shared, n1) \<Rightarrow>
        if n1 \<le> 0 then None
        else case Uvarint (drop (nat n1) src) of (unshared, n2) \<Rightarrow>
          if n2 \<le> 0 then None
          else case Uvarint (drop (nat n1 + nat n2) src) of (vlen, n3) \<Rightarrow>
            if n3 \<le> 0 then None else Some (shared, unshared, vlen, nat n1 + nat n2 + nat n3))"

definition ParseEntry :: "BlockIterator \<Rightarrow> nat \<Rightarrow> (bytes \<times> bytes \<times> nat) option option" where
  "ParseEntry it offset =
     (if offset \<ge> unat (bi_restarts it) then Some None
      else if offset > length (bi_data it) then None
      else
        let src = drop offset (bi_data it)
        in case parse_lengths src of
             None \<Rightarrow> Some None
           | Some (shared, unshared, vlen, current) \<Rightarrow>
               let s = sint shared; u = sint unshared; v = sint vlen;
                   fullKeyLength = sint (shared + unshared)
               in if int (length src) < sint (of_nat current + unshared + vlen) then Some None
                  else if fullKeyLength < 0 \<or> fullKeyLength > maxAlloc then None
                  else if shared > 0 \<and> int (length (bi_key it)) < s then Some None
                  else if s < 0 \<or> u < 0 \<or> v < 0 \<or> int (length src) < int current + u + v then None
                  else Some (Some
                    (take (nat s) (bi_key it) @ take (nat u) (drop current src),
                     take (nat v) (drop (current + nat u) src),
                     current + nat u + nat v)))"

definition ParseNext :: "BlockIterator \<Rightarrow> (BlockIterator \<times> bool) option" where
  "ParseNext it =
     (if bi_nextOffset it \<ge> unat (bi_restarts it) then Some (it\<lparr>bi_valid := False\<rparr>, False)
      else let it = it\<lparr>bi_offset := bi_nextOffset it\<rparr>
           in case ParseEntry it (bi_offset it) of
                None \<Rightarrow> None
              | Some None \<Rightarrow> Some (it\<lparr>bi_valid := False, bi_err := True\<rparr>, False)
              | Some (Some (key, value, n)) \<Rightarrow>
                  Some (it\<lparr>bi_key := key, bi_value := value, bi_nextOffset := bi_offset it + n, bi_valid := True\<rparr>, True))"

definition bi_SeekToFirst :: "BlockIterator \<Rightarrow> BlockIterator option" where
  "bi_SeekToFirst it = Option.bind (SeekToRestartPoint 0 it) (\<lambda>it. map_option fst (ParseNext it))"

definition bi_Next :: "BlockIterator \<Rightarrow> BlockIterator option" where
  "bi_Next it =
     (let it = it\<lparr>bi_offset := bi_nextOffset it\<rparr>
      in if bi_offset it \<ge> unat (bi_restarts it) then Some (it\<lparr>bi_valid := False\<rparr>)
         else map_option fst (ParseNext it))"

partial_function (option) seek_restart :: "bytes \<Rightarrow> u32 \<Rightarrow> u32 \<Rightarrow> BlockIterator \<Rightarrow> (u32 option) option" where
  "seek_restart target left right it =
     (if left < right then
        let mid = (left + right + 1) div 2
        in Option.bind (GetRestartPoint it mid) (\<lambda>regionOffset.
             case ParseEntry it (unat regionOffset) of
               None \<Rightarrow> None
             | Some None \<Rightarrow> Some None
             | Some (Some (key, _, _)) \<Rightarrow>
                 if bytes_Compare key target < 0 then seek_restart target mid right it
                 else seek_restart target left (mid - 1) it)
      else Some (Some left))"

partial_function (option) seek_linear :: "bytes \<Rightarrow> BlockIterator \<Rightarrow> BlockIterator option" where
  "seek_linear target it =
     Option.bind (ParseNext it) (\<lambda>(it, ok).
       if \<not> ok then Some it
       else if bytes_Compare (bi_key it) target \<ge> 0 then Some it
       else seek_linear target it)"

definition bi_Seek :: "bytes \<Rightarrow> BlockIterator \<Rightarrow> BlockIterator option" where
  "bi_Seek target it =
     Option.bind (seek_restart target 0 (bi_numRestarts it - 1) it) (\<lambda>r.
       case r of
         None \<Rightarrow> Some (it\<lparr>bi_err := True\<rparr>)
       | Some left \<Rightarrow> Option.bind (SeekToRestartPoint left it) (seek_linear target))"

definition bi_ops :: "BlockIterator iter_ops" where
  "bi_ops = \<lparr>op_SeekToFirst = bi_SeekToFirst, op_Next = bi_Next, op_Valid = bi_Valid, op_Key = bi_key, op_Value = bi_value\<rparr>"


section \<open>The entries of a block\<close>

text \<open>One entry with the length of the prefix it shares with its predecessor, and a chain of them: each
  shared length is within the previous key and the prefixes agree.\<close>

definition entry_bytes_of :: "nat \<times> bytes \<times> bytes \<Rightarrow> bytes" where
  "entry_bytes_of e = (case e of (sh, k, v) \<Rightarrow>
     putVarint sh @ putVarint (length k - sh) @ putVarint (length v) @ drop sh k @ v)"

fun chain :: "bytes \<Rightarrow> (nat \<times> bytes \<times> bytes) list \<Rightarrow> bool" where
  "chain prev [] \<longleftrightarrow> True"
| "chain prev ((sh, k, v) # es) \<longleftrightarrow> sh \<le> length k \<and> sh \<le> length prev \<and> take sh prev = take sh k \<and> chain k es"

abbreviation block_bytes :: "(nat \<times> bytes \<times> bytes) list \<Rightarrow> bytes" where
  "block_bytes es \<equiv> concat (map entry_bytes_of es)"

abbreviation plain :: "(nat \<times> bytes \<times> bytes) list \<Rightarrow> entries" where
  "plain es \<equiv> map snd es"

definition last_key :: "bytes \<Rightarrow> (nat \<times> bytes \<times> bytes) list \<Rightarrow> bytes" where
  "last_key prev es = (if es = [] then prev else fst (snd (last es)))"

lemma last_key_simps [simp]:
  "last_key prev [] = prev" "last_key prev (e # es) = last_key (fst (snd e)) es"
  by (auto simp: last_key_def)

lemma chain_append: "chain prev (es @ fs) \<longleftrightarrow> chain prev es \<and> chain (last_key prev es) fs"
  by (induction prev es rule: chain.induct) auto

lemma shared_prefix_le: "shared_prefix xs ys \<le> length xs" "shared_prefix xs ys \<le> length ys"
  by (induction xs ys rule: shared_prefix.induct) auto

lemma shared_prefix_take: "take (shared_prefix xs ys) xs = take (shared_prefix xs ys) ys"
  by (induction xs ys rule: shared_prefix.induct) auto

lemma length_entry_bytes: "3 \<le> length (entry_bytes_of e)"
proof -
  have "1 \<le> length (putVarint n)" for n
    using PutUvarint_not_Nil [of "of_nat n"] by (cases "putVarint n") (auto simp: putVarint_def)
  from this [of "fst e"] this [of "length (fst (snd e)) - fst e"] this [of "length (snd (snd e))"] show ?thesis
    by (cases e) (simp add: entry_bytes_of_def)
qed

text \<open>What the builder holds: a chain of entries, and restart points that are positions of entries which
  share nothing.\<close>

definition restart_at :: "(nat \<times> bytes \<times> bytes) list \<Rightarrow> nat \<Rightarrow> bool" where
  "restart_at es i \<longleftrightarrow> i < length es \<and> fst (es ! i) = 0"

definition bb_rep :: "BlockBuilder \<Rightarrow> (nat \<times> bytes \<times> bytes) list \<Rightarrow> nat list \<Rightarrow> bool" where
  "bb_rep b es idx \<longleftrightarrow> bb_buf b = block_bytes es \<and> chain [] es \<and>
     bb_lastUnsafeKey b = (if es = [] then None else Some (last_key [] es)) \<and>
     (es = [] \<longrightarrow> bb_counter b = 0) \<and> (es \<noteq> [] \<longrightarrow> fst (hd es) = 0) \<and>
     bb_restarts b = map (\<lambda>i. of_nat (length (block_bytes (take i es)))) idx \<and> idx \<noteq> [] \<and> hd idx = 0 \<and>
     sorted_wrt (<) idx \<and> (\<forall>i\<in>set idx. i = 0 \<or> restart_at es i)"

lemma bb_rep_New: "bb_rep NewBlockBuilder [] [0]"
  by (simp add: bb_rep_def NewBlockBuilder_def)

lemma bb_rep_Reset: "bb_rep (BlockBuilder_Reset b) [] [0]"
  by (simp add: bb_rep_def BlockBuilder_Reset_def)

lemma bb_rep_Add:
  assumes rep: "bb_rep b es idx"
  shows "\<exists>sh idx'. bb_rep (BlockBuilder_Add k v b) (es @ [(sh, k, v)]) idx' \<and> set idx' \<subseteq> insert (length es) (set idx)"
proof -
  have idx: "i \<in> set idx \<Longrightarrow> i = 0 \<or> i < length es" for i using rep by (auto simp: bb_rep_def restart_at_def)
  have old: "restart_at (es @ [x]) i" if "restart_at es i" for i x using that by (simp add: restart_at_def nth_append)
  have keep: "map (\<lambda>i. of_nat (length (block_bytes (take i (es @ [x]))))) idx =
      map (\<lambda>i. of_nat (length (block_bytes (take i es))) :: u32) idx" for x
    using idx by (fastforce simp: take_append)
  show ?thesis
  proof (cases "bb_counter b < restartInterval \<or> es = []")
    case True
    let ?sh = "if es = [] then 0 else shared_prefix (last_key [] es) k"
    have "BlockBuilder_Add k v b = b\<lparr>bb_buf := bb_buf b @ entry_bytes_of (?sh, k, v), bb_lastUnsafeKey := Some k,
        bb_counter := bb_counter b + 1\<rparr>"
      using rep True by (auto simp: BlockBuilder_Add_def bb_rep_def entry_bytes_of_def restartInterval_def)
    moreover have "chain (last_key [] es) [(?sh, k, v)]"
      using shared_prefix_le shared_prefix_take by auto
    ultimately have "bb_rep (BlockBuilder_Add k v b) (es @ [(?sh, k, v)]) idx"
      using rep keep old by (auto simp: bb_rep_def chain_append last_key_def hd_append)
    then show ?thesis by blast
  next
    case False
    let ?idx = "idx @ [length es]"
    have "BlockBuilder_Add k v b = b\<lparr>bb_buf := bb_buf b @ entry_bytes_of (0, k, v), bb_lastUnsafeKey := Some k,
        bb_restarts := bb_restarts b @ [of_nat (length (bb_buf b))], bb_counter := 1\<rparr>"
      using rep False by (auto simp: BlockBuilder_Add_def bb_rep_def entry_bytes_of_def)
    moreover have "sorted_wrt (<) ?idx" using rep idx False by (auto simp: bb_rep_def sorted_wrt_append)
    moreover have "restart_at (es @ [(0, k, v)]) (length es)" by (simp add: restart_at_def)
    ultimately have "bb_rep (BlockBuilder_Add k v b) (es @ [(0, k, v)]) ?idx"
      using rep keep old False by (auto simp: bb_rep_def chain_append last_key_def hd_append)
    then show ?thesis by (intro exI [of _ 0] exI [of _ ?idx]) auto
  qed
qed


section \<open>Parsing what was built\<close>

lemma putVarint_Uvarint: "Uvarint (putVarint n @ rest) = (of_nat n, int (length (putVarint n)))"
  by (simp add: putVarint_def)

lemma putVarint_pos: "0 < length (putVarint n)"
  by (simp add: putVarint_def)

lemma parse_lengths_entry:
  "parse_lengths (putVarint a @ putVarint b @ putVarint c @ rest) =
     Some (of_nat a, of_nat b, of_nat c, length (putVarint a) + length (putVarint b) + length (putVarint c))"
  using putVarint_pos [of a] putVarint_pos [of b] putVarint_pos [of c]
  by (simp add: parse_lengths_def putVarint_Uvarint)

lemma sint_small: "n < 2 ^ 63 \<Longrightarrow> sint (of_nat n :: u64) = int n"
  by (simp add: signed_of_nat signed_take_bit_int_eq_self)

lemma ParseEntry_entry:
  assumes data: "bi_data it = pre @ entry_bytes_of (sh, k, v) @ post" and off: "length pre < unat (bi_restarts it)"
    and key: "sh \<le> length k" "sh \<le> length (bi_key it)" "take sh (bi_key it) = take sh k"
    and small: "length (bi_data it) < 2 ^ 32" "length k < 2 ^ 32"
  shows "ParseEntry it (length pre) = Some (Some (k, v, length (entry_bytes_of (sh, k, v))))"
proof -
  let ?c = "length (putVarint sh) + length (putVarint (length k - sh)) + length (putVarint (length v))"
  let ?src = "entry_bytes_of (sh, k, v) @ post"
  have src: "drop (length pre) (bi_data it) = ?src" by (simp add: data)
  have lens: "parse_lengths ?src = Some (of_nat sh, of_nat (length k - sh), of_nat (length v), ?c)"
    by (simp add: entry_bytes_of_def parse_lengths_entry)
  have len: "length ?src = ?c + (length k - sh) + length v + length post" by (simp add: entry_bytes_of_def)
  have bound: "?c + (length k - sh) + length v < 2 ^ 32" using small(1) by (simp add: data entry_bytes_of_def)
  have "of_nat ?c + of_nat (length k - sh) + of_nat (length v) = (of_nat (?c + (length k - sh) + length v) :: u64)"
    by simp
  then have tot: "sint (of_nat ?c + of_nat (length k - sh) + of_nat (length v) :: u64) = int (?c + (length k - sh) + length v)"
    using bound sint_small [of "?c + (length k - sh) + length v"] by (simp only:) simp
  have "of_nat sh + of_nat (length k - sh) = (of_nat (length k) :: u64)"
    using key(1) by (simp flip: of_nat_add)
  then have full: "sint (of_nat sh + of_nat (length k - sh) :: u64) = int (length k)"
    using small(2) sint_small [of "length k"] by (simp only:) simp
  have each: "sint (of_nat sh :: u64) = int sh" "sint (of_nat (length k - sh) :: u64) = int (length k - sh)"
    "sint (of_nat (length v) :: u64) = int (length v)"
    using bound key(1) small(2) by (intro sint_small; simp)+
  have d: "drop ?c ?src = drop sh k @ v @ post" "drop (?c + (length k - sh)) ?src = v @ post"
    by (simp_all add: entry_bytes_of_def)
  have "take sh (bi_key it) @ drop sh k = k" by (simp add: key(3))
  then show ?thesis
    unfolding ParseEntry_def Let_def src lens option.case prod.case tot full each
    using off len data key(2) d small(2) by (simp add: maxAlloc_def entry_bytes_of_def)
qed


section \<open>The block iterator keeps the iterator contract\<close>

definition restart_words :: "(nat \<times> bytes \<times> bytes) list \<Rightarrow> nat list \<Rightarrow> u32 list" where
  "restart_words es idx = map (\<lambda>i. of_nat (length (block_bytes (take i es)))) idx"

lemma restart_words_simps [simp]:
  "length (restart_words es idx) = length idx"
  "j < length idx \<Longrightarrow> restart_words es idx ! j = of_nat (length (block_bytes (take (idx ! j) es)))"
  by (simp_all add: restart_words_def)

definition blk_ok :: "bytes \<Rightarrow> (nat \<times> bytes \<times> bytes) list \<Rightarrow> nat list \<Rightarrow> bool" where
  "blk_ok data es idx \<longleftrightarrow>
     data = block_bytes es @ concat (map PutUint32 (restart_words es idx)) @ PutUint32 (of_nat (length idx)) \<and>
     length data < 2 ^ 32 \<and> chain [] es \<and> (es \<noteq> [] \<longrightarrow> fst (hd es) = 0) \<and>
     idx \<noteq> [] \<and> hd idx = 0 \<and> sorted_wrt (<) idx \<and> (\<forall>i\<in>set idx. i = 0 \<or> restart_at es i)"

definition bi_frame :: "BlockIterator \<Rightarrow> (nat \<times> bytes \<times> bytes) list \<Rightarrow> nat list \<Rightarrow> bool" where
  "bi_frame it es idx \<longleftrightarrow> blk_ok (bi_data it) es idx \<and> unat (bi_restarts it) = length (block_bytes es) \<and>
     unat (bi_numRestarts it) = length idx \<and> \<not> bi_err it"

definition bi_at :: "BlockIterator \<Rightarrow> (nat \<times> bytes \<times> bytes) list \<Rightarrow> (nat \<times> bytes \<times> bytes) list \<Rightarrow> bool" where
  "bi_at it es rest \<longleftrightarrow>
     (if bi_valid it
      then \<exists>fs e gs. es = fs @ e # gs \<and> rest = e # gs \<and> (bi_key it, bi_value it) = snd e \<and>
             bi_nextOffset it = length (block_bytes (fs @ [e]))
      else rest = [])"

definition bi_rep :: "BlockIterator \<Rightarrow> entries \<Rightarrow> entries \<Rightarrow> bool" where
  "bi_rep it all rest \<longleftrightarrow> (\<exists>es idx r. bi_frame it es idx \<and> bi_at it es r \<and> all = plain es \<and> rest = plain r)"

lemma length_restarts: "length (concat (map PutUint32 rs)) = 4 * length rs"
  by (induction rs) simp_all

lemma blk_ok_Finish: "bb_rep b es idx \<Longrightarrow> length (snd (BlockBuilder_Finish b)) < 2 ^ 32 \<Longrightarrow>
    blk_ok (snd (BlockBuilder_Finish b)) es idx"
  by (auto simp: bb_rep_def blk_ok_def BlockBuilder_Finish_def Let_def restart_words_def)

lemma blk_ok_length: "blk_ok data es idx \<Longrightarrow> length data = length (block_bytes es) + 4 * length idx + 4"
  by (simp add: blk_ok_def length_restarts)

lemma blk_ok_small: "blk_ok data es idx \<Longrightarrow> length data < 2 ^ 32"
  unfolding blk_ok_def by blast

lemma NewBlockIterator_frame:
  assumes ok: "blk_ok data es idx"
  shows "bi_frame (NewBlockIterator data) es idx \<and> \<not> bi_valid (NewBlockIterator data)"
proof -
  let ?E = "length (block_bytes es)" and ?r = "length idx"
  let ?n = "of_nat (length data) :: u32"
  have len: "length data = ?E + 4 * ?r + 4" using ok by (rule blk_ok_length)
  have small: "length data < 2 ^ 32" using ok by (rule blk_ok_small)
  have n4: "?n - 4 = of_nat (?E + 4 * ?r)" by (simp add: len)
  have "?E + 4 * ?r < 2 ^ 32" using small len by linarith
  then have u4: "unat (?n - 4) = ?E + 4 * ?r" unfolding n4 by (rule unat_of_nat_small)
  have "drop (?E + 4 * ?r) data = PutUint32 (of_nat ?r)" using ok by (simp add: blk_ok_def length_restarts)
  then have num: "Uint32 (drop (unat (?n - 4)) data) = of_nat ?r" by (simp add: u4)
  have off: "?n - 4 - of_nat ?r * 4 = of_nat ?E" by (simp add: n4)
  have uE: "unat (of_nat ?E :: u32) = ?E" "unat (of_nat ?r :: u32) = ?r" using small len by (simp_all add: unat_of_nat_small)
  have "unat ?n = length data" using small by (simp add: unat_of_nat_small)
  then have "\<not> ?n < 4" using len by (simp add: word_less_nat_alt)
  moreover have "\<not> of_nat ?E > ?n - 4" by (simp add: word_less_nat_alt u4 uE)
  ultimately have "NewBlockIterator data = \<lparr>bi_data = data, bi_restarts = of_nat ?E, bi_numRestarts = of_nat ?r, bi_offset = 0,
      bi_nextOffset = 0, bi_key = [], bi_value = [], bi_err = False, bi_valid = False\<rparr>"
    unfolding NewBlockIterator_def Let_def num off by simp
  then show ?thesis using ok uE by (simp add: bi_frame_def)
qed

lemma chain_key_length: "chain prev es \<Longrightarrow> e \<in> set es \<Longrightarrow> length (fst (snd e)) \<le> length prev + length (block_bytes es)"
proof (induction prev es rule: chain.induct)
  case (2 prev sh k v es)
  have "length k \<le> sh + length (entry_bytes_of (sh, k, v))" "sh \<le> length prev"
    using 2(2) by (auto simp: entry_bytes_of_def)
  moreover have "length (fst (snd e)) \<le> length k + length (block_bytes es)" if "e \<in> set es" using 2 that by simp
  ultimately show ?case using 2(3) by fastforce
qed simp

lemma restarts_after: "es = fs @ e # gs \<Longrightarrow> length (block_bytes fs) < length (block_bytes es)"
proof -
  assume es: "es = fs @ e # gs"
  have "0 < length (entry_bytes_of e)" using length_entry_bytes [of e] by linarith
  then show ?thesis by (simp only: es) (simp del: length_greater_0_conv)
qed

lemma ParseEntry_rep:
  assumes frame: "bi_frame it es idx" and es: "es = fs @ (sh, k, v) # gs"
    and prev: "sh = 0 \<or> bi_key it = last_key [] fs"
  shows "ParseEntry it (length (block_bytes fs)) = Some (Some (k, v, length (entry_bytes_of (sh, k, v))))"
proof (rule ParseEntry_entry [where post = "block_bytes gs @ concat (map PutUint32 (restart_words es idx)) @
            PutUint32 (of_nat (length idx))"])
  have ok: "blk_ok (bi_data it) es idx" using frame by (simp add: bi_frame_def)
  then show "bi_data it = block_bytes fs @ entry_bytes_of (sh, k, v) @ block_bytes gs @
      concat (map PutUint32 (restart_words es idx)) @ PutUint32 (of_nat (length idx))"
    by (simp add: blk_ok_def es)
  show "length (block_bytes fs) < unat (bi_restarts it)" using frame restarts_after [OF es] by (simp add: bi_frame_def)
  have "chain [] es" using ok by (simp add: blk_ok_def)
  then have c: "sh \<le> length k" "sh \<le> length (last_key [] fs)" "take sh (last_key [] fs) = take sh k"
    by (simp_all add: es chain_append)
  then show "sh \<le> length k" "sh \<le> length (bi_key it)" "take sh (bi_key it) = take sh k" using prev by auto
  show "length (bi_data it) < 2 ^ 32" using ok by (rule blk_ok_small)
  moreover have "length k \<le> length (block_bytes es)"
    using chain_key_length [OF \<open>chain [] es\<close>, of "(sh, k, v)"] by (simp add: es)
  ultimately show "length k < 2 ^ 32" using blk_ok_length [OF ok] by linarith
qed

lemma ParseNext_rep:
  assumes frame: "bi_frame it es idx" and es: "es = fs @ e # gs" and off: "bi_nextOffset it = length (block_bytes fs)"
    and prev: "fst e = 0 \<or> bi_key it = last_key [] fs"
  shows "\<exists>it'. ParseNext it = Some (it', True) \<and> bi_frame it' es idx \<and> bi_at it' es (e # gs) \<and> bi_valid it'"
proof -
  obtain sh k v where e: "e = (sh, k, v)" by (cases e)
  let ?it = "it\<lparr>bi_offset := bi_nextOffset it\<rparr>"
  have "ParseEntry ?it (length (block_bytes fs)) = Some (Some (k, v, length (entry_bytes_of (sh, k, v))))"
    using frame es prev e by (intro ParseEntry_rep [of ?it es idx fs sh k v gs]) (auto simp: bi_frame_def)
  moreover have "\<not> bi_nextOffset it \<ge> unat (bi_restarts it)"
    using frame restarts_after [OF es] off by (simp add: bi_frame_def)
  ultimately show ?thesis
    using frame es off by (auto simp: ParseNext_def Let_def bi_frame_def bi_at_def e)
qed

lemma ParseNext_end:
  assumes "bi_frame it es idx" and "bi_nextOffset it = length (block_bytes es)"
  shows "ParseNext it = Some (it\<lparr>bi_valid := False\<rparr>, False)"
  using assms by (simp add: ParseNext_def bi_frame_def)

lemma Uint32_nth_word: "n < length ws \<Longrightarrow> Uint32 (drop (n * 4) (concat (map PutUint32 ws) @ xs)) = ws ! n"
proof (induction ws arbitrary: n)
  case (Cons w ws)
  then show ?case by (cases n) simp_all
qed simp

lemma GetRestartPoint_rep:
  assumes frame: "bi_frame it es idx" and j: "unat j < length idx"
  shows "GetRestartPoint it j = Some (of_nat (length (block_bytes (take (idx ! unat j) es))))"
proof -
  let ?E = "length (block_bytes es)"
  let ?rs = "restart_words es idx" and ?cnt = "PutUint32 (of_nat (length idx))"
  have ok: "blk_ok (bi_data it) es idx" "unat (bi_restarts it) = ?E" using frame by (simp_all add: bi_frame_def)
  have "?E + 4 * unat j < 2 ^ 32" using blk_ok_small [OF ok(1)] blk_ok_length [OF ok(1)] j by linarith
  then have off: "unat (bi_restarts it + j * 4) = ?E + unat j * 4"
    using ok(2) by (simp add: unat_word_ariths)
  have "Uint32 (drop (unat j * 4) (concat (map PutUint32 ?rs) @ ?cnt)) = ?rs ! unat j"
    using j by (intro Uint32_nth_word) simp
  moreover have "drop (?E + unat j * 4) (bi_data it) = drop (unat j * 4) (concat (map PutUint32 ?rs) @ ?cnt)"
    using ok(1) by (simp add: blk_ok_def)
  moreover have "?E + unat j * 4 + 4 \<le> length (bi_data it)" using blk_ok_length [OF ok(1)] j by simp
  ultimately show ?thesis unfolding GetRestartPoint_def Let_def off using j by simp
qed


lemma SeekToRestartPoint_rep:
  assumes frame: "bi_frame it es idx" and j: "unat j < length idx"
  shows "SeekToRestartPoint j it =
    Some (it\<lparr>bi_nextOffset := length (block_bytes (take (idx ! unat j) es)), bi_offset := length (block_bytes (take (idx ! unat j) es)),
      bi_valid := False\<rparr>)"
proof -
  have ok: "blk_ok (bi_data it) es idx" using frame by (simp add: bi_frame_def)
  have "block_bytes es = block_bytes (take (idx ! unat j) es) @ block_bytes (drop (idx ! unat j) es)"
    by (metis append_take_drop_id concat_append map_append)
  then have "length (block_bytes (take (idx ! unat j) es)) \<le> length (block_bytes es)" by (metis le_add1 length_append)
  also have "\<dots> < 2 ^ 32" using blk_ok_small [OF ok] blk_ok_length [OF ok] by linarith
  finally have "unat (of_nat (length (block_bytes (take (idx ! unat j) es))) :: u32) = length (block_bytes (take (idx ! unat j) es))"
    by (rule unat_of_nat_small)
  moreover have "\<not> j \<ge> bi_numRestarts it" using frame j by (simp add: bi_frame_def word_le_nat_alt)
  ultimately show ?thesis using GetRestartPoint_rep [OF frame j] by (simp add: SeekToRestartPoint_def)
qed

lemma bi_frame_update: "bi_frame (it\<lparr>bi_nextOffset := a, bi_offset := b, bi_valid := c\<rparr>) es idx = bi_frame it es idx"
  by (simp add: bi_frame_def)

lemma bi_SeekToFirst_rep:
  assumes frame: "bi_frame it es idx"
  shows "\<exists>it'. bi_SeekToFirst it = Some it' \<and> bi_frame it' es idx \<and> bi_at it' es es"
proof -
  have ok: "blk_ok (bi_data it) es idx" using frame by (simp add: bi_frame_def)
  have idx: "idx \<noteq> []" "idx ! 0 = 0" using ok by (auto simp: blk_ok_def hd_conv_nth)
  let ?it = "it\<lparr>bi_nextOffset := 0, bi_offset := 0, bi_valid := False\<rparr>"
  have s: "SeekToRestartPoint 0 it = Some ?it" using SeekToRestartPoint_rep [OF frame, of 0] idx by simp
  show ?thesis
  proof (cases es)
    case Nil
    then have "ParseNext ?it = Some (?it\<lparr>bi_valid := False\<rparr>, False)"
      using frame by (intro ParseNext_end [of _ es idx]) (simp_all add: bi_frame_update)
    then show ?thesis using s frame Nil by (simp add: bi_SeekToFirst_def bi_frame_def bi_at_def)
  next
    case (Cons e gs)
    have "fst e = 0" using ok Cons by (simp add: blk_ok_def)
    then obtain it' where "ParseNext ?it = Some (it', True)" "bi_frame it' es idx" "bi_at it' es (e # gs)"
      using ParseNext_rep [of ?it es idx "[]" e gs] frame Cons by (auto simp: bi_frame_update)
    then show ?thesis using s Cons by (simp add: bi_SeekToFirst_def)
  qed
qed

lemma bi_Next_rep:
  assumes frame: "bi_frame it es idx" and at: "bi_at it es (e # r)"
  shows "\<exists>it'. bi_Next it = Some it' \<and> bi_frame it' es idx \<and> bi_at it' es r"
proof -
  from at obtain fs where es: "es = fs @ e # r" "(bi_key it, bi_value it) = snd e"
    "bi_nextOffset it = length (block_bytes (fs @ [e]))" "bi_valid it"
    by (auto simp: bi_at_def split: if_splits)
  let ?it = "it\<lparr>bi_offset := bi_nextOffset it\<rparr>"
  have frame': "bi_frame ?it es idx" using frame by (simp add: bi_frame_def)
  have key: "bi_key it = last_key [] (fs @ [e])" using es(2) by (metis fst_conv last_key_def last_snoc snoc_eq_iff_butlast)
  show ?thesis
  proof (cases r)
    case Nil
    then have "bi_nextOffset it \<ge> unat (bi_restarts it)" using frame es by (simp add: bi_frame_def)
    then show ?thesis using frame Nil by (auto simp: bi_Next_def Let_def bi_frame_def bi_at_def)
  next
    case (Cons e' gs)
    then have es': "es = (fs @ [e]) @ e' # gs" using es(1) by simp
    then have "\<not> bi_nextOffset it \<ge> unat (bi_restarts it)"
      using frame restarts_after [OF es'] es(3) by (simp add: bi_frame_def)
    moreover obtain it' where "ParseNext ?it = Some (it', True)" "bi_frame it' es idx" "bi_at it' es (e' # gs)"
      using ParseNext_rep [OF frame' es'] es(3) key by auto
    ultimately show ?thesis using Cons by (simp add: bi_Next_def Let_def)
  qed
qed

interpretation block_iter: internal_iterator bi_ops bi_rep
proof
  fix it all rest
  assume "bi_rep it all rest"
  then obtain es idx r where r: "bi_frame it es idx" "bi_at it es r" "all = plain es" "rest = plain r"
    by (auto simp: bi_rep_def)
  show "\<exists>it'. op_SeekToFirst bi_ops it = Some it' \<and> bi_rep it' all all"
    using bi_SeekToFirst_rep [OF r(1)] r(3) by (auto simp: bi_ops_def bi_rep_def)
  show "op_Valid bi_ops it \<longleftrightarrow> rest \<noteq> []"
    using r(1,2,4) by (auto simp: bi_ops_def bi_Valid_def bi_frame_def bi_at_def split: if_splits)
next
  fix it all e rest
  assume "bi_rep it all (e # rest)"
  then obtain es idx a r where r: "bi_frame it es idx" "bi_at it es (a # r)" "all = plain es" "e = snd a" "rest = plain r"
    by (auto simp: bi_rep_def Cons_eq_map_conv)
  show "\<exists>it'. op_Next bi_ops it = Some it' \<and> bi_rep it' all rest"
    using bi_Next_rep [OF r(1,2)] r(3,5) by (auto simp: bi_ops_def bi_rep_def)
  have "(bi_key it, bi_value it) = e" using r(2,4) by (auto simp: bi_at_def split: if_splits)
  then show "op_Key bi_ops it = fst e" "op_Value bi_ops it = snd e" by (auto simp: bi_ops_def)
qed

lemma NewBlockIterator_rep: "blk_ok data es idx \<Longrightarrow> bi_rep (NewBlockIterator data) (plain es) []"
  using NewBlockIterator_frame [of data es idx] by (auto simp: bi_rep_def bi_at_def)

text \<open>Adding a run of entries.\<close>

definition build_block :: "entries \<Rightarrow> bytes" where
  "build_block es = snd (BlockBuilder_Finish (fold (\<lambda>(k, v). BlockBuilder_Add k v) es NewBlockBuilder))"

lemma bb_rep_adds:
  "bb_rep b es0 idx \<Longrightarrow> \<exists>es idx'. bb_rep (fold (\<lambda>(k, v). BlockBuilder_Add k v) es1 b) (es0 @ es) idx' \<and> plain es = es1"
proof (induction es1 arbitrary: b es0 idx)
  case Nil
  then show ?case by auto
next
  case (Cons e es1)
  obtain k v where e: "e = (k, v)" by (cases e)
  obtain sh idx' where "bb_rep (BlockBuilder_Add k v b) (es0 @ [(sh, k, v)]) idx'"
    using bb_rep_Add [OF Cons.prems] by blast
  from Cons.IH [OF this] obtain es idx'' where
    "bb_rep (fold (\<lambda>(k, v). BlockBuilder_Add k v) es1 (BlockBuilder_Add k v b)) ((es0 @ [(sh, k, v)]) @ es) idx''"
    "plain es = es1" by blast
  then show ?case by (intro exI [of _ "(sh, k, v) # es"] exI [of _ idx'']) (simp add: e)
qed

lemma build_block_ok:
  assumes "length (build_block es) < 2 ^ 32"
  shows "\<exists>cs idx. blk_ok (build_block es) cs idx \<and> plain cs = es"
  using bb_rep_adds [OF bb_rep_New, of es] blk_ok_Finish assms by (fastforce simp: build_block_def)

section \<open>Seeking inside a block\<close>

lemma restart_nth: "blk_ok data es idx \<Longrightarrow> j < length idx \<Longrightarrow> idx ! j = 0 \<or> restart_at es (idx ! j)"
  unfolding blk_ok_def using nth_mem by blast

lemma restart_split:
  assumes ok: "blk_ok data es idx" and j: "j < length idx" and ne: "es \<noteq> []"
  shows "\<exists>e. es = take (idx ! j) es @ e # drop (Suc (idx ! j)) es \<and> fst e = 0 \<and> es ! (idx ! j) = e"
proof -
  have "idx ! j = 0 \<or> restart_at es (idx ! j)" using restart_nth [OF ok j] .
  moreover have "restart_at es 0" using ok ne by (simp add: blk_ok_def restart_at_def hd_conv_nth)
  ultimately have "restart_at es (idx ! j)" by auto
  then show ?thesis using id_take_nth_drop [of "idx ! j" es] unfolding restart_at_def by blast
qed

lemma restart_pos_small:
  assumes ok: "blk_ok data es idx"
  shows "unat (of_nat (length (block_bytes (take i es))) :: u32) = length (block_bytes (take i es))"
proof -
  have "block_bytes es = block_bytes (take i es) @ block_bytes (drop i es)"
    by (metis append_take_drop_id concat_append map_append)
  then have "length (block_bytes (take i es)) \<le> length (block_bytes es)" by (metis le_add1 length_append)
  also have "\<dots> < 2 ^ 32" using blk_ok_small [OF ok] blk_ok_length [OF ok] by linarith
  finally show ?thesis by (rule unat_of_nat_small)
qed

text \<open>The midpoint of the search lies between its bounds: no sum of two restart numbers wraps.\<close>

lemma seek_mid:
  fixes left right :: u32
  assumes "left < right" and "unat right < 2 ^ 30"
  shows "unat ((left + right + 1) div 2) = (unat left + unat right + 1) div 2"
    and "unat left < (unat left + unat right + 1) div 2" "(unat left + unat right + 1) div 2 \<le> unat right"
proof -
  have lt: "unat left < unat right" using assms(1) by (simp add: word_less_nat_alt)
  have "unat (left + right + 1) = unat left + unat right + 1"
    using lt assms(2) by (simp add: unat_word_ariths)
  then show "unat ((left + right + 1) div 2) = (unat left + unat right + 1) div 2" by (simp add: unat_div)
  show "unat left < (unat left + unat right + 1) div 2" "(unat left + unat right + 1) div 2 \<le> unat right"
    using lt by presburger+
qed

lemma seek_restart_rep:
  assumes frame: "bi_frame it es idx" and lr: "unat left \<le> unat right" "unat right < length idx"
    and inv: "left = 0 \<or> fst (snd (es ! (idx ! unat left))) < target"
  shows "\<exists>j. seek_restart target left right it = Some (Some j) \<and> unat j < length idx \<and>
    (j = 0 \<or> fst (snd (es ! (idx ! unat j))) < target)"
  using lr inv
proof (induction "unat right - unat left" arbitrary: left right rule: less_induct)
  case less
  have ok: "blk_ok (bi_data it) es idx" using frame by (simp add: bi_frame_def)
  show ?case
  proof (cases "left < right")
    case False
    then show ?thesis using less.prems by (subst seek_restart.simps) auto
  next
    case True
    have r: "unat right < 2 ^ 30" using less.prems(2) blk_ok_small [OF ok] blk_ok_length [OF ok] by simp
    let ?mid = "(left + right + 1) div 2" and ?m = "(unat left + unat right + 1) div 2"
    note mid = seek_mid [OF True r]
    have m: "?m < length idx" "0 < ?m" using mid less.prems(2) by linarith+
    have "idx ! ?m \<noteq> 0" using ok m sorted_wrt_nth_less [of "(<)" idx 0 ?m] by (auto simp: blk_ok_def)
    then have ra: "restart_at es (idx ! ?m)" using restart_nth [OF ok m(1)] by simp
    then have ne: "es \<noteq> []" by (auto simp: restart_at_def)
    obtain e where e: "es = take (idx ! ?m) es @ e # drop (Suc (idx ! ?m)) es" "fst e = 0" "es ! (idx ! ?m) = e"
      using restart_split [OF ok m(1)] ne by blast
    obtain k v where ekv: "e = (0, k, v)" using e(2) by (cases e) auto
    have parse: "ParseEntry it (length (block_bytes (take (idx ! ?m) es))) = Some (Some (k, v, length (entry_bytes_of (0, k, v))))"
      using ParseEntry_rep [OF frame e(1) [unfolded ekv]] by blast
    have get: "GetRestartPoint it ?mid = Some (of_nat (length (block_bytes (take (idx ! ?m) es))))"
      using GetRestartPoint_rep [OF frame, of ?mid] m mid(1) by simp
    have step: "seek_restart target left right it =
        (if k < target then seek_restart target ?mid right it else seek_restart target left (?mid - 1) it)"
      using True by (subst seek_restart.simps)
        (simp only: Let_def get bind.bind_lunit restart_pos_small [OF ok] parse option.case prod.case bytes_Compare_less if_True)
    have um: "unat (?mid - 1) = ?m - 1" using mid m(2) by (subst unat_minus_one) auto
    show ?thesis
    proof (cases "k < target")
      case True
      then have "?mid = 0 \<or> fst (snd (es ! (idx ! unat ?mid))) < target" using e(3) ekv mid(1) by simp
      then show ?thesis using less.hyps [of right ?mid] less.prems mid step True by simp
    next
      case False
      then show ?thesis using less.hyps [of "?mid - 1" left] less.prems mid um m step by simp
    qed
  qed
qed

lemma seek_linear_rep:
  assumes "bi_frame it es idx" and "es = fs @ gs" and "bi_nextOffset it = length (block_bytes fs)"
    and "gs = [] \<or> fst (hd gs) = 0 \<or> bi_key it = last_key [] fs"
  shows "\<exists>it'. seek_linear target it = Some it' \<and> bi_frame it' es idx \<and>
    bi_at it' es (dropWhile (\<lambda>e. fst (snd e) < target) gs)"
  using assms
proof (induction gs arbitrary: it fs)
  case Nil
  then have "ParseNext it = Some (it\<lparr>bi_valid := False\<rparr>, False)" using ParseNext_end [of it es idx] by simp
  then show ?case using Nil by (subst seek_linear.simps) (simp add: bi_frame_def bi_at_def)
next
  case (Cons e gs)
  obtain it' where it': "ParseNext it = Some (it', True)" "bi_frame it' es idx" "bi_at it' es (e # gs)" "bi_valid it'"
    using ParseNext_rep [OF Cons.prems(1,2,3)] Cons.prems(4) by auto
  then have key: "(bi_key it', bi_value it') = snd e" "bi_nextOffset it' = length (block_bytes (fs @ [e]))"
    using Cons.prems(2) by (auto simp: bi_at_def)
  then have k: "bi_key it' = fst (snd e)" by (metis fst_conv)
  show ?case
  proof (cases "fst (snd e) < target")
    case True
    have "\<exists>it''. seek_linear target it' = Some it'' \<and> bi_frame it'' es idx \<and>
        bi_at it'' es (dropWhile (\<lambda>e. fst (snd e) < target) gs)"
      using Cons.prems(2) it' key k by (intro Cons.IH [of it' "fs @ [e]"]) (auto simp: last_key_def)
    moreover have "\<not> 0 \<le> bytes_Compare (bi_key it') target" using True k bytes_Compare_less [of "bi_key it'" target] by simp
    ultimately show ?thesis using it'(1) True by (subst seek_linear.simps) simp
  next
    case False
    then have "\<not> bytes_Compare (bi_key it') target < 0" by (simp add: bytes_Compare_less k)
    then show ?thesis using it' False by (subst seek_linear.simps) simp
  qed
qed

abbreviation bytewise_sorted :: "entries \<Rightarrow> bool" where
  "bytewise_sorted es \<equiv> sorted_wrt (<) (map fst es)"

lemma dropWhile_take_drop: "(\<And>x. x \<in> set (take i xs) \<Longrightarrow> P x) \<Longrightarrow> dropWhile P (drop i xs) = dropWhile P xs"
  by (metis append_take_drop_id dropWhile_append2)

lemma bi_Seek_rep:
  assumes frame: "bi_frame it es idx" and sorted: "bytewise_sorted (plain es)"
  shows "\<exists>it'. bi_Seek target it = Some it' \<and> bi_frame it' es idx \<and>
    bi_at it' es (dropWhile (\<lambda>e. fst (snd e) < target) es)"
proof -
  have ok: "blk_ok (bi_data it) es idx" and num: "unat (bi_numRestarts it) = length idx" using frame by (simp_all add: bi_frame_def)
  have "idx \<noteq> []" "idx ! 0 = 0" using ok by (auto simp: blk_ok_def hd_conv_nth)
  then have "unat (bi_numRestarts it - 1) = length idx - 1" using num by (subst unat_minus_one) auto
  then obtain j where j: "seek_restart target 0 (bi_numRestarts it - 1) it = Some (Some j)" "unat j < length idx"
    "j = 0 \<or> fst (snd (es ! (idx ! unat j))) < target"
    using seek_restart_rep [OF frame, of 0 "bi_numRestarts it - 1" target] \<open>idx \<noteq> []\<close> by (auto simp: neq_Nil_conv)
  let ?i = "idx ! unat j" and ?L = "\<lambda>e. fst (snd e) < target"
  let ?it = "it\<lparr>bi_nextOffset := length (block_bytes (take ?i es)), bi_offset := length (block_bytes (take ?i es)), bi_valid := False\<rparr>"
  have below: "?L e" if "e \<in> set (take ?i es)" for e
  proof -
    obtain a where a: "a < ?i" "a < length es" "e = es ! a" using \<open>e \<in> set (take ?i es)\<close> by (auto simp: in_set_conv_nth)
    then have "unat j \<noteq> 0" using \<open>idx ! 0 = 0\<close> by (metis not_less0)
    then have "fst (snd (es ! ?i)) < target" "restart_at es ?i"
      using j restart_nth [OF ok j(2)] a by auto
    moreover have "fst (snd (es ! a)) < fst (snd (es ! ?i))"
      using sorted_wrt_nth_less [OF sorted, of a ?i] a \<open>restart_at es ?i\<close> by (simp add: restart_at_def)
    ultimately show ?thesis using a by simp
  qed
  have hd: "drop ?i es = [] \<or> fst (hd (drop ?i es)) = 0 \<or> bi_key ?it = last_key [] (take ?i es)"
    using restart_split [OF ok j(2)] by (metis Cons_nth_drop_Suc drop_Nil drop_eq_Nil linorder_not_less list.sel(1))
  obtain it' where "seek_linear target ?it = Some it'" "bi_frame it' es idx" "bi_at it' es (dropWhile ?L (drop ?i es))"
    using seek_linear_rep [of ?it es idx "take ?i es" "drop ?i es" target] frame hd by (auto simp: bi_frame_update)
  then show ?thesis
    using j(1) SeekToRestartPoint_rep [OF frame j(2)] dropWhile_take_drop [of ?i es ?L, OF below] by (simp add: bi_Seek_def)
qed

lemma plain_dropWhile: "plain (dropWhile (\<lambda>e. P (snd e)) es) = dropWhile P (plain es)"
  by (induction es) auto

lemma bi_Seek_bi_rep:
  assumes "bi_rep it all rest" and "bytewise_sorted all"
  shows "\<exists>it'. bi_Seek target it = Some it' \<and> bi_rep it' all (dropWhile (\<lambda>e. fst e < target) all)"
proof -
  obtain es idx r where r: "bi_frame it es idx" "all = plain es" using assms(1) by (auto simp: bi_rep_def)
  obtain it' where "bi_Seek target it = Some it'" "bi_frame it' es idx" "bi_at it' es (dropWhile (\<lambda>e. fst (snd e) < target) es)"
    using bi_Seek_rep [OF r(1)] assms(2) r(2) by blast
  then show ?thesis using r(2) plain_dropWhile [of "\<lambda>e. fst e < target" es] unfolding bi_rep_def by metis
qed

lemma putVarint_short [evaluate]: "n < 128 \<Longrightarrow> length (putVarint n) = 1"
  by (simp add: putVarint_def PutUvarint.simps [of "of_nat n"] word_less_nat_alt unat_of_nat)

lemmas block_build = BlockBuilder_Finish_def BlockBuilder_Add_def NewBlockBuilder_def restartInterval_def length_restarts

section \<open>Properties\<close>

text \<open>C32. A block holds what was put into it: adding any entries in any order, finishing the block and
  reading it from the first entry on returns exactly those entries, byte for byte, across prefix
  compression and restart points, as long as the block is smaller than \<open>2 ^ 32\<close> bytes.\<close>

theorem block_roundtrip:
  assumes "length (build_block es) < 2 ^ 32"
  shows "Option.bind (bi_SeekToFirst (NewBlockIterator (build_block es))) (drain bi_ops (length es)) = Some es"
proof -
  obtain cs idx where "blk_ok (build_block es) cs idx" "plain cs = es" using build_block_ok [OF assms] by blast
  then have "bi_rep (NewBlockIterator (build_block es)) es []" using NewBlockIterator_rep by blast
  from block_iter.seek_drain [OF this, of "length es"] show ?thesis by (simp add: bi_ops_def)
qed

theorem block_roundtrip_witness:
  "length (build_block [([97, 98, 1], [7]), ([97, 98, 2], []), ([97, 99, 2], [8, 9])]) < 2 ^ 32 \<and>
   Option.bind (bi_SeekToFirst (NewBlockIterator (build_block [([97, 98, 1], [7]), ([97, 98, 2], []), ([97, 99, 2], [8, 9])])))
     (drain bi_ops 3) = Some [([97, 98, 1], [7]), ([97, 98, 2], []), ([97, 99, 2], [8, 9])]"
proof -
  have b: "length (build_block [([97, 98, 1], [7]), ([97, 98, 2], []), ([97, 99, 2], [8, 9])]) < 2 ^ 32"
    by (simp add: build_block_def block_build evaluate Let_def)
  show ?thesis using b block_roundtrip [OF b] by (simp add: numeral_3_eq_3)
qed

text \<open>C15. Seeking in a block whose keys ascend bytewise positions the iterator on the first entry whose key
  is at or after the target, exactly as a linear search over all entries would, and reading on from there
  returns the rest of the block: the binary search over the restart points never skips an entry, ends, and
  none of its sums wraps.\<close>

theorem block_seek:
  assumes "length (build_block es) < 2 ^ 32" and "bytewise_sorted es"
  shows "Option.bind (bi_Seek target (NewBlockIterator (build_block es))) (drain bi_ops (length es)) =
    Some (dropWhile (\<lambda>e. fst e < target) es)"
proof -
  obtain cs idx where "blk_ok (build_block es) cs idx" "plain cs = es" using build_block_ok [OF assms(1)] by blast
  then have "bi_rep (NewBlockIterator (build_block es)) es []" using NewBlockIterator_rep by blast
  then obtain it where it: "bi_Seek target (NewBlockIterator (build_block es)) = Some it"
    "bi_rep it es (dropWhile (\<lambda>e. fst e < target) es)" using bi_Seek_bi_rep assms(2) by blast
  from block_iter.drain_rest [OF it(2), of "length es"] it(1) show ?thesis by (simp add: length_dropWhile_le)
qed

theorem block_seek_witness:
  "length (build_block [([97], [7]), ([98], []), ([98, 1], [8, 9])]) < 2 ^ 32 \<and>
   Option.bind (bi_Seek [97, 5] (NewBlockIterator (build_block [([97], [7]), ([98], []), ([98, 1], [8, 9])]))) (drain bi_ops 3) =
     Some [([98], []), ([98, 1], [8, 9])]"
proof -
  have b: "length (build_block [([97], [7]), ([98], []), ([98, 1], [8, 9])]) < 2 ^ 32"
    by (simp add: build_block_def block_build evaluate Let_def)
  show ?thesis using b block_seek [OF b, of "[97, 5]"] by (simp add: numeral_3_eq_3)
qed

end
