(* ===== verification/SST_Format.thy ===== *)
theory SST_Format
  imports Go_Std
begin

text \<open>
  Package \<^verbatim>\<open>sstable\<close>: the filter policy (\<^verbatim>\<open>filter.go\<close>) and the fixed-size pieces of a table file
  (\<^verbatim>\<open>table.go\<close>).  A run-time panic (a slice too short, a modulus of zero, an allocation that cannot be
  made) is \<open>None\<close>.
\<close>

section \<open>table.go\<close>

definition ErrCorruptSSTable :: go_err where
  "ErrCorruptSSTable = Err ''corrupt sstable''"

definition ErrBlockCorrupt :: go_err where
  "ErrBlockCorrupt = Err ''corrupt block''"

definition MagicNumber :: u64 where
  "MagicNumber = 0x5645524E00000008"

definition FooterSize :: nat where
  "FooterSize = 16 + 16 + 8"

record BlockHandle =
  Offset :: u64
  Length :: u64

definition BlockHandle_EncodeTo :: "BlockHandle \<Rightarrow> bytes" where
  "BlockHandle_EncodeTo h = PutUint64 (Offset h) @ PutUint64 (Length h)"

definition DecodeBlockHandle :: "bytes \<Rightarrow> BlockHandle option" where
  "DecodeBlockHandle src =
     (if length src < 16 then None else Some \<lparr>Offset = Uint64 src, Length = Uint64 (drop 8 src)\<rparr>)"

record Footer =
  MetaindexHandle :: BlockHandle
  IndexHandle :: BlockHandle

definition Footer_EncodeTo :: "Footer \<Rightarrow> bytes" where
  "Footer_EncodeTo f =
     BlockHandle_EncodeTo (MetaindexHandle f) @ BlockHandle_EncodeTo (IndexHandle f) @ PutUint64 MagicNumber"

definition DecodeFooter :: "bytes \<Rightarrow> Footer res" where
  "DecodeFooter src =
     (if length src < FooterSize then Inl ErrCorruptSSTable
      else if Uint64 (drop 32 src) \<noteq> MagicNumber then Inl ErrCorruptSSTable
      else case (DecodeBlockHandle src, DecodeBlockHandle (drop 16 src)) of
             (Some m, Some i) \<Rightarrow> Inr \<lparr>MetaindexHandle = m, IndexHandle = i\<rparr>
           | _ \<Rightarrow> Inl (Panic ''slice bounds out of range''))"

lemma length_handle [simp, layout]: "length (BlockHandle_EncodeTo h) = 16"
  by (simp add: BlockHandle_EncodeTo_def)

lemma DecodeBlockHandle_EncodeTo [simp, codec]: "DecodeBlockHandle (BlockHandle_EncodeTo h @ rest) = Some h"
  by (simp add: DecodeBlockHandle_def BlockHandle_EncodeTo_def)

lemma DecodeBlockHandle_exact [simp]: "DecodeBlockHandle (BlockHandle_EncodeTo h) = Some h"
  using DecodeBlockHandle_EncodeTo [of h "[]"] by simp

lemma length_footer [simp, layout]: "length (Footer_EncodeTo f) = FooterSize"
  by (simp add: Footer_EncodeTo_def FooterSize_def)

lemma DecodeFooter_append: "DecodeFooter (Footer_EncodeTo f @ rest) = Inr f"
proof -
  let ?src = "Footer_EncodeTo f @ rest"
  have m: "drop 32 ?src = PutUint64 MagicNumber @ rest"
    by (simp add: Footer_EncodeTo_def)
  have i: "drop 16 ?src = BlockHandle_EncodeTo (IndexHandle f) @ PutUint64 MagicNumber @ rest"
    by (simp add: Footer_EncodeTo_def)
  have "DecodeBlockHandle ?src = Some (MetaindexHandle f)" by (simp add: Footer_EncodeTo_def)
  then show ?thesis unfolding DecodeFooter_def m i by simp
qed

lemma DecodeFooter_EncodeTo [simp, codec]: "DecodeFooter (Footer_EncodeTo f) = Inr f"
  using DecodeFooter_append [of f "[]"] by simp

lemma DecodeFooter_sound:
  assumes "DecodeFooter src = Inr f"
  shows "take FooterSize src = Footer_EncodeTo f"
proof -
  let ?m = "\<lparr>Offset = Uint64 src, Length = Uint64 (drop 8 src)\<rparr>"
  let ?i = "\<lparr>Offset = Uint64 (drop 16 src), Length = Uint64 (drop 24 src)\<rparr>"
  from assms have len: "40 \<le> length src" and magic: "Uint64 (drop 32 src) = MagicNumber"
    and f: "f = \<lparr>MetaindexHandle = ?m, IndexHandle = ?i\<rparr>"
    by (auto simp: DecodeFooter_def DecodeBlockHandle_def FooterSize_def split: if_splits)
  have piece: "PutUint64 (Uint64 (drop n src)) = take 8 (drop n src)" if "n \<le> 32" for n
    using that len by (intro PutUint64_Uint64) simp
  have "take (8 + 8 + 8 + 8 + 8) src =
      take 8 src @ take 8 (drop 8 src) @ take 8 (drop 16 src) @ take 8 (drop 24 src) @ take 8 (drop 32 src)"
    by (simp only: take_add drop_drop append_assoc) simp
  then show ?thesis
    using piece [of 0] piece [of 8] piece [of 16] piece [of 24] piece [of 32]
    by (simp add: f Footer_EncodeTo_def BlockHandle_EncodeTo_def FooterSize_def magic [symmetric])
qed

section \<open>filter.go\<close>

record BloomFilter =
  bitsPerKey :: int

definition NewBloomFilter :: "int \<Rightarrow> BloomFilter" where
  "NewBloomFilter n = \<lparr>bitsPerKey = n\<rparr>"

definition filter_Name :: "BloomFilter \<Rightarrow> string" where
  "filter_Name f = ''vern.filter.bloom''"

definition hash :: "bytes \<Rightarrow> u32" where
  "hash b = ChecksumIEEE b"

text \<open>The number of probes, \<^verbatim>\<open>int(float64(bitsPerKey) * 0.69)\<close> clamped to 1..30.  For \<^verbatim>\<open>bitsPerKey\<close> from 1
  to 43 the product is at least 0.01 away from every integer, so the floating-point product truncates to
  the exact quotient; outside that range both are clamped to the same bound.\<close>

definition num_probes :: "BloomFilter \<Rightarrow> nat" where
  "num_probes f =
     (let k = bitsPerKey f * 69 div 100; k = (if k < 1 then 1 else k) in nat (if k > 30 then 30 else k))"

definition rot17 :: "u32 \<Rightarrow> u32" where
  "rot17 h = drop_bit 17 h OR push_bit 15 h"

definition bit_mask :: "u32 \<Rightarrow> byte" where
  "bit_mask bitPos = push_bit (unat (bitPos mod 8)) 1"

fun set_probes :: "nat \<Rightarrow> u32 \<Rightarrow> u32 \<Rightarrow> u32 \<Rightarrow> bytes \<Rightarrow> bytes" where
  "set_probes 0 bits h delta flt = flt"
| "set_probes (Suc i) bits h delta flt =
     (let bitPos = h mod bits; j = unat (bitPos div 8)
      in set_probes i bits (h + delta) delta (flt[j := flt ! j OR bit_mask bitPos]))"

definition filter_bits :: "BloomFilter \<Rightarrow> nat \<Rightarrow> int" where
  "filter_bits f n = (let bits = sint (of_nat n * of_int (bitsPerKey f) :: u64) in if bits < 64 then 64 else bits)"

definition CreateFilter :: "BloomFilter \<Rightarrow> bytes list \<Rightarrow> bytes option" where
  "CreateFilter f keys =
     (let nbytes = (filter_bits f (length keys) + 7) div 8;
          bits = of_int (nbytes * 8) :: u32;
          k = num_probes f
      in if nbytes + 1 > maxAlloc then None
         else if bits = 0 \<and> keys \<noteq> [] then None
         else Some (fold (\<lambda>key. set_probes k bits (hash key) (rot17 (hash key))) keys (replicate (nat nbytes) 0 @ [of_nat k])))"

fun test_probes :: "nat \<Rightarrow> u32 \<Rightarrow> u32 \<Rightarrow> u32 \<Rightarrow> bytes \<Rightarrow> bool" where
  "test_probes 0 bits h delta flt \<longleftrightarrow> True"
| "test_probes (Suc i) bits h delta flt \<longleftrightarrow>
     (let bitPos = h mod bits
      in if flt ! unat (bitPos div 8) AND bit_mask bitPos = 0 then False
         else test_probes i bits (h + delta) delta flt)"

definition KeyMayMatch :: "BloomFilter \<Rightarrow> bytes \<Rightarrow> bytes \<Rightarrow> bool option" where
  "KeyMayMatch f key flt =
     (let n = length flt
      in if n < 2 then Some False
         else let bits = of_nat ((n - 1) * 8) :: u32; k = unat (flt ! (n - 1))
              in if k > 30 then Some True
                 else if bits = 0 \<and> k > 0 then None
                 else Some (test_probes k bits (hash key) (rot17 (hash key)) flt))"

section \<open>The filter policy as an interface\<close>

text \<open>What builder and reader rely on: a filter made for a set of keys answers yes for each of them.  A
  policy may fail to make a filter, but not for sizes up to its limit.\<close>

locale filter_policy =
  fixes create :: "bytes list \<Rightarrow> bytes option"
    and may_match :: "bytes \<Rightarrow> bytes \<Rightarrow> bool option"
    and limit :: nat
  assumes create_total: "length keys \<le> limit \<Longrightarrow> \<exists>flt. create keys = Some flt"
    and no_false_negative: "create keys = Some flt \<Longrightarrow> k \<in> set keys \<Longrightarrow> may_match k flt = Some True"
begin

lemma missing_key: "create keys = Some flt \<Longrightarrow> may_match k flt \<noteq> Some True \<Longrightarrow> k \<notin> set keys"
  using no_false_negative by blast

lemma filter_exists: "length keys \<le> limit \<Longrightarrow> \<exists>flt. create keys = Some flt \<and> (\<forall>k\<in>set keys. may_match k flt = Some True)"
  using create_total no_false_negative by blast

end

section \<open>Probes\<close>

definition probed :: "bytes \<Rightarrow> u32 \<Rightarrow> bool" where
  "probed flt p \<longleftrightarrow> flt ! unat (p div 8) AND bit_mask p \<noteq> 0"

lemma bit_mask_bit: "bit (bit_mask p) n \<longleftrightarrow> n = unat (p mod 8)"
proof -
  have "unat (p mod 8) < 8" by (simp add: unat_mod_distrib)
  then show ?thesis by (auto simp: bit_mask_def push_bit_of_1 bit_exp_iff)
qed

lemma probed_bit: "probed flt p \<longleftrightarrow> bit (flt ! unat (p div 8)) (unat (p mod 8))"
proof -
  have "unat (p mod 8) < 8" by (simp add: unat_mod_distrib)
  then have "probed flt p \<longleftrightarrow> (\<exists>n<8. bit (flt ! unat (p div 8) AND bit_mask p) n)"
    by (auto simp: probed_def bit_eq_iff)
  then show ?thesis using \<open>unat (p mod 8) < 8\<close> by (simp only: bit_and_iff bit_mask_bit) blast
qed

lemma length_set_probes [simp]: "length (set_probes i bits h delta flt) = length flt"
  by (induction i bits h delta flt rule: set_probes.induct) (simp_all add: Let_def)

lemma set_probes_last: "(\<And>p. unat ((p mod bits) div 8) \<noteq> j) \<Longrightarrow> set_probes i bits h delta flt ! j = flt ! j"
  by (induction i bits h delta flt rule: set_probes.induct) (simp_all add: Let_def)

lemma set_probes_keeps: "probed flt p \<Longrightarrow> probed (set_probes i bits h delta flt) p"
proof (induction i bits h delta flt rule: set_probes.induct)
  case (2 i bits h delta flt)
  let ?q = "h mod bits" and ?j = "unat (h mod bits div 8)"
  have "probed (flt[?j := flt ! ?j OR bit_mask ?q]) p"
    using 2(2) by (cases "?j < length flt"; cases "unat (p div 8) = ?j") (auto simp: probed_bit bit_or_iff list_update_beyond)
  then show ?case using 2(1) by (simp add: Let_def)
qed simp

lemma set_probes_sets:
  assumes "\<And>p. unat ((p mod bits) div 8) < length flt"
  shows "test_probes i bits h delta (set_probes i bits h delta flt)"
  using assms
proof (induction i bits h delta flt rule: set_probes.induct)
  case (2 i bits h delta flt)
  let ?q = "h mod bits" and ?j = "unat (h mod bits div 8)"
  let ?f = "flt[?j := flt ! ?j OR bit_mask ?q]"
  have "probed ?f ?q" using 2(2) [of h] by (simp add: probed_bit bit_or_iff bit_mask_bit)
  then have "probed (set_probes i bits (h + delta) delta ?f) ?q" by (rule set_probes_keeps)
  then show ?case using 2(1) [OF refl refl] 2(2) by (simp add: Let_def probed_def)
qed simp

lemma test_probes_mono:
  "(\<And>p. probed f p \<Longrightarrow> probed g p) \<Longrightarrow> test_probes i bits h delta f \<Longrightarrow> test_probes i bits h delta g"
  by (induction i bits h delta f rule: test_probes.induct) (auto simp: Let_def probed_def split: if_splits)

lemma fold_set_probes_keeps:
  "probed flt p \<Longrightarrow> probed (fold (\<lambda>key. set_probes k bits (hash key) (rot17 (hash key))) keys flt) p"
  by (induction keys arbitrary: flt) (simp_all add: set_probes_keeps)

lemma fold_set_probes:
  assumes "\<And>p. unat ((p mod bits) div 8) < length flt - 1" and "flt \<noteq> []"
    and "g = fold (\<lambda>key. set_probes k bits (hash key) (rot17 (hash key))) keys flt"
  shows "length g = length flt \<and> last g = last flt \<and>
    (\<forall>key\<in>set keys. test_probes k bits (hash key) (rot17 (hash key)) g)"
  using assms
proof (induction keys arbitrary: flt g)
  case (Cons key keys)
  let ?f = "set_probes k bits (hash key) (rot17 (hash key)) flt"
  have last: "last ?f = last flt"
  proof -
    have "?f ! (length flt - 1) = flt ! (length flt - 1)"
      using Cons.prems(1) by (intro set_probes_last) (metis less_irrefl)
    moreover have "?f \<noteq> []" using Cons.prems(2) by (metis length_0_conv length_set_probes)
    ultimately show ?thesis using Cons.prems(2) by (simp add: last_conv_nth)
  qed
  have "test_probes k bits (hash key) (rot17 (hash key)) ?f"
    using Cons.prems(1) by (intro set_probes_sets) (rule less_le_trans, assumption, simp)
  then have "test_probes k bits (hash key) (rot17 (hash key)) (fold (\<lambda>key. set_probes k bits (hash key) (rot17 (hash key))) keys ?f)"
    using test_probes_mono fold_set_probes_keeps by blast
  then have here: "test_probes k bits (hash key) (rot17 (hash key)) g" using Cons.prems(3) by simp
  have ne: "?f \<noteq> []" using Cons.prems(2) by (metis length_0_conv length_set_probes)
  have pos: "unat (p mod bits div 8) < length ?f - 1" for p unfolding length_set_probes by (rule Cons.prems(1))
  have "g = fold (\<lambda>key. set_probes k bits (hash key) (rot17 (hash key))) keys ?f" using Cons.prems(3) by simp
  from Cons.IH [OF pos ne this] here last show ?case by simp
qed simp

lemma num_probes_bounds: "1 \<le> num_probes f" "num_probes f \<le> 30"
  by (auto simp: num_probes_def Let_def)

lemma filter_bits_ge: "64 \<le> filter_bits f n"
  by (simp add: filter_bits_def Let_def)

lemma unat_of_int_le: "0 \<le> i \<Longrightarrow> unat (of_int i :: 'a::len word) \<le> nat i"
  by (simp add: unsigned_of_int nat_le_eq_zle take_bit_eq_mod zmod_le_nonneg_dividend)

lemma CreateFilter_matches:
  assumes c: "CreateFilter f keys = Some flt" and k: "k \<in> set keys"
  shows "KeyMayMatch f' k flt = Some True"
proof -
  let ?nb = "(filter_bits f (length keys) + 7) div 8" and ?k = "num_probes f"
  let ?bits = "of_int (?nb * 8) :: u32" and ?f0 = "replicate (nat ?nb) 0 @ [of_nat ?k :: byte]"
  have nb: "8 \<le> ?nb" "0 \<le> ?nb" using filter_bits_ge [of f "length keys"] by linarith+
  have bits: "?bits \<noteq> 0" and flt: "flt = fold (\<lambda>key. set_probes ?k ?bits (hash key) (rot17 (hash key))) keys ?f0"
    using c k by (auto simp: CreateFilter_def Let_def split: if_splits)
  have "unat (p mod ?bits div 8) < length ?f0 - 1" for p
  proof -
    have "unat (p mod ?bits) < unat ?bits" using bits by (metis unat_mod_distrib mod_less_divisor unat_gt_0)
    moreover have "unat ?bits \<le> nat (?nb * 8)" using nb by (intro unat_of_int_le) simp
    ultimately have "unat (p mod ?bits) < nat ?nb * 8" using nb by (simp only: nat_mult_distrib) simp
    then show ?thesis by (simp add: unat_div less_mult_imp_div_less)
  qed
  from fold_set_probes [OF this _ flt] have g: "length flt = nat ?nb + 1" "last flt = of_nat ?k"
    "test_probes ?k ?bits (hash k) (rot17 (hash k)) flt"
    using k by auto
  then have "flt ! (length flt - 1) = of_nat ?k" by (metis Suc_eq_plus1 last_conv_nth length_0_conv nat.simps(3))
  moreover have "unat (of_nat ?k :: byte) = ?k" using num_probes_bounds(2) [of f] by (simp add: unat_of_nat)
  moreover have "of_nat ((length flt - 1) * 8) = ?bits" using g(1) nb by simp
  moreover have "\<not> length flt < 2" using g(1) nb by simp
  ultimately show ?thesis using g(3) bits num_probes_bounds(2) [of f] by (simp add: KeyMayMatch_def)
qed

lemma CreateFilter_total:
  assumes "length keys \<le> 2 ^ 28"
  shows "\<exists>flt. CreateFilter (NewBloomFilter 10) keys = Some flt \<and> length flt \<le> 2 * length keys + 10"
proof -
  let ?f = "NewBloomFilter 10"
  let ?nb = "(filter_bits ?f (length keys) + 7) div 8"
  have "sint (of_nat (length keys) * of_int 10 :: u64) = int (length keys) * 10"
  proof -
    have "of_nat (length keys) * of_int 10 = (of_int (int (length keys) * 10) :: u64)" by simp
    then show ?thesis using assms by (simp only: signed_of_int) (simp add: signed_take_bit_int_eq_self)
  qed
  then have b: "filter_bits ?f (length keys) = max 64 (int (length keys) * 10)"
    by (auto simp: filter_bits_def NewBloomFilter_def)
  have "int (length keys) \<le> 2 ^ 28" using assms by simp
  with b have nb: "8 \<le> ?nb" "?nb \<le> 2 ^ 28 + 2 ^ 27" "?nb \<le> 2 * int (length keys) + 9" by simp_all
  have "uint (of_int (?nb * 8) :: u32) = ?nb * 8" using nb by (simp only: unsigned_of_int) (simp add: take_bit_int_eq_self)
  then have "of_int (?nb * 8) \<noteq> (0 :: u32)" using nb by (metis mult_eq_0_iff not_numeral_le_zero unsigned_0 zero_neq_numeral)
  moreover have "length (fold (\<lambda>key. set_probes k bits (hash key) (rot17 (hash key))) keys g) = length g" for k bits keys g
    by (induction keys arbitrary: g) simp_all
  ultimately show ?thesis using nb by (simp add: CreateFilter_def Let_def maxAlloc_def)
qed

interpretation bloom: filter_policy "CreateFilter (NewBloomFilter 10)" "KeyMayMatch (NewBloomFilter 10)" "2 ^ 28"
  using CreateFilter_total CreateFilter_matches by unfold_locales blast+

section \<open>Properties\<close>

text \<open>C18. The Bloom filter has no false negatives: for up to \<open>2 ^ 28\<close> keys the filter with ten bits per key
  is created without a panic, and it answers yes for every key it was created from, whatever their
  number, length and order and however the 32-bit probe arithmetic wraps.\<close>

theorem bloom_no_false_negatives:
  assumes "length keys \<le> 2 ^ 28"
  shows "\<exists>flt. CreateFilter (NewBloomFilter 10) keys = Some flt \<and>
    (\<forall>k\<in>set keys. KeyMayMatch (NewBloomFilter 10) k flt = Some True)"
  using bloom.filter_exists [OF assms] .

theorem bloom_no_false_negatives_witness:
  "\<exists>flt. CreateFilter (NewBloomFilter 10) [[1], [], [2, 3]] = Some flt \<and>
    KeyMayMatch (NewBloomFilter 10) [2, 3] flt = Some True"
  using bloom_no_false_negatives [of "[[1], [], [2, 3]]"] by auto

text \<open>C33. A footer is read back as it was written, and only bytes that a footer was written as are accepted:
  decoding succeeds exactly on a source that starts with the encoding of the footer it returns, so a
  wrong magic number, a short source or a damaged handle is an error or a different footer, never a panic.\<close>

theorem footer_codec: "DecodeFooter src = Inr f \<longleftrightarrow> take FooterSize src = Footer_EncodeTo f"
proof
  show "DecodeFooter src = Inr f \<Longrightarrow> take FooterSize src = Footer_EncodeTo f" by (rule DecodeFooter_sound)
next
  assume t: "take FooterSize src = Footer_EncodeTo f"
  then have "src = Footer_EncodeTo f @ drop FooterSize src" by (metis append_take_drop_id)
  then show "DecodeFooter src = Inr f" by (metis DecodeFooter_append)
qed

end
