(* ===== verification/Os_Files.thy ===== *)
theory Os_Files
  imports Prelude "HOL-Library.Char_ord" "HOL-Library.AList"
begin

text \<open>
  What the sources use of the Go packages \<^verbatim>\<open>os\<close>, \<^verbatim>\<open>strings\<close>, \<^verbatim>\<open>sort\<close> and \<^verbatim>\<open>fmt\<close> for files: one directory
  with named entries, decimal file names, and the faults a system call may report.

  \<^item> A directory is an association list from base names to entries; the sources always build the
    path of a file by joining one fixed directory with a base name, so the base name stands for
    the path (joining the same directory keeps the order of the names).
  \<^item> A file keeps its bytes and how many of them are known to be on stable storage.  A write
    appends to the bytes (every file is opened for appending or written once); \<^verbatim>\<open>Sync\<close> makes all of
    them stable; a crash may cut the unstable tail (\<open>crashed\<close>).
  \<^item> The outcome of each system call is given by an \<open>os_env\<close>: which paths open, sync, and so on,
    and whether the \<open>i\<close>-th write of the operation stops short.
\<close>

section \<open>Directories and files\<close>

record osfile =
  fdata :: bytes
  fsynced :: nat

datatype dirent = FileE osfile | DirE

type_synonym dir = "(string \<times> dirent) list"

record os_env =
  mkdir_ok :: bool
  readdir_ok :: bool
  open_ok :: "string \<Rightarrow> bool"
  stat_ok :: "string \<Rightarrow> bool"
  sync_ok :: "string \<Rightarrow> bool"
  close_ok :: "string \<Rightarrow> bool"
  read_ok :: "string \<Rightarrow> bool"
  remove_ok :: "string \<Rightarrow> bool"
  rename_ok :: bool
  short_write :: "nat \<Rightarrow> nat option"

definition no_faults :: os_env where
  "no_faults = \<lparr>mkdir_ok = True, readdir_ok = True, open_ok = (\<lambda>_. True), stat_ok = (\<lambda>_. True),
     sync_ok = (\<lambda>_. True), close_ok = (\<lambda>_. True), read_ok = (\<lambda>_. True), remove_ok = (\<lambda>_. True), rename_ok = True,
     short_write = (\<lambda>_. None)\<rparr>"

definition ReadDir :: "dir \<Rightarrow> string list" where
  "ReadDir d = sort (map fst d)"

definition file_at :: "dir \<Rightarrow> string \<Rightarrow> osfile option" where
  "file_at d p = (case map_of d p of Some (FileE f) \<Rightarrow> Some f | _ \<Rightarrow> None)"

definition data_at :: "dir \<Rightarrow> string \<Rightarrow> bytes" where
  "data_at d p = (case file_at d p of Some f \<Rightarrow> fdata f | None \<Rightarrow> [])"

text \<open>Appending to and syncing an open file.  A file that was removed while open keeps its handle; what
  is written to it is in no directory.\<close>

definition file_write :: "string \<Rightarrow> bytes \<Rightarrow> dir \<Rightarrow> dir" where
  "file_write p bs d = (case file_at d p of
       Some f \<Rightarrow> AList.update p (FileE (f\<lparr>fdata := fdata f @ bs\<rparr>)) d
     | None \<Rightarrow> d)"

definition file_sync :: "string \<Rightarrow> dir \<Rightarrow> dir" where
  "file_sync p d = (case file_at d p of
       Some f \<Rightarrow> AList.update p (FileE (f\<lparr>fsynced := length (fdata f)\<rparr>)) d
     | None \<Rightarrow> d)"

definition file_create :: "string \<Rightarrow> dir \<Rightarrow> dir" where
  "file_create p d = (case map_of d p of
       None \<Rightarrow> AList.update p (FileE \<lparr>fdata = [], fsynced = 0\<rparr>) d
     | Some _ \<Rightarrow> d)"

text \<open>\<^verbatim>\<open>O_CREATE|O_TRUNC\<close> and \<^verbatim>\<open>os.Rename\<close>.\<close>

definition file_truncate :: "string \<Rightarrow> dir \<Rightarrow> dir" where
  "file_truncate p d = AList.update p (FileE \<lparr>fdata = [], fsynced = 0\<rparr>) d"

text \<open>A successful rename of a file; a directory at the target makes \<^verbatim>\<open>os.Rename\<close> fail, which its callers test for.\<close>

definition file_rename :: "string \<Rightarrow> string \<Rightarrow> dir \<Rightarrow> dir" where
  "file_rename p q d = (case file_at d p of
       Some f \<Rightarrow> AList.update q (FileE f) (AList.delete p d)
     | None \<Rightarrow> d)"

text \<open>A crash keeps the names and, of each file, a prefix that holds at least its stable bytes.\<close>

definition crashed :: "dir \<Rightarrow> dir \<Rightarrow> bool" where
  "crashed d d' \<longleftrightarrow> distinct (map fst d') \<and> set (map fst d') = set (map fst d) \<and>
     (\<forall>p. case map_of d p of
        Some (FileE f) \<Rightarrow> (\<exists>n\<ge>fsynced f. map_of d' p =
          Some (FileE \<lparr>fdata = take n (fdata f), fsynced = length (take n (fdata f))\<rparr>))
      | e \<Rightarrow> map_of d' p = e)"

lemma no_faults_simps [simp]:
  "mkdir_ok no_faults" "readdir_ok no_faults" "open_ok no_faults p" "stat_ok no_faults p" "sync_ok no_faults p"
  "close_ok no_faults p" "read_ok no_faults p" "remove_ok no_faults p" "rename_ok no_faults"
  "short_write no_faults i = None"
  by (simp_all add: no_faults_def)

lemma file_at_update [simp]:
  "file_at (AList.update p (FileE f) d) q = (if q = p then Some f else file_at d q)"
  by (simp add: file_at_def update_conv')

lemma file_at_write:
  "file_at (file_write p bs d) q =
     (if q = p then map_option (\<lambda>f. f\<lparr>fdata := fdata f @ bs\<rparr>) (file_at d p) else file_at d q)"
  by (simp add: file_write_def split: option.split)

lemma file_at_sync:
  "file_at (file_sync p d) q =
     (if q = p then map_option (\<lambda>f. f\<lparr>fsynced := length (fdata f)\<rparr>) (file_at d p) else file_at d q)"
  by (simp add: file_sync_def split: option.split)

lemma file_at_create:
  "file_at (file_create p d) q =
     (if q = p \<and> map_of d p = None then Some \<lparr>fdata = [], fsynced = 0\<rparr> else file_at d q)"
  by (auto simp: file_create_def split: option.split)

lemma file_at_truncate:
  "file_at (file_truncate p d) q = (if q = p then Some \<lparr>fdata = [], fsynced = 0\<rparr> else file_at d q)"
  by (simp add: file_truncate_def)

lemma file_at_rename:
  "file_at d p = Some f \<Longrightarrow> p \<noteq> q \<Longrightarrow>
     file_at (file_rename p q d) x = (if x = q then Some f else if x = p then None else file_at d x)"
  by (simp add: file_rename_def) (simp add: file_at_def delete_conv')

lemma map_of_write: "q \<noteq> p \<Longrightarrow> map_of (file_write p bs d) q = map_of d q"
  by (simp add: file_write_def update_conv' split: option.split)

lemma dir_write: "map_of (file_write p bs d) q = Some DirE \<longleftrightarrow> map_of d q = Some DirE"
  by (cases "q = p") (auto simp: map_of_write file_write_def update_conv' file_at_def split: option.splits dirent.splits)

lemma map_of_sync: "q \<noteq> p \<Longrightarrow> map_of (file_sync p d) q = map_of d q"
  by (simp add: file_sync_def update_conv' split: option.split)

lemma map_of_truncate: "map_of (file_truncate p d) q = (if q = p then Some (FileE \<lparr>fdata = [], fsynced = 0\<rparr>) else map_of d q)"
  by (simp add: file_truncate_def update_conv')

lemma file_at_cong: "map_of d q = map_of d' q \<Longrightarrow> file_at d q = file_at d' q"
  by (simp add: file_at_def)

lemma data_at_write [simp]:
  "data_at (file_write p bs d) q = (if q = p \<and> file_at d p \<noteq> None then data_at d p @ bs else data_at d q)"
  by (auto simp: data_at_def file_at_write split: option.split)

lemma data_at_sync [simp]: "data_at (file_sync p d) q = data_at d q"
  by (auto simp: data_at_def file_at_sync split: option.split)

lemma names_write [simp]: "map fst (file_write p bs d) = map fst d"
  by (force simp: file_write_def update_keys file_at_def split: option.splits dirent.splits dest: map_of_SomeD)

lemma names_sync [simp]: "map fst (file_sync p d) = map fst d"
  by (force simp: file_sync_def update_keys file_at_def split: option.splits dirent.splits dest: map_of_SomeD)

lemma crashed_at:
  "crashed d d' \<Longrightarrow> (case map_of d p of
      Some (FileE f) \<Rightarrow> (\<exists>n\<ge>fsynced f. map_of d' p =
          Some (FileE \<lparr>fdata = take n (fdata f), fsynced = length (take n (fdata f))\<rparr>))
    | e \<Rightarrow> map_of d' p = e)"
  unfolding crashed_def by blast

lemma crashed_file:
  assumes "crashed d d'" and "file_at d p = Some f"
  obtains n where "fsynced f \<le> n" and "data_at d' p = take n (fdata f)"
proof -
  have "map_of d p = Some (FileE f)" using assms(2) by (auto simp: file_at_def split: option.splits dirent.splits)
  with crashed_at [OF assms(1), of p] obtain n where "fsynced f \<le> n" "map_of d' p =
      Some (FileE \<lparr>fdata = take n (fdata f), fsynced = length (take n (fdata f))\<rparr>)" by auto
  then show thesis by (intro that) (simp_all add: data_at_def file_at_def)
qed

lemma crashed_exists:
  assumes "distinct (map fst d)"
  shows "\<exists>d'. crashed d d'"
proof -
  define keep where "keep e = (case e of FileE f \<Rightarrow> FileE (f\<lparr>fsynced := length (fdata f)\<rparr>) | DirE \<Rightarrow> DirE)" for e
  let ?d = "map (\<lambda>(p, e). (p, keep e)) d"
  have names: "map fst ?d = map fst d" by (simp add: case_prod_beta)
  have at: "map_of ?d p = map_option keep (map_of d p)" for p by (simp add: map_of_map)
  have "case map_of d p of
      Some (FileE f) \<Rightarrow> (\<exists>n\<ge>fsynced f. map_of ?d p =
          Some (FileE \<lparr>fdata = take n (fdata f), fsynced = length (take n (fdata f))\<rparr>))
    | e \<Rightarrow> map_of ?d p = e" for p
  proof (cases "map_of d p")
    case None
    then show ?thesis unfolding at by simp
  next
    case (Some e)
    show ?thesis
    proof (cases e)
      case (FileE f)
      let ?n = "max (fsynced f) (length (fdata f))"
      have "f\<lparr>fsynced := length (fdata f)\<rparr> = \<lparr>fdata = take ?n (fdata f), fsynced = length (take ?n (fdata f))\<rparr>"
        by (cases f) simp
      then show ?thesis using Some FileE unfolding at by (auto simp: keep_def intro!: exI [of _ ?n])
    next
      case DirE
      then show ?thesis using Some unfolding at by (simp add: keep_def)
    qed
  qed
  then show ?thesis using assms names unfolding crashed_def by (intro exI [of _ ?d]) (simp only: simp_thms)
qed

section \<open>Decimal file names\<close>

definition digit :: "nat \<Rightarrow> char" where
  "digit d = char_of (48 + d)"

definition is_digit :: "char \<Rightarrow> bool" where
  "is_digit c \<longleftrightarrow> 48 \<le> (of_char c :: nat) \<and> (of_char c :: nat) \<le> 57"

fun decimal :: "nat \<Rightarrow> string" where
  "decimal n = (if n < 10 then [digit n] else decimal (n div 10) @ [digit (n mod 10)])"

declare decimal.simps [simp del]

definition Sprintf_06d :: "nat \<Rightarrow> string" where
  "Sprintf_06d n = replicate (6 - length (decimal n)) (CHR ''0'') @ decimal n"

fun num_of_digits :: "nat \<Rightarrow> string \<Rightarrow> nat" where
  "num_of_digits acc [] = acc"
| "num_of_digits acc (c # cs) = num_of_digits (10 * acc + (of_char c - 48)) cs"

definition HasPrefix :: "string \<Rightarrow> string \<Rightarrow> bool" where
  "HasPrefix s p \<longleftrightarrow> take (length p) s = p"

definition HasSuffix :: "string \<Rightarrow> string \<Rightarrow> bool" where
  "HasSuffix s p \<longleftrightarrow> length p \<le> length s \<and> drop (length s - length p) s = p"

text \<open>\<^verbatim>\<open>fmt.Sscanf(name, pre + "%06d" + post, &n)\<close>: the literal, optional blanks, one to six digits and the
  second literal; what follows it is not looked at.\<close>

definition is_blank :: "char \<Rightarrow> bool" where
  "is_blank c \<longleftrightarrow> (of_char c :: nat) \<in> {9, 11, 12, 13, 32}"

definition Sscanf_06d :: "string \<Rightarrow> string \<Rightarrow> string \<Rightarrow> nat option" where
  "Sscanf_06d pre post name =
     (if HasPrefix name pre then
        let r = dropWhile is_blank (drop (length pre) name);
            ds = takeWhile is_digit (take 6 r)
        in if ds \<noteq> [] \<and> HasPrefix (drop (length ds) r) post then Some (num_of_digits 0 ds) else None
      else None)"

text \<open>The fixed-width form of a number: most significant digit first.\<close>

fun fixed :: "nat \<Rightarrow> nat \<Rightarrow> string" where
  "fixed 0 n = []"
| "fixed (Suc w) n = fixed w (n div 10) @ [digit (n mod 10)]"

lemma length_fixed [simp]: "length (fixed w n) = w"
  by (induction w n rule: fixed.induct) simp_all

lemma of_char_digit: "d < 10 \<Longrightarrow> (of_char (digit d) :: nat) = 48 + d"
  by (simp add: digit_def of_char_of)

lemma digit_less: "d < 10 \<Longrightarrow> e < 10 \<Longrightarrow> digit d < digit e \<longleftrightarrow> d < e"
  by (simp add: less_char_def of_char_digit)

lemma digit_0: "digit 0 = CHR ''0''"
  by code_simp

lemma fixed_zero: "fixed w 0 = replicate w (CHR ''0'')"
  by (induction w) (simp_all add: digit_0 replicate_append_same)

lemma fixed_decimal: "n < 10 ^ Suc w \<Longrightarrow> replicate (Suc w - length (decimal n)) (CHR ''0'') @ decimal n = fixed (Suc w) n"
proof (induction w arbitrary: n)
  case 0
  then show ?case by (simp add: decimal.simps)
next
  case (Suc w)
  show ?case
  proof (cases "n < 10")
    case True
    then show ?thesis by (simp add: decimal.simps [of n] fixed_zero digit_0 replicate_append_same)
  next
    case False
    then have "decimal n = decimal (n div 10) @ [digit (n mod 10)]" by (simp add: decimal.simps [of n])
    moreover have "n div 10 < 10 ^ Suc w" using Suc.prems by (simp add: less_mult_imp_div_less mult.commute)
    ultimately show ?thesis using Suc.IH [of "n div 10"] by simp
  qed
qed

lemma Sprintf_06d_fixed: "n < 1000000 \<Longrightarrow> Sprintf_06d n = fixed 6 n"
  using fixed_decimal [of n 5] by (simp add: Sprintf_06d_def)

lemma digits_fixed: "c \<in> set (fixed w n) \<Longrightarrow> is_digit c"
  by (induction w n rule: fixed.induct) (auto simp: is_digit_def of_char_digit)

lemma num_of_digits_append: "num_of_digits acc (xs @ [c]) = 10 * num_of_digits acc xs + (of_char c - 48)"
  by (induction acc xs rule: num_of_digits.induct) simp_all

lemma num_of_digits_fixed: "n < 10 ^ w \<Longrightarrow> num_of_digits 0 (fixed w n) = n"
proof (induction w n rule: fixed.induct)
  case (2 w n)
  have "n div 10 < 10 ^ w" using 2(2) by (simp add: less_mult_imp_div_less mult.commute)
  with 2(1) show ?case by (simp add: num_of_digits_append of_char_digit)
qed simp

lemma append_less_same_length:
  fixes xs ys :: "'a::linorder list"
  shows "length xs = length ys \<Longrightarrow> xs @ us < ys @ vs \<longleftrightarrow> xs < ys \<or> xs = ys \<and> us < vs"
  by (induction xs ys rule: list_induct2) auto

lemma fixed_less: "m < 10 ^ w \<Longrightarrow> n < 10 ^ w \<Longrightarrow> fixed w m < fixed w n \<longleftrightarrow> m < n"
proof (induction w arbitrary: m n)
  case 0
  then show ?case by simp
next
  case (Suc w)
  have "m div 10 < 10 ^ w" "n div 10 < 10 ^ w"
    using Suc.prems by (simp_all add: less_mult_imp_div_less mult.commute)
  with Suc.IH have lt: "fixed w (m div 10) < fixed w (n div 10) \<longleftrightarrow> m div 10 < n div 10"
    and gt: "fixed w (n div 10) < fixed w (m div 10) \<longleftrightarrow> n div 10 < m div 10" by simp_all
  then have eq: "fixed w (m div 10) = fixed w (n div 10) \<longleftrightarrow> m div 10 = n div 10"
    by (metis linorder_neq_iff)
  have "m < n \<longleftrightarrow> m div 10 < n div 10 \<or> m div 10 = n div 10 \<and> m mod 10 < n mod 10"
    by (cases "m div 10" "n div 10" rule: linorder_cases) (use div_mult_mod_eq [of m 10] div_mult_mod_eq [of n 10] in linarith)+
  then show ?case by (simp add: append_less_same_length lt eq digit_less)
qed

end
