(* ===== verification/SST_Builder.thy ===== *)
theory SST_Builder
  imports Block SST_Format Os_Files
begin

text \<open>
  Package \<^verbatim>\<open>sstable\<close>, \<^verbatim>\<open>builder.go\<close> and \<^verbatim>\<open>compression.go\<close>: writing a table file.  The file goes into the directory of
  \<open>Os_Files\<close> through a buffered writer; \<^verbatim>\<open>compress/zlib\<close> is a parameter \<open>zlib\<close> of the definitions.  Every
  operation returns the builder and the directory also when it fails.
\<close>

section \<open>compression.go\<close>

text \<open>The package \<^verbatim>\<open>compress/zlib\<close>: what its writer produces for a source, and what reading all of a stream
  gives (an error for a stream that is not one).\<close>

record zlib =
  zlib_Write :: "bytes \<Rightarrow> bytes"
  zlib_ReadAll :: "bytes \<Rightarrow> bytes res"

definition NoCompression :: byte where
  "NoCompression = 0"

definition ZlibCompression :: byte where
  "ZlibCompression = 1"

definition compress :: "zlib \<Rightarrow> bytes \<Rightarrow> bytes" where
  "compress z src = zlib_Write z src"

definition decompress :: "zlib \<Rightarrow> bytes \<Rightarrow> bytes res" where
  "decompress z src = zlib_ReadAll z src"

text \<open>The documented behaviour the code relies on: a stream the writer produced reads back as its source.\<close>

definition zlib_inverse :: "zlib \<Rightarrow> bool" where
  "zlib_inverse z \<longleftrightarrow> (\<forall>src. zlib_ReadAll z (zlib_Write z src) = Inr src)"

section \<open>The buffered writer\<close>

text \<open>\<^verbatim>\<open>if err := f(); err != nil { return err }; g()\<close> for operations that change two states.\<close>

definition and_then :: "'s \<times> 'd \<times> go_err option \<Rightarrow> ('s \<Rightarrow> 'd \<Rightarrow> 's \<times> 'd \<times> go_err option) \<Rightarrow> 's \<times> 'd \<times> go_err option" where
  "and_then r g = (case r of (s, d, Some e) \<Rightarrow> (s, d, Some e) | (s, d, None) \<Rightarrow> g s d)"

lemma and_then_simps [simp]:
  "and_then (s, d, None) g = g s d" "and_then (s, d, Some e) g = (s, d, Some e)"
  by (simp_all add: and_then_def)

lemma and_then_None: "and_then r g = (s', d', None) \<longleftrightarrow> (\<exists>s d. r = (s, d, None) \<and> g s d = (s', d', None))"
  by (auto simp: and_then_def split: prod.splits option.splits)

text \<open>\<^verbatim>\<open>bufio.Writer\<close> over the file: what it has accepted and not yet passed on, the number of calls, and whether an
  earlier call failed (the error is kept and returned by every later call).  Data may reach the
  file before \<^verbatim>\<open>Flush\<close>; as nothing reads the file earlier, the model passes it on there, and on a failing
  call passes on the part the environment chooses.\<close>

record bufwriter =
  bw_pending :: bytes
  bw_calls :: nat
  bw_err :: bool

definition bufio_NewWriter :: bufwriter where
  "bufio_NewWriter = \<lparr>bw_pending = [], bw_calls = 0, bw_err = False\<rparr>"

definition bw_Write :: "os_env \<Rightarrow> string \<Rightarrow> bytes \<Rightarrow> bufwriter \<Rightarrow> dir \<Rightarrow> bufwriter \<times> dir \<times> go_err option" where
  "bw_Write env p bs w d =
     (if bw_err w then (w, d, Some (Err ''write''))
      else case short_write env (bw_calls w) of
             None \<Rightarrow> (w\<lparr>bw_pending := bw_pending w @ bs, bw_calls := bw_calls w + 1\<rparr>, d, None)
           | Some n \<Rightarrow> (w\<lparr>bw_err := True, bw_calls := bw_calls w + 1\<rparr>, file_write p (take n (bw_pending w @ bs)) d, Some (Err ''write'')))"

definition bw_Flush :: "os_env \<Rightarrow> string \<Rightarrow> bufwriter \<Rightarrow> dir \<Rightarrow> bufwriter \<times> dir \<times> go_err option" where
  "bw_Flush env p w d =
     (if bw_err w then (w, d, Some (Err ''write''))
      else case short_write env (bw_calls w) of
             None \<Rightarrow> (w\<lparr>bw_pending := [], bw_calls := bw_calls w + 1\<rparr>, file_write p (bw_pending w) d, None)
           | Some n \<Rightarrow> (w\<lparr>bw_err := True, bw_calls := bw_calls w + 1\<rparr>, file_write p (take n (bw_pending w)) d, Some (Err ''write'')))"

section \<open>builder.go\<close>

definition blockSize :: nat where
  "blockSize = 4 * 1024"

record Builder =
  b_file :: string
  b_writer :: bufwriter
  b_dataBlock :: BlockBuilder
  b_indexBlock :: BlockBuilder
  b_metaIndexBlock :: BlockBuilder
  b_offset :: u64
  b_numEntries :: u64
  b_closed :: bool
  b_lastKey :: bytes
  b_pendingIndexEntry :: bool
  b_pendingHandle :: BlockHandle
  b_err :: "go_err option"
  b_filterPolicy :: BloomFilter
  b_keys :: "bytes list"

definition NewBuilder :: "os_env \<Rightarrow> string \<Rightarrow> dir \<Rightarrow> dir \<times> Builder res" where
  "NewBuilder env filename d =
     (if \<not> mkdir_ok env then (d, Inl (Err ''mkdir''))
      else if \<not> open_ok env filename \<or> map_of d filename = Some DirE then (d, Inl (Err ''create''))
      else (file_truncate filename d,
            Inr \<lparr>b_file = filename, b_writer = bufio_NewWriter, b_dataBlock = NewBlockBuilder, b_indexBlock = NewBlockBuilder,
                 b_metaIndexBlock = NewBlockBuilder, b_offset = 0, b_numEntries = 0, b_closed = False, b_lastKey = [],
                 b_pendingIndexEntry = False, b_pendingHandle = \<lparr>Offset = 0, Length = 0\<rparr>, b_err = None,
                 b_filterPolicy = NewBloomFilter 10, b_keys = []\<rparr>))"

definition Builder_Size :: "Builder \<Rightarrow> u64" where
  "Builder_Size b = b_offset b + of_nat (BlockBuilder_CurrentSize (b_dataBlock b))"

definition findShortestSeparator :: "bytes \<Rightarrow> bytes \<Rightarrow> bytes" where
  "findShortestSeparator a b = a"

text \<open>The bytes of a block with its compression type, and the three writes that store them with their checksum.
  The same statements stand in \<^verbatim>\<open>flushDataBlock\<close> and twice in \<^verbatim>\<open>Close\<close>.\<close>

definition choose_compression :: "zlib \<Rightarrow> bytes \<Rightarrow> bytes \<times> byte" where
  "choose_compression z content =
     (let compressed = compress z content
      in if int (length compressed) < int (length content) - 2 then (compressed, ZlibCompression) else (content, NoCompression))"

definition b_Write :: "os_env \<Rightarrow> bytes \<Rightarrow> Builder \<Rightarrow> dir \<Rightarrow> Builder \<times> dir \<times> go_err option" where
  "b_Write env bs b d = (case bw_Write env (b_file b) bs (b_writer b) d of (w, d, e) \<Rightarrow> (b\<lparr>b_writer := w\<rparr>, d, e))"

definition b_Flush :: "os_env \<Rightarrow> Builder \<Rightarrow> dir \<Rightarrow> Builder \<times> dir \<times> go_err option" where
  "b_Flush env b d = (case bw_Flush env (b_file b) (b_writer b) d of (w, d, e) \<Rightarrow> (b\<lparr>b_writer := w\<rparr>, d, e))"

definition write_block :: "os_env \<Rightarrow> zlib \<Rightarrow> bytes \<Rightarrow> Builder \<Rightarrow> dir \<Rightarrow> Builder \<times> dir \<times> u64 res" where
  "write_block env z content b d =
     (case choose_compression z content of (final, cType) \<Rightarrow>
      case b_Write env final b d of (b, d, Some e) \<Rightarrow> (b, d, Inl e) | (b, d, None) \<Rightarrow>
      case b_Write env [cType] b d of (b, d, Some e) \<Rightarrow> (b, d, Inl e) | (b, d, None) \<Rightarrow>
        let crc = crc32_Update (ChecksumIEEE final) [cType]
        in case b_Write env (PutUint32 crc) b d of (b, d, Some e) \<Rightarrow> (b, d, Inl e) | (b, d, None) \<Rightarrow>
             (b, d, Inr (of_nat (length final + 1 + 4))))"

definition flushDataBlock :: "os_env \<Rightarrow> zlib \<Rightarrow> Builder \<Rightarrow> dir \<Rightarrow> Builder \<times> dir \<times> go_err option" where
  "flushDataBlock env z b d =
     (if BlockBuilder_Empty (b_dataBlock b) then (b, d, None)
      else case BlockBuilder_Finish (b_dataBlock b) of (blk, content) \<Rightarrow>
        case write_block env z content (b\<lparr>b_dataBlock := blk\<rparr>) d of
          (b, d, Inl e) \<Rightarrow> (b, d, Some e)
        | (b, d, Inr n) \<Rightarrow>
            (b\<lparr>b_offset := b_offset b + n, b_dataBlock := BlockBuilder_Reset (b_dataBlock b),
               b_pendingHandle := \<lparr>Offset = b_offset b, Length = n\<rparr>, b_pendingIndexEntry := True\<rparr>, d, None))"

definition add_pending :: "bytes \<Rightarrow> Builder \<Rightarrow> Builder" where
  "add_pending sep b =
     (if b_pendingIndexEntry b
      then b\<lparr>b_indexBlock := BlockBuilder_Add sep (BlockHandle_EncodeTo (b_pendingHandle b)) (b_indexBlock b),
             b_pendingIndexEntry := False\<rparr>
      else b)"

definition Builder_Add :: "os_env \<Rightarrow> zlib \<Rightarrow> bytes \<Rightarrow> bytes \<Rightarrow> Builder \<Rightarrow> dir \<Rightarrow> Builder \<times> dir \<times> go_err option" where
  "Builder_Add env z key value b d =
     (if b_err b \<noteq> None then (b, d, b_err b)
      else if b_closed b then (b, d, Some (Err ''builder closed''))
      else
        let b = add_pending (findShortestSeparator (b_lastKey b) key) b;
            b = b\<lparr>b_dataBlock := BlockBuilder_Add key value (b_dataBlock b), b_lastKey := key,
                  b_keys := b_keys b @ [ExtractUserKey key], b_numEntries := b_numEntries b + 1\<rparr>
        in if BlockBuilder_CurrentSize (b_dataBlock b) \<ge> blockSize
           then case flushDataBlock env z b d of
                  (b, d, Some e) \<Rightarrow> (b\<lparr>b_err := Some e\<rparr>, d, Some e)
                | (b, d, None) \<Rightarrow> (b, d, None)
           else (b, d, None))"

definition string_bytes :: "string \<Rightarrow> bytes" where
  "string_bytes s = map of_char s"

definition write_filter :: "os_env \<Rightarrow> Builder \<Rightarrow> dir \<Rightarrow> Builder \<times> dir \<times> go_err option" where
  "write_filter env b d =
     (if b_keys b \<noteq> [] then
        case CreateFilter (b_filterPolicy b) (b_keys b) of
          None \<Rightarrow> (b, d, Some (Panic ''CreateFilter''))
        | Some filterData \<Rightarrow>
            (case b_Write env filterData b d of
               (b, d, Some e) \<Rightarrow> (b, d, Some e)
             | (b, d, None) \<Rightarrow>
                 let n = of_nat (length filterData); filterHandle = \<lparr>Offset = b_offset b, Length = n\<rparr>
                 in (b\<lparr>b_offset := b_offset b + n,
                       b_metaIndexBlock := BlockBuilder_Add (string_bytes (filter_Name (b_filterPolicy b)))
                         (BlockHandle_EncodeTo filterHandle) (b_metaIndexBlock b)\<rparr>, d, None))
      else (b, d, None))"

definition write_index :: "os_env \<Rightarrow> zlib \<Rightarrow> Builder \<Rightarrow> dir \<Rightarrow> Builder \<times> dir \<times> go_err option" where
  "write_index env z b d =
     (case BlockBuilder_Finish (b_metaIndexBlock b) of (mblk, metaIndexContent) \<Rightarrow>
      case write_block env z metaIndexContent (b\<lparr>b_metaIndexBlock := mblk\<rparr>) d of
        (b, d, Inl e) \<Rightarrow> (b, d, Some e)
      | (b, d, Inr n) \<Rightarrow>
          let metaIndexHandle = \<lparr>Offset = b_offset b, Length = n\<rparr>; b = b\<lparr>b_offset := b_offset b + n\<rparr>
          in case BlockBuilder_Finish (b_indexBlock b) of (iblk, indexContent) \<Rightarrow>
             case write_block env z indexContent (b\<lparr>b_indexBlock := iblk\<rparr>) d of
               (b, d, Inl e) \<Rightarrow> (b, d, Some e)
             | (b, d, Inr n) \<Rightarrow>
                 let indexHandle = \<lparr>Offset = b_offset b, Length = n\<rparr>; b = b\<lparr>b_offset := b_offset b + n\<rparr>
                 in b_Write env (Footer_EncodeTo \<lparr>MetaindexHandle = metaIndexHandle, IndexHandle = indexHandle\<rparr>) b d)"

definition Builder_Close :: "os_env \<Rightarrow> zlib \<Rightarrow> Builder \<Rightarrow> dir \<Rightarrow> Builder \<times> dir \<times> go_err option" where
  "Builder_Close env z b d =
     (if b_closed b then (b, d, None)
      else if b_err b \<noteq> None then (b, d, b_err b)
      else and_then (flushDataBlock env z b d) (\<lambda>b d.
           and_then (write_filter env (add_pending (b_lastKey b) b) d) (\<lambda>b d.
           and_then (write_index env z b d) (\<lambda>b d.
           and_then (b_Flush env b d) (\<lambda>b d.
           (b\<lparr>b_closed := True\<rparr>, d, if close_ok env (b_file b) then None else Some (Err ''close'')))))))"

fun add_all :: "os_env \<Rightarrow> zlib \<Rightarrow> entries \<Rightarrow> Builder \<Rightarrow> dir \<Rightarrow> Builder \<times> dir \<times> go_err option" where
  "add_all env z [] b d = (b, d, None)"
| "add_all env z ((k, v) # es) b d =
     and_then (Builder_Add env z k v b d) (add_all env z es)"

text \<open>A whole table: the calls the flush and the compaction make.\<close>

definition build_table :: "os_env \<Rightarrow> zlib \<Rightarrow> string \<Rightarrow> entries \<Rightarrow> dir \<Rightarrow> dir \<times> go_err option" where
  "build_table env z p es d =
     (case NewBuilder env p d of (d, Inl e) \<Rightarrow> (d, Some e) | (d, Inr b) \<Rightarrow>
      snd (and_then (add_all env z es b d) (Builder_Close env z)))"

section \<open>The layout of a table\<close>

definition frame :: "zlib \<Rightarrow> bytes \<Rightarrow> bytes" where
  "frame z content = (case choose_compression z content of (final, cType) \<Rightarrow>
     final @ [cType] @ PutUint32 (ChecksumIEEE (final @ [cType])))"

definition frames :: "zlib \<Rightarrow> entries list \<Rightarrow> bytes" where
  "frames z bs = concat (map (\<lambda>es. frame z (build_block es)) bs)"

fun index_entries :: "zlib \<Rightarrow> nat \<Rightarrow> entries list \<Rightarrow> entries" where
  "index_entries z off [] = []"
| "index_entries z off (es # bs) =
     (let n = length (frame z (build_block es))
      in (fst (last es), BlockHandle_EncodeTo \<lparr>Offset = of_nat off, Length = of_nat n\<rparr>) # index_entries z (off + n) bs)"

lemma frames_simps [simp]:
  "frames z [] = []" "frames z (es # bs) = frame z (build_block es) @ frames z bs"
  "frames z (bs @ cs) = frames z bs @ frames z cs"
  by (simp_all add: frames_def)

lemma index_entries_append:
  "index_entries z off (bs @ cs) = index_entries z off bs @ index_entries z (off + length (frames z bs)) cs"
  by (induction bs arbitrary: off) (simp_all add: Let_def add.assoc)

lemma index_entries_snoc:
  "index_entries z 0 (bs @ [es]) = index_entries z 0 bs @
     [(fst (last es), BlockHandle_EncodeTo \<lparr>Offset = of_nat (length (frames z bs)), Length = of_nat (length (frame z (build_block es)))\<rparr>)]"
  by (simp add: index_entries_append Let_def)

definition meta_entries :: "zlib \<Rightarrow> entries list \<Rightarrow> bytes option \<Rightarrow> entries" where
  "meta_entries z bs flt = (case flt of None \<Rightarrow> []
     | Some f \<Rightarrow> [(string_bytes ''vern.filter.bloom'',
         BlockHandle_EncodeTo \<lparr>Offset = of_nat (length (frames z bs)), Length = of_nat (length f)\<rparr>)])"

definition table_bytes :: "zlib \<Rightarrow> entries list \<Rightarrow> bytes option \<Rightarrow> bytes" where
  "table_bytes z bs flt =
     (let body = frames z bs @ (case flt of None \<Rightarrow> [] | Some f \<Rightarrow> f);
          M = frame z (build_block (meta_entries z bs flt));
          I = frame z (build_block (index_entries z 0 bs))
      in body @ M @ I @ Footer_EncodeTo
           \<lparr>MetaindexHandle = \<lparr>Offset = of_nat (length body), Length = of_nat (length M)\<rparr>,
            IndexHandle = \<lparr>Offset = of_nat (length body + length M), Length = of_nat (length I)\<rparr>\<rparr>)"

section \<open>What a successful call does\<close>

definition accepts :: "bytes \<Rightarrow> Builder \<Rightarrow> Builder \<Rightarrow> bool" where
  "accepts bs b b' \<longleftrightarrow>
     (\<exists>w. b' = b\<lparr>b_writer := w\<rparr> \<and> bw_pending w = bw_pending (b_writer b) @ bs \<and> \<not> bw_err w \<and> \<not> bw_err (b_writer b))"

lemma acceptsE:
  assumes "accepts bs b b'"
  obtains w where "b' = b\<lparr>b_writer := w\<rparr>" "bw_pending w = bw_pending (b_writer b) @ bs" "\<not> bw_err w" "\<not> bw_err (b_writer b)"
  using assms by (auto simp: accepts_def)

lemma b_Write_ok: "b_Write env bs b d = (b', d', None) \<Longrightarrow> d' = d \<and> accepts bs b b'"
  unfolding b_Write_def bw_Write_def accepts_def
  by (auto split: if_splits option.splits intro!: exI [of _ "(b_writer b)\<lparr>bw_pending := _, bw_calls := _\<rparr>"])

lemma b_Write_succeeds: "short_write env = (\<lambda>_. None) \<Longrightarrow> \<not> bw_err (b_writer b) \<Longrightarrow> \<exists>b'. b_Write env bs b d = (b', d, None) \<and> accepts bs b b'"
  unfolding b_Write_def bw_Write_def accepts_def
  by (auto intro!: exI [of _ "(b_writer b)\<lparr>bw_pending := _, bw_calls := _\<rparr>"])

lemma accepts_trans: "accepts xs b b1 \<Longrightarrow> accepts ys b1 b2 \<Longrightarrow> accepts (xs @ ys) b b2"
  by (auto simp: accepts_def)

lemma accepts_err: "accepts xs b b' \<Longrightarrow> \<not> bw_err (b_writer b')"
  by (auto simp: accepts_def)

lemma length_frame: "length (frame z c) = length (fst (choose_compression z c)) + 1 + 4"
  by (simp add: frame_def case_prod_beta)

lemma write_block_ok:
  assumes "write_block env z content b d = (b', d', Inr n)"
  shows "d' = d \<and> accepts (frame z content) b b' \<and> n = of_nat (length (frame z content))"
proof -
  obtain final c where fc: "choose_compression z content = (final, c)" by (cases "choose_compression z content")
  from assms obtain b1 d1 b2 d2 where
    w: "b_Write env final b d = (b1, d1, None)" "b_Write env [c] b1 d1 = (b2, d2, None)"
      "b_Write env (PutUint32 (crc32_Update (ChecksumIEEE final) [c])) b2 d2 = (b', d', None)"
    and n: "n = of_nat (length final + 1 + 4)"
    by (auto simp: write_block_def fc Let_def split: prod.splits option.splits)
  have "accepts ((final @ [c]) @ PutUint32 (ChecksumIEEE (final @ [c]))) b b'"
    using b_Write_ok [OF w(1)] b_Write_ok [OF w(2)] b_Write_ok [OF w(3)] accepts_trans
    by (metis crc32_Update_ChecksumIEEE)
  moreover have "d' = d" using b_Write_ok [OF w(1)] b_Write_ok [OF w(2)] b_Write_ok [OF w(3)] by simp
  ultimately show ?thesis using n fc by (simp add: frame_def)
qed

lemma write_block_succeeds:
  assumes "short_write env = (\<lambda>_. None)" and "\<not> bw_err (b_writer b)"
  shows "\<exists>b' n. write_block env z content b d = (b', d, Inr n)"
proof -
  obtain final c where fc: "choose_compression z content = (final, c)" by (cases "choose_compression z content")
  obtain b1 where b1: "b_Write env final b d = (b1, d, None)" "accepts final b b1" using b_Write_succeeds [OF assms] by blast
  obtain b2 where b2: "b_Write env [c] b1 d = (b2, d, None)" "accepts [c] b1 b2"
    using b_Write_succeeds [OF assms(1) accepts_err [OF b1(2)]] by blast
  obtain b3 where "b_Write env (PutUint32 (crc32_Update (ChecksumIEEE final) [c])) b2 d = (b3, d, None)"
    using b_Write_succeeds [OF assms(1) accepts_err [OF b2(2)]] by blast
  then show ?thesis using b1 b2 by (simp add: write_block_def fc)
qed

section \<open>The builder's invariant\<close>

abbreviation adds :: "entries \<Rightarrow> BlockBuilder \<Rightarrow> BlockBuilder" where
  "adds es b \<equiv> fold (\<lambda>(k, v). BlockBuilder_Add k v) es b"

definition written :: "Builder \<Rightarrow> dir \<Rightarrow> bytes" where
  "written b d = data_at d (b_file b) @ bw_pending (b_writer b)"

definition final_key :: "entries \<Rightarrow> bytes" where
  "final_key es = (if es = [] then [] else fst (last es))"

lemma final_key_append [simp]: "ys \<noteq> [] \<Longrightarrow> final_key (xs @ ys) = fst (last ys)"
  by (simp add: final_key_def)

text \<open>\<open>tb_rep\<close>: the finished blocks \<open>bs\<close> are in the file or the writer, the entries \<open>cur\<close> in the data block; the
  index has an entry for each finished block but the last one when that is still pending.\<close>

definition tb_rep :: "zlib \<Rightarrow> Builder \<Rightarrow> dir \<Rightarrow> entries list \<Rightarrow> entries \<Rightarrow> bool" where
  "tb_rep z b d bs cur \<longleftrightarrow>
     file_at d (b_file b) \<noteq> None \<and> \<not> bw_err (b_writer b) \<and> b_err b = None \<and> \<not> b_closed b \<and>
     written b d = frames z bs \<and> b_offset b = of_nat (length (frames z bs)) \<and>
     b_dataBlock b = adds cur NewBlockBuilder \<and> b_metaIndexBlock b = NewBlockBuilder \<and>
     b_filterPolicy b = NewBloomFilter 10 \<and> b_keys b = map (ExtractUserKey \<circ> fst) (concat bs @ cur) \<and>
     (\<forall>es\<in>set bs. es \<noteq> []) \<and> b_lastKey b = final_key (concat bs @ cur) \<and>
     (if b_pendingIndexEntry b
      then bs \<noteq> [] \<and> cur = [] \<and> b_indexBlock b = adds (index_entries z 0 (butlast bs)) NewBlockBuilder \<and>
        b_pendingHandle b = \<lparr>Offset = of_nat (length (frames z (butlast bs))), Length = of_nat (length (frame z (build_block (last bs))))\<rparr>
      else b_indexBlock b = adds (index_entries z 0 bs) NewBlockBuilder)"

lemma adds_snoc: "adds (es @ [(k, v)]) b = BlockBuilder_Add k v (adds es b)"
  by simp

lemma BlockBuilder_Reset_New [simp]: "BlockBuilder_Reset b = NewBlockBuilder"
  by (simp add: BlockBuilder_Reset_def NewBlockBuilder_def)

lemma bb_Empty_adds: "BlockBuilder_Empty (adds es NewBlockBuilder) \<longleftrightarrow> es = []"
proof -
  obtain cs idx where "bb_rep (adds es NewBlockBuilder) cs idx" "plain cs = es" using bb_rep_adds [OF bb_rep_New, of es] by auto
  moreover have "entry_bytes_of e \<noteq> []" for e using length_entry_bytes [of e] by auto
  ultimately show ?thesis by (cases cs) (auto simp: BlockBuilder_Empty_def bb_rep_def)
qed

lemma finish_adds: "snd (BlockBuilder_Finish (adds es NewBlockBuilder)) = build_block es"
  by (simp add: build_block_def)

text \<open>Adding the pending entry makes the index complete.\<close>

lemma add_pending_rep:
  assumes "tb_rep z b d bs cur" and "b_pendingIndexEntry b \<Longrightarrow> sep = b_lastKey b"
  shows "tb_rep z (add_pending sep b) d bs cur \<and> \<not> b_pendingIndexEntry (add_pending sep b)"
proof (cases "b_pendingIndexEntry b")
  case True
  then have bs: "bs = butlast bs @ [last bs]" "cur = []" "last bs \<noteq> []" using assms(1) by (auto simp: tb_rep_def)
  have "concat bs = concat (butlast bs) @ last bs" by (subst bs(1)) simp
  then have "final_key (concat bs) = fst (last (last bs))" using bs(3) by simp
  then have "sep = fst (last (last bs))" using assms bs(2) True by (simp add: tb_rep_def)
  then have "adds (index_entries z 0 bs) NewBlockBuilder = BlockBuilder_Add sep (BlockHandle_EncodeTo (b_pendingHandle b)) (b_indexBlock b)"
    using assms(1) True index_entries_snoc [of z "butlast bs" "last bs"] bs(1) by (simp add: tb_rep_def)
  then show ?thesis using assms(1) True unfolding add_pending_def tb_rep_def written_def by simp
next
  case False
  then show ?thesis using assms(1) by (simp add: add_pending_def)
qed

lemma flushDataBlock_rep:
  assumes rep: "tb_rep z b d bs cur" and f: "flushDataBlock env z b d = (b', d', None)"
  shows "tb_rep z b' d' (if cur = [] then bs else bs @ [cur]) [] \<and> d' = d \<and> b_file b' = b_file b"
proof (cases "cur = []")
  case True
  then have "BlockBuilder_Empty (b_dataBlock b)" using rep bb_Empty_adds [of "[]"] by (simp add: tb_rep_def)
  then show ?thesis using f rep True by (simp add: flushDataBlock_def)
next
  case False
  have pend: "\<not> b_pendingIndexEntry b" using rep False by (auto simp: tb_rep_def)
  have ne: "\<not> BlockBuilder_Empty (b_dataBlock b)" using rep False bb_Empty_adds [of cur] by (simp add: tb_rep_def)
  obtain blk where fin: "BlockBuilder_Finish (b_dataBlock b) = (blk, build_block cur)"
    using rep finish_adds [of cur] by (cases "BlockBuilder_Finish (b_dataBlock b)") (simp add: tb_rep_def)
  let ?F = "frame z (build_block cur)"
  obtain b1 n where wb: "write_block env z (build_block cur) (b\<lparr>b_dataBlock := blk\<rparr>) d = (b1, d', Inr n)"
    and b': "b' = b1\<lparr>b_offset := b_offset b1 + n, b_dataBlock := NewBlockBuilder,
               b_pendingHandle := \<lparr>Offset = b_offset b1, Length = n\<rparr>, b_pendingIndexEntry := True\<rparr>"
    using f ne fin by (auto simp: flushDataBlock_def split: prod.splits sum.splits)
  from write_block_ok [OF wb] obtain w where w: "b1 = b\<lparr>b_dataBlock := blk, b_writer := w\<rparr>"
    "bw_pending w = bw_pending (b_writer b) @ ?F" "\<not> bw_err w" "d' = d" "n = of_nat (length ?F)"
    by (auto elim: acceptsE)
  have last: "final_key (concat bs @ cur) = fst (last cur)" using False by simp
  show ?thesis
    using rep False pend w b' last unfolding tb_rep_def written_def by simp
qed

lemma Builder_Add_rep:
  assumes rep: "tb_rep z b d bs cur" and a: "Builder_Add env z k v b d = (b', d', None)"
  shows "\<exists>bs' cur'. tb_rep z b' d bs' cur' \<and> d' = d \<and> b_file b' = b_file b \<and> concat bs' @ cur' = concat bs @ cur @ [(k, v)]"
proof -
  let ?b = "add_pending (findShortestSeparator (b_lastKey b) k) b"
  have p: "tb_rep z ?b d bs cur" "\<not> b_pendingIndexEntry ?b"
    using add_pending_rep [OF rep] by (simp_all add: findShortestSeparator_def)
  let ?b1 = "?b\<lparr>b_dataBlock := BlockBuilder_Add k v (b_dataBlock ?b), b_lastKey := k,
                  b_keys := b_keys ?b @ [ExtractUserKey k], b_numEntries := b_numEntries ?b + 1\<rparr>"
  have b1: "tb_rep z ?b1 d bs (cur @ [(k, v)])"
    using p unfolding tb_rep_def written_def by (simp add: final_key_def)
  have up: "b_err b = None" "\<not> b_closed b" "b_file ?b = b_file b" using rep by (simp_all add: tb_rep_def add_pending_def)
  show ?thesis
  proof (cases "BlockBuilder_CurrentSize (b_dataBlock ?b1) \<ge> blockSize")
    case True
    then have "flushDataBlock env z ?b1 d = (b', d', None)"
      using a up unfolding Builder_Add_def Let_def by (auto split: prod.splits option.splits)
    from flushDataBlock_rep [OF b1 this] up show ?thesis by (intro exI [of _ "bs @ [cur @ [(k, v)]]"] exI [of _ "[]"]) auto
  next
    case False
    then have "b' = ?b1" "d' = d" using a up unfolding Builder_Add_def Let_def by auto
    then show ?thesis using b1 up by (intro exI [of _ bs] exI [of _ "cur @ [(k, v)]"]) simp
  qed
qed

lemma add_all_rep:
  assumes "tb_rep z b d bs cur" and "add_all env z es b d = (b', d', None)"
  shows "\<exists>bs' cur'. tb_rep z b' d bs' cur' \<and> d' = d \<and> b_file b' = b_file b \<and> concat bs' @ cur' = concat bs @ cur @ es"
  using assms
proof (induction env z es b d arbitrary: bs cur rule: add_all.induct)
  case (1 env z b d)
  then show ?case by auto
next
  case (2 env z k v es b d)
  from 2(3) obtain b1 d1 where a: "Builder_Add env z k v b d = (b1, d1, None)" and r: "add_all env z es b1 d1 = (b', d', None)"
    by (auto simp: and_then_None)
  from Builder_Add_rep [OF 2(2) a] obtain bs1 cur1 where
    b1: "tb_rep z b1 d bs1 cur1" "concat bs1 @ cur1 = concat bs @ cur @ [(k, v)]" "d1 = d" "b_file b1 = b_file b" by blast
  from 2(1) [of b1 d bs1 cur1] b1 r show ?case by force
qed

lemma write_filter_ok:
  assumes rep: "tb_rep z b d bs []" and ok: "write_filter env b d = (b1, d1, None)"
  shows "d1 = d \<and> (\<exists>w flt. b1 = b\<lparr>b_writer := w, b_offset := of_nat (length (frames z bs @ (case flt of None \<Rightarrow> [] | Some f \<Rightarrow> f))),
      b_metaIndexBlock := adds (meta_entries z bs flt) NewBlockBuilder\<rparr> \<and>
    data_at d (b_file b) @ bw_pending w = frames z bs @ (case flt of None \<Rightarrow> [] | Some f \<Rightarrow> f) \<and> \<not> bw_err w \<and>
    (if concat bs = [] then flt = None else flt = CreateFilter (NewBloomFilter 10) (map (ExtractUserKey \<circ> fst) (concat bs)) \<and> flt \<noteq> None))"
proof (cases "concat bs = []")
  case True
  then have "b1 = b" "d1 = d" using rep ok by (auto simp: write_filter_def tb_rep_def)
  then show ?thesis using rep True
    by (intro conjI exI [of _ "b_writer b"] exI [of _ None]) (simp_all add: tb_rep_def written_def meta_entries_def)
next
  case False
  let ?c = "CreateFilter (NewBloomFilter 10) (map (ExtractUserKey \<circ> fst) (concat bs))"
  have k: "b_keys b = map (ExtractUserKey \<circ> fst) (concat bs)" "b_keys b \<noteq> []" "b_filterPolicy b = NewBloomFilter 10"
    using rep False by (simp_all add: tb_rep_def)
  obtain f b2 where f: "?c = Some f" and w: "b_Write env f b d = (b2, d1, None)"
    and b1: "b1 = b2\<lparr>b_offset := b_offset b2 + of_nat (length f),
        b_metaIndexBlock := BlockBuilder_Add (string_bytes ''vern.filter.bloom'')
          (BlockHandle_EncodeTo \<lparr>Offset = b_offset b2, Length = of_nat (length f)\<rparr>) (b_metaIndexBlock b2)\<rparr>"
    using ok k by (auto simp: write_filter_def Let_def filter_Name_def split: option.splits prod.splits)
  from b_Write_ok [OF w] obtain w' where w': "b2 = b\<lparr>b_writer := w'\<rparr>" "bw_pending w' = bw_pending (b_writer b) @ f" "\<not> bw_err w'" "d1 = d"
    by (auto elim: acceptsE)
  have "data_at d (b_file b) @ bw_pending w' = frames z bs @ f" using rep w'(2) by (simp add: tb_rep_def written_def)
  then show ?thesis using rep False f w' b1
    by (intro conjI exI [of _ w'] exI [of _ "Some f"]) (simp_all add: tb_rep_def meta_entries_def)
qed

lemma write_index_ok:
  assumes ok: "write_index env z b d = (b1, d1, None)"
    and m: "b_metaIndexBlock b = adds ms NewBlockBuilder" and ix: "b_indexBlock b = adds ies NewBlockBuilder"
    and off: "b_offset b = of_nat off"
  shows "d1 = d \<and> b_file b1 = b_file b \<and> \<not> bw_err (b_writer b1) \<and>
    (let M = frame z (build_block ms); I = frame z (build_block ies)
     in bw_pending (b_writer b1) = bw_pending (b_writer b) @ M @ I @ Footer_EncodeTo
           \<lparr>MetaindexHandle = \<lparr>Offset = of_nat off, Length = of_nat (length M)\<rparr>,
            IndexHandle = \<lparr>Offset = of_nat (off + length M), Length = of_nat (length I)\<rparr>\<rparr>)"
proof -
  let ?M = "frame z (build_block ms)" and ?I = "frame z (build_block ies)"
  obtain mblk where mfin: "BlockBuilder_Finish (b_metaIndexBlock b) = (mblk, build_block ms)"
    using m finish_adds [of ms] by (cases "BlockBuilder_Finish (b_metaIndexBlock b)") simp
  obtain iblk where ifin: "BlockBuilder_Finish (b_indexBlock b) = (iblk, build_block ies)"
    using ix finish_adds [of ies] by (cases "BlockBuilder_Finish (b_indexBlock b)") simp
  obtain b2 d2 n2 where w2: "write_block env z (build_block ms) (b\<lparr>b_metaIndexBlock := mblk\<rparr>) d = (b2, d2, Inr n2)"
    using ok mfin by (auto simp: write_index_def split: prod.splits sum.splits)
  from write_block_ok [OF w2] obtain v2 where v2: "b2 = b\<lparr>b_metaIndexBlock := mblk, b_writer := v2\<rparr>"
    "bw_pending v2 = bw_pending (b_writer b) @ ?M" "d2 = d" "n2 = of_nat (length ?M)" by (auto elim: acceptsE)
  let ?b2 = "b2\<lparr>b_offset := b_offset b2 + n2, b_indexBlock := iblk\<rparr>"
  obtain b3 d3 n3 where w3: "write_block env z (build_block ies) ?b2 d = (b3, d3, Inr n3)"
    using ok mfin ifin w2 v2 by (auto simp: write_index_def Let_def split: prod.splits sum.splits)
  from write_block_ok [OF w3] obtain v3 where v3: "b3 = ?b2\<lparr>b_writer := v3\<rparr>"
    "bw_pending v3 = bw_pending v2 @ ?I" "d3 = d" "n3 = of_nat (length ?I)" using v2(1) by (auto elim: acceptsE)
  let ?ft = "\<lparr>MetaindexHandle = \<lparr>Offset = b_offset b, Length = n2\<rparr>, IndexHandle = \<lparr>Offset = b_offset b + n2, Length = n3\<rparr>\<rparr>"
  have "b_Write env (Footer_EncodeTo ?ft) (b3\<lparr>b_offset := b_offset b3 + n3\<rparr>) d = (b1, d1, None)"
    using ok mfin ifin w2 w3 v2 v3 by (simp add: write_index_def Let_def)
  from b_Write_ok [OF this] v2 v3 off show ?thesis by (auto simp: Let_def elim!: acceptsE)
qed

lemma Builder_Close_rep:
  assumes rep: "tb_rep z b d bs cur" and ok: "Builder_Close env z b d = (b1, d1, None)"
  shows "\<exists>bs' flt. concat bs' = concat bs @ cur \<and> (\<forall>es\<in>set bs'. es \<noteq> []) \<and> data_at d1 (b_file b) = table_bytes z bs' flt \<and>
    file_at d1 (b_file b) \<noteq> None \<and> (\<forall>q. q \<noteq> b_file b \<longrightarrow> file_at d1 q = file_at d q) \<and>
    (if concat bs @ cur = [] then flt = None
     else flt = CreateFilter (NewBloomFilter 10) (map (ExtractUserKey \<circ> fst) (concat bs @ cur)) \<and> flt \<noteq> None)"
proof -
  have up: "b_err b = None" "\<not> b_closed b" using rep by (simp_all add: tb_rep_def)
  from ok up obtain b2 d2 b4 d4 b5 d5 b6 where f: "flushDataBlock env z b d = (b2, d2, None)"
    and f4: "write_filter env (add_pending (b_lastKey b2) b2) d2 = (b4, d4, None)"
    and f5: "write_index env z b4 d4 = (b5, d5, None)" and f6: "b_Flush env b5 d5 = (b6, d1, None)"
    by (auto simp: Builder_Close_def and_then_None)
  define bs' b3 where "bs' = (if cur = [] then bs else bs @ [cur])" and "b3 = add_pending (b_lastKey b2) b2"
  have cc: "concat bs' = concat bs @ cur" by (simp add: bs'_def)
  have r2: "tb_rep z b2 d bs' []" "d2 = d" "b_file b2 = b_file b" using flushDataBlock_rep [OF rep f] unfolding bs'_def by blast+
  have r3: "tb_rep z b3 d bs' []" "\<not> b_pendingIndexEntry b3" "b_file b3 = b_file b"
    using add_pending_rep [OF r2(1)] r2(3) by (simp_all add: b3_def add_pending_def)
  from write_filter_ok [OF r3(1) f4 [folded b3_def, unfolded r2(2)]] obtain w flt where d4: "d4 = d"
    and b4: "b4 = b3\<lparr>b_writer := w, b_offset := of_nat (length (frames z bs' @ (case flt of None \<Rightarrow> [] | Some f \<Rightarrow> f))),
      b_metaIndexBlock := adds (meta_entries z bs' flt) NewBlockBuilder\<rparr>"
    and w: "data_at d (b_file b3) @ bw_pending w = frames z bs' @ (case flt of None \<Rightarrow> [] | Some f \<Rightarrow> f)"
    and flt: "if concat bs' = [] then flt = None else flt = CreateFilter (NewBloomFilter 10) (map (ExtractUserKey \<circ> fst) (concat bs')) \<and> flt \<noteq> None"
    by blast
  have "b_metaIndexBlock b4 = adds (meta_entries z bs' flt) NewBlockBuilder" "b_indexBlock b4 = adds (index_entries z 0 bs') NewBlockBuilder"
    "b_offset b4 = of_nat (length (frames z bs' @ (case flt of None \<Rightarrow> [] | Some f \<Rightarrow> f)))"
    using r3 b4 by (simp_all add: tb_rep_def)
  note ix = write_index_ok [OF f5 this]
  have tb: "data_at d (b_file b) @ bw_pending (b_writer b5) = table_bytes z bs' flt"
    using ix b4 w r3(3) by (simp add: Let_def table_bytes_def flip: append_assoc)
  have "d1 = file_write (b_file b) (bw_pending (b_writer b5)) d"
    using f6 ix b4 r3(3) d4 by (auto simp: b_Flush_def bw_Flush_def split: if_splits option.splits)
  moreover have "file_at d (b_file b) \<noteq> None" using rep by (simp add: tb_rep_def)
  ultimately have "data_at d1 (b_file b) = table_bytes z bs' flt" "file_at d1 (b_file b) \<noteq> None"
    "\<forall>q. q \<noteq> b_file b \<longrightarrow> file_at d1 q = file_at d q" using tb by (auto simp: file_at_write)
  moreover have "\<forall>es\<in>set bs'. es \<noteq> []" using r2(1) by (simp add: tb_rep_def)
  ultimately show ?thesis using flt [unfolded cc] cc
    by - (rule exI [of _ bs'], rule exI [of _ flt], intro conjI, assumption+)
qed

lemma NewBuilder_rep:
  assumes "NewBuilder env p d = (d1, Inr b)"
  shows "tb_rep z b d1 [] [] \<and> b_file b = p \<and> d1 = file_truncate p d"
  using assms
  by (auto simp: NewBuilder_def tb_rep_def written_def bufio_NewWriter_def final_key_def data_at_def file_at_truncate split: if_splits)

text \<open>A successful build leaves the table's bytes in the file, and no other file is touched.\<close>

lemma build_table_bytes:
  assumes "build_table env z p es d = (d1, None)"
  shows "\<exists>bs flt. concat bs = es \<and> (\<forall>b\<in>set bs. b \<noteq> []) \<and> data_at d1 p = table_bytes z bs flt \<and>
    file_at d1 p \<noteq> None \<and> (\<forall>q. q \<noteq> p \<longrightarrow> file_at d1 q = file_at d q) \<and>
    (if es = [] then flt = None else flt = CreateFilter (NewBloomFilter 10) (map (ExtractUserKey \<circ> fst) es) \<and> flt \<noteq> None)"
proof -
  obtain d2 b where n: "NewBuilder env p d = (d2, Inr b)" and "snd (and_then (add_all env z es b d2) (Builder_Close env z)) = (d1, None)"
    using assms by (auto simp: build_table_def split: prod.splits sum.splits)
  then obtain b4 where "and_then (add_all env z es b d2) (Builder_Close env z) = (b4, d1, None)" by (metis prod.collapse)
  then obtain b3 d3 where a: "add_all env z es b d2 = (b3, d3, None)" and c: "Builder_Close env z b3 d3 = (b4, d1, None)"
    by (auto simp: and_then_None)
  have b: "tb_rep z b d2 [] []" "b_file b = p" "d2 = file_truncate p d" using NewBuilder_rep [OF n] by auto
  from add_all_rep [OF b(1) a] obtain bs cur where bs: "tb_rep z b3 d2 bs cur" "d3 = d2" "b_file b3 = p" "concat bs @ cur = es"
    using b(2) by auto
  have "file_at d2 q = file_at d q" if "q \<noteq> p" for q using that b(3) by (simp add: file_at_truncate)
  then show ?thesis using Builder_Close_rep [OF bs(1) c [unfolded bs(2)]] unfolding bs(3,4) by metis
qed

text \<open>Without faults every build succeeds.\<close>

lemma flushDataBlock_succeeds:
  assumes "short_write env = (\<lambda>_. None)" and "\<not> bw_err (b_writer b)"
  shows "\<exists>b'. flushDataBlock env z b d = (b', d, None)"
proof (cases "BlockBuilder_Empty (b_dataBlock b)")
  case False
  obtain blk c where fin: "BlockBuilder_Finish (b_dataBlock b) = (blk, c)" by (cases "BlockBuilder_Finish (b_dataBlock b)")
  obtain b' n where "write_block env z c (b\<lparr>b_dataBlock := blk\<rparr>) d = (b', d, Inr n)"
    using write_block_succeeds [OF assms(1), of "b\<lparr>b_dataBlock := blk\<rparr>" z c d] assms(2) by auto
  then show ?thesis using False fin by (simp add: flushDataBlock_def)
qed (simp add: flushDataBlock_def)

lemma Builder_Add_succeeds:
  assumes "short_write env = (\<lambda>_. None)" and "tb_rep z b d bs cur"
  shows "\<exists>b'. Builder_Add env z k v b d = (b', d, None)"
proof -
  let ?b = "add_pending (findShortestSeparator (b_lastKey b) k) b"
  let ?b1 = "?b\<lparr>b_dataBlock := BlockBuilder_Add k v (b_dataBlock ?b), b_lastKey := k,
                  b_keys := b_keys ?b @ [ExtractUserKey k], b_numEntries := b_numEntries ?b + 1\<rparr>"
  have "\<not> bw_err (b_writer ?b1)" "b_err b = None" "\<not> b_closed b" using assms(2) by (simp_all add: tb_rep_def add_pending_def)
  then show ?thesis using flushDataBlock_succeeds [OF assms(1), of ?b1 z d] by (auto simp: Builder_Add_def Let_def)
qed

lemma add_all_succeeds:
  assumes "short_write env = (\<lambda>_. None)" and "tb_rep z b d bs cur"
  shows "\<exists>b'. add_all env z es b d = (b', d, None)"
  using assms(2)
proof (induction es arbitrary: b bs cur)
  case (Cons e es)
  obtain k v where e: "e = (k, v)" by (cases e)
  obtain b1 where b1: "Builder_Add env z k v b d = (b1, d, None)" using Builder_Add_succeeds [OF assms(1) Cons.prems] by blast
  then obtain bs' cur' where "tb_rep z b1 d bs' cur'" using Builder_Add_rep [OF Cons.prems b1] by blast
  from Cons.IH [OF this] b1 show ?case by (simp add: e)
qed simp

lemma write_filter_succeeds:
  assumes "short_write env = (\<lambda>_. None)" and rep: "tb_rep z b d bs []" and "length (concat bs) \<le> 2 ^ 28"
  shows "\<exists>b'. write_filter env b d = (b', d, None) \<and> \<not> bw_err (b_writer b')"
proof -
  have w: "\<not> bw_err (b_writer b)" using rep by (simp add: tb_rep_def)
  obtain f where "CreateFilter (b_filterPolicy b) (b_keys b) = Some f"
    using bloom.create_total [of "b_keys b"] rep assms(3) by (auto simp: tb_rep_def)
  moreover obtain b' where "b_Write env f b d = (b', d, None)" "\<not> bw_err (b_writer b')"
    using b_Write_succeeds [OF assms(1) w] accepts_err by blast
  ultimately show ?thesis using w by (auto simp: write_filter_def Let_def)
qed

lemma write_index_succeeds:
  assumes s: "short_write env = (\<lambda>_. None)" and w: "\<not> bw_err (b_writer b)"
  shows "\<exists>b'. write_index env z b d = (b', d, None) \<and> \<not> bw_err (b_writer b')"
proof -
  have wb: "\<exists>b' n. write_block env z c b d = (b', d, Inr n) \<and> \<not> bw_err (b_writer b')" if "\<not> bw_err (b_writer b)" for c b
    using write_block_succeeds [OF s that] write_block_ok accepts_err by metis
  obtain mblk mc where m: "BlockBuilder_Finish (b_metaIndexBlock b) = (mblk, mc)" by (cases "BlockBuilder_Finish (b_metaIndexBlock b)")
  obtain b2 n2 where b2: "write_block env z mc (b\<lparr>b_metaIndexBlock := mblk\<rparr>) d = (b2, d, Inr n2)" "\<not> bw_err (b_writer b2)"
    using wb [of "b\<lparr>b_metaIndexBlock := mblk\<rparr>" mc] w by auto
  obtain iblk ic where i: "BlockBuilder_Finish (b_indexBlock b2) = (iblk, ic)" by (cases "BlockBuilder_Finish (b_indexBlock b2)")
  let ?b2 = "b2\<lparr>b_offset := b_offset b2 + n2, b_indexBlock := iblk\<rparr>"
  obtain b3 n3 where b3: "write_block env z ic ?b2 d = (b3, d, Inr n3)" "\<not> bw_err (b_writer b3)"
    using wb [of ?b2 ic] b2(2) by auto
  have "\<exists>b'. b_Write env f (b3\<lparr>b_offset := x\<rparr>) d = (b', d, None) \<and> \<not> bw_err (b_writer b')" for f x
    using b_Write_succeeds [OF s, of "b3\<lparr>b_offset := x\<rparr>"] b3(2) accepts_err by fastforce
  then show ?thesis using m b2 i b3 by (simp add: write_index_def Let_def)
qed

lemma Builder_Close_succeeds:
  assumes s: "short_write env = (\<lambda>_. None)" and c: "\<And>p. close_ok env p" and rep: "tb_rep z b d bs cur"
    and n: "length (concat bs @ cur) \<le> 2 ^ 28"
  shows "\<exists>b' d'. Builder_Close env z b d = (b', d', None)"
proof -
  have up: "b_err b = None" "\<not> b_closed b" "\<not> bw_err (b_writer b)" using rep by (simp_all add: tb_rep_def)
  obtain b1 where b1: "flushDataBlock env z b d = (b1, d, None)" using flushDataBlock_succeeds [OF s up(3)] by blast
  from flushDataBlock_rep [OF rep this] obtain bs' where bs': "tb_rep z b1 d bs' []" "concat bs' = concat bs @ cur" by force
  obtain b2 where b2: "write_filter env (add_pending (b_lastKey b1) b1) d = (b2, d, None)" "\<not> bw_err (b_writer b2)"
    using write_filter_succeeds [OF s conjunct1 [OF add_pending_rep [OF bs'(1)]]] bs'(2) n by auto
  obtain b3 where b3: "write_index env z b2 d = (b3, d, None)" "\<not> bw_err (b_writer b3)"
    using write_index_succeeds [OF s b2(2)] by blast
  have "\<exists>b4 d4. b_Flush env b3 d = (b4, d4, None)" using b3(2) s by (simp add: b_Flush_def bw_Flush_def)
  then show ?thesis using up b1 b2 b3 c by (auto simp: Builder_Close_def)
qed

lemma build_table_succeeds:
  assumes "length es \<le> 2 ^ 28" and "map_of d p \<noteq> Some DirE"
  shows "\<exists>d'. build_table no_faults z p es d = (d', None)"
proof -
  obtain d1 b where n: "NewBuilder no_faults p d = (d1, Inr b)" using assms(2) by (simp add: NewBuilder_def)
  have s: "short_write no_faults = (\<lambda>_. None)" by (simp add: no_faults_def)
  have b: "tb_rep z b d1 [] []" using NewBuilder_rep [OF n] by auto
  obtain b2 where b2: "add_all no_faults z es b d1 = (b2, d1, None)" using add_all_succeeds [OF s b] by blast
  from add_all_rep [OF b this] obtain bs cur where "tb_rep z b2 d1 bs cur" "concat bs @ cur = es" by auto
  then obtain b3 d3 where "Builder_Close no_faults z b2 d1 = (b3, d3, None)"
    using Builder_Close_succeeds [OF s _ \<open>tb_rep z b2 d1 bs cur\<close>] assms(1) by auto
  then show ?thesis using n b2 by (simp add: build_table_def)
qed

section \<open>What the builder touches\<close>

text \<open>Whatever fails, only the file of the table changes.\<close>

definition touches :: "Builder \<Rightarrow> dir \<Rightarrow> Builder \<Rightarrow> dir \<Rightarrow> bool" where
  "touches b d b' d' \<longleftrightarrow> b_file b' = b_file b \<and> (\<forall>q. q \<noteq> b_file b \<longrightarrow> map_of d' q = map_of d q) \<and>
     (\<forall>q. map_of d' q = Some DirE \<longleftrightarrow> map_of d q = Some DirE)"

lemma touches_refl: "b_file b' = b_file b \<Longrightarrow> touches b d b' d"
  by (simp add: touches_def)

lemma touches_trans: "touches b d b1 d1 \<Longrightarrow> touches b1 d1 b2 d2 \<Longrightarrow> touches b d b2 d2"
  by (simp add: touches_def)

lemma touches_cong: "b_file b = b_file c \<Longrightarrow> b_file b' = b_file c' \<Longrightarrow> touches c d c' d' \<Longrightarrow> touches b d b' d'"
  by (simp add: touches_def)

lemma touches_Write: "b_Write env bs b d = (b', d', e) \<Longrightarrow> touches b d b' d'"
  by (auto simp: b_Write_def bw_Write_def touches_def map_of_write dir_write split: if_splits option.splits)

lemma touches_Flush: "b_Flush env b d = (b', d', e) \<Longrightarrow> touches b d b' d'"
  by (auto simp: b_Flush_def bw_Flush_def touches_def map_of_write dir_write split: if_splits option.splits)

lemma touches_block: "write_block env z content b d = (b', d', r) \<Longrightarrow> touches b d b' d'"
  by (auto simp: write_block_def Let_def split: prod.splits option.splits
      dest!: touches_Write intro: touches_trans)

lemma touches_data:
  assumes "flushDataBlock env z b d = (b', d', e)"
  shows "touches b d b' d'"
proof (cases "BlockBuilder_Empty (b_dataBlock b)")
  case True
  then show ?thesis using assms by (simp add: flushDataBlock_def touches_refl)
next
  case False
  obtain blk content where f: "BlockBuilder_Finish (b_dataBlock b) = (blk, content)" by (cases "BlockBuilder_Finish (b_dataBlock b)")
  obtain b1 d1 r where w: "write_block env z content (b\<lparr>b_dataBlock := blk\<rparr>) d = (b1, d1, r)"
    by (cases "write_block env z content (b\<lparr>b_dataBlock := blk\<rparr>) d")
  have "d' = d1" "b_file b' = b_file b1" using assms False f w by (auto simp: flushDataBlock_def split: sum.splits)
  then show ?thesis using touches_cong [OF _ _ touches_block [OF w]] by simp
qed

lemma touches_Add:
  assumes "Builder_Add env z k v b d = (b', d', e)"
  shows "touches b d b' d'"
proof -
  have same: "b_file (add_pending s b) = b_file b" for s by (simp add: add_pending_def)
  let ?b = "(add_pending (findShortestSeparator (b_lastKey b) k) b)\<lparr>b_dataBlock := BlockBuilder_Add k v (b_dataBlock (add_pending (findShortestSeparator (b_lastKey b) k) b)), b_lastKey := k,
                  b_keys := b_keys (add_pending (findShortestSeparator (b_lastKey b) k) b) @ [ExtractUserKey k], b_numEntries := b_numEntries (add_pending (findShortestSeparator (b_lastKey b) k) b) + 1\<rparr>"
  obtain b1 d1 e1 where f: "flushDataBlock env z ?b d = (b1, d1, e1)" by (cases "flushDataBlock env z ?b d")
  have "touches b d b1 d1" using touches_cong [OF _ _ touches_data [OF f], of b b1] same by simp
  moreover have "(b_file b' = b_file b \<and> d' = d) \<or> (b_file b' = b_file b1 \<and> d' = d1)"
    using assms f same by (auto simp: Builder_Add_def Let_def split: if_splits option.splits)
  ultimately show ?thesis by (auto simp: touches_def)
qed

lemma touches_filter: "write_filter env b d = (b', d', e) \<Longrightarrow> touches b d b' d'"
  by (auto simp: write_filter_def Let_def touches_refl split: if_splits prod.splits option.splits
      dest!: touches_Write intro: touches_cong)

lemma touches_index:
  assumes "write_index env z b d = (b', d', e)"
  shows "touches b d b' d'"
proof -
  obtain blk content where f: "BlockBuilder_Finish (b_metaIndexBlock b) = (blk, content)" by (cases "BlockBuilder_Finish (b_metaIndexBlock b)")
  obtain b1 d1 r where w: "write_block env z content (b\<lparr>b_metaIndexBlock := blk\<rparr>) d = (b1, d1, r)"
    by (cases "write_block env z content (b\<lparr>b_metaIndexBlock := blk\<rparr>) d")
  have t1: "touches b d b1 d1" using touches_cong [OF _ _ touches_block [OF w], of b b1] by simp
  show ?thesis
  proof (cases r)
    case (Inl x)
    then show ?thesis using assms f w t1 by (simp add: write_index_def)
  next
    case (Inr n)
    obtain iblk icontent where g: "BlockBuilder_Finish (b_indexBlock b1) = (iblk, icontent)" by (cases "BlockBuilder_Finish (b_indexBlock b1)")
    let ?b2 = "b1\<lparr>b_offset := b_offset b1 + n, b_indexBlock := iblk\<rparr>"
    obtain b2 d2 r2 where w2: "write_block env z icontent ?b2 d1 = (b2, d2, r2)" by (cases "write_block env z icontent ?b2 d1")
    have t2: "touches b d b2 d2" using touches_trans [OF t1] touches_cong [OF _ _ touches_block [OF w2], of b1 b2] by simp
    show ?thesis
    proof (cases r2)
      case (Inl x)
      then show ?thesis using assms f w Inr g w2 t2 by (simp add: write_index_def Let_def)
    next
      case r2: (Inr n2)
      let ?h = "Footer_EncodeTo \<lparr>MetaindexHandle = \<lparr>Offset = b_offset b1, Length = n\<rparr>, IndexHandle = \<lparr>Offset = b_offset b2, Length = n2\<rparr>\<rparr>"
      have "b_Write env ?h (b2\<lparr>b_offset := b_offset b2 + n2\<rparr>) d2 = (b', d', e)"
        using assms f w Inr g w2 r2 by (simp add: write_index_def Let_def)
      from touches_Write [OF this] show ?thesis using t2 by (simp add: touches_def)
    qed
  qed
qed

lemma touches_then:
  assumes "and_then r g = (b', d', e)" and "\<And>b1 d1 e1. r = (b1, d1, e1) \<Longrightarrow> touches b d b1 d1"
    and "\<And>b1 d1 b2 d2 e2. g b1 d1 = (b2, d2, e2) \<Longrightarrow> touches b1 d1 b2 d2"
  shows "touches b d b' d'"
proof -
  obtain b1 d1 e1 where r: "r = (b1, d1, e1)" by (cases r)
  show ?thesis using assms(1,2) assms(3) [of b1 d1 b' d' e] r touches_trans by (cases e1) auto
qed

lemma touches_Close:
  assumes "Builder_Close env z b d = (b', d', e)"
  shows "touches b d b' d'"
proof (cases "b_closed b \<or> b_err b \<noteq> None")
  case True
  then show ?thesis using assms by (auto simp: Builder_Close_def touches_refl split: if_splits)
next
  case False
  have pending: "touches b1 d1 (add_pending s b1) d1" for b1 d1 s by (simp add: touches_refl add_pending_def)
  from False assms have "and_then (flushDataBlock env z b d) (\<lambda>b d.
           and_then (write_filter env (add_pending (b_lastKey b) b) d) (\<lambda>b d.
           and_then (write_index env z b d) (\<lambda>b d.
           and_then (b_Flush env b d) (\<lambda>b d.
           (b\<lparr>b_closed := True\<rparr>, d, if close_ok env (b_file b) then None else Some (Err ''close'')))))) = (b', d', e)"
    by (simp add: Builder_Close_def)
  then show ?thesis
  proof (rule touches_then)
    fix b1 d1 b2 d2 e2
    assume "and_then (write_filter env (add_pending (b_lastKey b1) b1) d1) (\<lambda>b d.
           and_then (write_index env z b d) (\<lambda>b d.
           and_then (b_Flush env b d) (\<lambda>b d.
           (b\<lparr>b_closed := True\<rparr>, d, if close_ok env (b_file b) then None else Some (Err ''close''))))) = (b2, d2, e2)"
    then show "touches b1 d1 b2 d2"
    proof (rule touches_then)
      fix b3 d3 b4 d4 e4
      assume "and_then (write_index env z b3 d3) (\<lambda>b d. and_then (b_Flush env b d) (\<lambda>b d.
           (b\<lparr>b_closed := True\<rparr>, d, if close_ok env (b_file b) then None else Some (Err ''close'')))) = (b4, d4, e4)"
      then show "touches b3 d3 b4 d4"
      proof (rule touches_then)
        fix b5 d5 b6 d6 e6
        assume "and_then (b_Flush env b5 d5) (\<lambda>b d. (b\<lparr>b_closed := True\<rparr>, d, if close_ok env (b_file b) then None else Some (Err ''close''))) = (b6, d6, e6)"
        then show "touches b5 d5 b6 d6" by (rule touches_then) (auto intro: touches_Flush touches_refl)
      qed (rule touches_index)
    qed (use pending touches_trans touches_filter in blast)
  qed (rule touches_data)
qed

lemma touches_add_all: "add_all env z es b d = (b', d', e) \<Longrightarrow> touches b d b' d'"
proof (induction es arbitrary: b d b' d' e)
  case (Cons x es)
  obtain k v where x: "x = (k, v)" by (cases x)
  from Cons.prems have "and_then (Builder_Add env z k v b d) (add_all env z es) = (b', d', e)" by (simp add: x)
  then show ?case by (rule touches_then) (auto intro: touches_Add Cons.IH)
qed (simp add: touches_refl)

section \<open>Properties\<close>

text \<open>C34. Building a table always finishes: when no system call fails, the path is not a directory and there are at most
  \<open>2 ^ 28\<close> entries, creating the builder, adding every entry and closing it return no error, the file is there
  afterwards, and no other file has changed.\<close>

theorem build_table_finishes:
  assumes "length es \<le> 2 ^ 28" and "map_of d p \<noteq> Some DirE"
  shows "\<exists>d'. build_table no_faults z p es d = (d', None) \<and> file_at d' p \<noteq> None \<and> (\<forall>q. q \<noteq> p \<longrightarrow> file_at d' q = file_at d q)"
  using build_table_succeeds [OF assms, of z] build_table_bytes by metis

theorem build_table_finishes_witness:
  "\<exists>d'. build_table no_faults \<lparr>zlib_Write = (\<lambda>b. b), zlib_ReadAll = Inr\<rparr> ''a.sst'' [([1], [2])] [] = (d', None) \<and> file_at d' ''a.sst'' \<noteq> None"
  using build_table_finishes [of "[([1], [2])]" "[]" "''a.sst''" "\<lparr>zlib_Write = (\<lambda>b. b), zlib_ReadAll = Inr\<rparr>"] by auto

end
