(* ===== verification/LRU_Cache.thy ===== *)
theory LRU_Cache
  imports Prelude
begin

text \<open>
  Package \<^verbatim>\<open>internal/cache\<close>: the \<^verbatim>\<open>Cache\<close> interface (\<^verbatim>\<open>cache.go\<close>) and its LRU implementation
  (\<^verbatim>\<open>lru.go\<close>).  The entries live in a store indexed by address; the \<^verbatim>\<open>container/list\<close> is the list
  of addresses, front first, and the map \<^verbatim>\<open>items\<close> points into it.  Sizes are unbounded integers.
  The mutex is not modelled: every method holds it from its first to its last statement.
\<close>

section \<open>lru.go\<close>

record entry =
  ekey :: string
  evalue :: bytes
  esize :: int

record LRUCache =
  capacity :: int
  usage :: int
  elems :: "entry list"
  lst :: "nat list"
  items :: "string \<rightharpoonup> nat"

definition NewLRUCache :: "int \<Rightarrow> LRUCache" where
  "NewLRUCache cap = \<lparr>capacity = cap, usage = 0, elems = [], lst = [], items = Map.empty\<rparr>"

definition MoveToFront :: "nat \<Rightarrow> nat list \<Rightarrow> nat list" where
  "MoveToFront a xs = (if a \<in> set xs then a # remove1 a xs else xs)"

definition cache_Get :: "LRUCache \<Rightarrow> string \<Rightarrow> LRUCache \<times> bytes option" where
  "cache_Get c key =
     (case items c key of
        Some a \<Rightarrow> (c\<lparr>lst := MoveToFront a (lst c)\<rparr>, Some (evalue (elems c ! a)))
      | None \<Rightarrow> (c, None))"

function evict :: "LRUCache \<Rightarrow> LRUCache" where
  "evict c =
     (if usage c > capacity c \<and> length (lst c) > 0 then
        let a = last (lst c); ent = elems c ! a
        in evict (c\<lparr>lst := butlast (lst c), items := (items c)(ekey ent := None),
                    usage := usage c - esize ent\<rparr>)
      else c)"
  by pat_completeness auto
termination
  by (relation "measure (\<lambda>c. length (lst c))") auto

declare evict.simps [simp del]

definition cache_Put :: "LRUCache \<Rightarrow> string \<Rightarrow> bytes \<Rightarrow> LRUCache" where
  "cache_Put c key value =
     (case items c key of
        Some a \<Rightarrow>
          let ent = elems c ! a;
              usage1 = usage c - esize ent;
              ent' = ent\<lparr>evalue := value, esize := int (length value)\<rparr>
          in evict (c\<lparr>lst := MoveToFront a (lst c), elems := (elems c)[a := ent'],
                      usage := usage1 + esize ent'\<rparr>)
      | None \<Rightarrow>
          let size = int (length value);
              ent = \<lparr>ekey = key, evalue = value, esize = size\<rparr>;
              a = length (elems c)
          in evict (c\<lparr>elems := elems c @ [ent], lst := a # lst c,
                      items := (items c)(key \<mapsto> a), usage := usage c + size\<rparr>))"

section \<open>Invariant and abstraction\<close>

definition cache_view :: "LRUCache \<Rightarrow> (string \<times> bytes) list" where
  "cache_view c = map (\<lambda>a. (ekey (elems c ! a), evalue (elems c ! a))) (lst c)"

definition cache_inv :: "LRUCache \<Rightarrow> bool" where
  "cache_inv c \<longleftrightarrow>
     distinct (lst c) \<and> set (lst c) \<subseteq> {..< length (elems c)} \<and>
     (\<forall>k a. items c k = Some a \<longleftrightarrow> a \<in> set (lst c) \<and> ekey (elems c ! a) = k) \<and>
     (\<forall>a \<in> set (lst c). esize (elems c ! a) = int (length (evalue (elems c ! a)))) \<and>
     usage c = (\<Sum>a \<leftarrow> lst c. esize (elems c ! a))"

text \<open>The abstract cache is the list of its entries, most recently used first.\<close>

fun total_size :: "(string \<times> bytes) list \<Rightarrow> int" where
  "total_size [] = 0"
| "total_size ((k, v) # es) = int (length v) + total_size es"

function lru_trim :: "int \<Rightarrow> (string \<times> bytes) list \<Rightarrow> (string \<times> bytes) list" where
  "lru_trim cap es = (if total_size es > cap \<and> es \<noteq> [] then lru_trim cap (butlast es) else es)"
  by pat_completeness auto
termination
  by (relation "measure (\<lambda>(cap, es). length es)") auto

declare lru_trim.simps [simp del]

definition lru_touch :: "string \<Rightarrow> (string \<times> bytes) list \<Rightarrow> (string \<times> bytes) list" where
  "lru_touch k es = filter (\<lambda>e. fst e = k) es @ filter (\<lambda>e. fst e \<noteq> k) es"

definition lru_insert :: "int \<Rightarrow> string \<Rightarrow> bytes \<Rightarrow> (string \<times> bytes) list \<Rightarrow> (string \<times> bytes) list" where
  "lru_insert cap k v es = lru_trim cap ((k, v) # filter (\<lambda>e. fst e \<noteq> k) es)"

section \<open>The cache as an interface\<close>

text \<open>What a reader relies on: a lookup returns what the cache holds, a lookup changes nothing the
  cache holds, and after a store the cache holds nothing but what it held before and the new
  block.\<close>

locale block_cache =
  fixes get :: "'c \<Rightarrow> string \<Rightarrow> 'c \<times> bytes option"
    and put :: "'c \<Rightarrow> string \<Rightarrow> bytes \<Rightarrow> 'c"
    and held :: "'c \<Rightarrow> (string \<rightharpoonup> bytes)"
    and inv :: "'c \<Rightarrow> bool"
  assumes get_result: "inv c \<Longrightarrow> snd (get c k) = held c k"
    and get_held: "inv c \<Longrightarrow> held (fst (get c k)) = held c"
    and get_inv: "inv c \<Longrightarrow> inv (fst (get c k))"
    and put_held: "inv c \<Longrightarrow> held (put c k v) \<subseteq>\<^sub>m (held c)(k \<mapsto> v)"
    and put_inv: "inv c \<Longrightarrow> inv (put c k v)"
begin

text \<open>A cache is coherent with a source of blocks when everything it holds is what the source
  gives.  Both operations keep it coherent, so a cached block is always the stored one.\<close>

definition coherent :: "(string \<rightharpoonup> bytes) \<Rightarrow> 'c \<Rightarrow> bool" where
  "coherent src c \<longleftrightarrow> inv c \<and> held c \<subseteq>\<^sub>m src"

lemma coherent_get: "coherent src c \<Longrightarrow> coherent src (fst (get c k))"
  by (simp add: coherent_def get_held get_inv)

lemma coherent_hit: "coherent src c \<Longrightarrow> snd (get c k) = Some v \<Longrightarrow> src k = Some v"
  by (auto simp: coherent_def get_result map_le_def dom_def)

lemma coherent_put:
  assumes "coherent src c" and "src k = Some v"
  shows "coherent src (put c k v)"
proof -
  have "(held c)(k \<mapsto> v) \<subseteq>\<^sub>m src"
    using assms by (auto simp: coherent_def map_le_def)
  then have "held (put c k v) \<subseteq>\<^sub>m src"
    using assms put_held map_le_trans unfolding coherent_def by blast
  with assms show ?thesis by (simp add: coherent_def put_inv)
qed

end

section \<open>Helper lemmas\<close>

lemma total_size_map: "total_size es = (\<Sum>e \<leftarrow> es. int (length (snd e)))"
  by (induction es rule: total_size.induct) auto

lemma usage_view: "cache_inv c \<Longrightarrow> usage c = total_size (cache_view c)"
  by (auto simp: cache_inv_def total_size_map cache_view_def comp_def intro!: arg_cong [where f = sum_list])

lemma cache_inv_key_unique:
  "cache_inv c \<Longrightarrow> a \<in> set (lst c) \<Longrightarrow> b \<in> set (lst c) \<Longrightarrow>
     ekey (elems c ! a) = ekey (elems c ! b) \<Longrightarrow> a = b"
  by (auto simp: cache_inv_def) (metis option.inject)

lemma distinct_view_keys: "cache_inv c \<Longrightarrow> distinct (map fst (cache_view c))"
  by (auto simp: cache_view_def comp_def distinct_map inj_on_def cache_inv_key_unique)
    (simp add: cache_inv_def)

lemma items_view: "cache_inv c \<Longrightarrow> items c k = Some a \<Longrightarrow> map_of (cache_view c) k = Some (evalue (elems c ! a))"
  using distinct_view_keys [of c]
  by (auto simp: map_of_eq_Some_iff cache_view_def cache_inv_def image_iff comp_def)

lemma items_None_key:
  assumes "cache_inv c" and "items c k = None" and "a \<in> set (lst c)"
  shows "ekey (elems c ! a) \<noteq> k"
proof
  assume "ekey (elems c ! a) = k"
  with assms(1,3) have "items c k = Some a" by (simp add: cache_inv_def)
  with assms(2) show False by simp
qed

lemma items_None_view: "cache_inv c \<Longrightarrow> items c k = None \<Longrightarrow> map_of (cache_view c) k = None"
  by (auto simp: map_of_eq_None_iff cache_view_def dest: items_None_key)

lemma items_None_filter:
  "cache_inv c \<Longrightarrow> items c k = None \<Longrightarrow> filter (\<lambda>e. fst e \<noteq> k) (cache_view c) = cache_view c"
  by (auto simp: filter_id_conv cache_view_def dest: items_None_key)

text \<open>One turn of the eviction loop.\<close>

lemma evict_step:
  assumes "cache_inv c" and "lst c = xs @ [a]"
  defines "d \<equiv> c\<lparr>lst := xs, items := (items c)(ekey (elems c ! a) := None), usage := usage c - esize (elems c ! a)\<rparr>"
  shows "cache_inv d" and "cache_view d = butlast (cache_view c)" and "capacity d = capacity c"
proof -
  have "b \<in> set xs \<Longrightarrow> ekey (elems c ! b) \<noteq> ekey (elems c ! a)" for b
    using assms(1,2) cache_inv_key_unique [OF assms(1), of b a] by (auto simp: cache_inv_def)
  with assms(1,2) show "cache_inv d"
    unfolding cache_inv_def d_def by auto
  show "cache_view d = butlast (cache_view c)" "capacity d = capacity c"
    using assms(2) by (simp_all add: cache_view_def d_def)
qed

lemma evict_correct:
  assumes "cache_inv c"
  shows "cache_inv (evict c) \<and> cache_view (evict c) = lru_trim (capacity c) (cache_view c) \<and>
         capacity (evict c) = capacity c"
  using assms
proof (induction c rule: evict.induct)
  case (1 c)
  show ?case
  proof (cases "usage c > capacity c \<and> length (lst c) > 0")
    case True
    then have ne: "lst c = butlast (lst c) @ [last (lst c)]" by simp
    let ?d = "c\<lparr>lst := butlast (lst c), items := (items c)(ekey (elems c ! last (lst c)) := None),
      usage := usage c - esize (elems c ! last (lst c))\<rparr>"
    note d = evict_step [OF "1.prems" ne]
    have "evict c = evict ?d" using True by (subst evict.simps) (simp add: Let_def)
    moreover have "total_size (cache_view c) > capacity c" "cache_view c \<noteq> []"
      using True usage_view [OF "1.prems"] by (auto simp: cache_view_def)
    then have "lru_trim (capacity c) (cache_view c) = lru_trim (capacity c) (butlast (cache_view c))"
      by (subst lru_trim.simps) simp
    ultimately show ?thesis
      using "1.IH" [OF True refl refl] d by simp
  next
    case False
    then have "lru_trim (capacity c) (cache_view c) = cache_view c"
      using usage_view [OF "1.prems"] by (subst lru_trim.simps) (auto simp: cache_view_def)
    moreover have "evict c = c" using False by (subst evict.simps) auto
    ultimately show ?thesis using "1.prems" by simp
  qed
qed

lemma lru_trim_bound: "lru_trim cap es = [] \<or> total_size (lru_trim cap es) \<le> cap"
  by (induction cap es rule: lru_trim.induct) (subst (1 2) lru_trim.simps, auto)

lemma lru_trim_prefix: "\<exists>zs. es = lru_trim cap es @ zs"
proof (induction cap es rule: lru_trim.induct)
  case (1 cap es)
  show ?case
  proof (cases "total_size es > cap \<and> es \<noteq> []")
    case True
    with "1.IH" obtain zs where "butlast es = lru_trim cap (butlast es) @ zs" by auto
    then have "es = lru_trim cap (butlast es) @ zs @ [last es]"
      using True by (metis append_assoc append_butlast_last_id)
    moreover have "lru_trim cap es = lru_trim cap (butlast es)"
      using True by (subst lru_trim.simps) simp
    ultimately show ?thesis by metis
  next
    case False
    then have "lru_trim cap es = es" by (subst lru_trim.simps) auto
    then show ?thesis by simp
  qed
qed

lemma set_MoveToFront [simp]: "set (MoveToFront a xs) = set xs"
  by (auto simp: MoveToFront_def dest: in_set_remove1 [THEN iffD1, rotated] notin_set_remove1)
    (metis in_set_remove1 notin_set_remove1)

lemma distinct_MoveToFront [simp]: "distinct xs \<Longrightarrow> distinct (MoveToFront a xs)"
  by (simp add: MoveToFront_def)

lemma sum_MoveToFront: "(\<Sum>x \<leftarrow> MoveToFront a xs. f x) = (\<Sum>x \<leftarrow> xs. f x :: int)"
  by (auto simp: MoveToFront_def sum_list_map_remove1)

lemma cache_inv_touch: "cache_inv c \<Longrightarrow> cache_inv (c\<lparr>lst := MoveToFront a (lst c)\<rparr>)"
  by (simp add: cache_inv_def sum_MoveToFront)

lemma filter_eq_single: "a \<in> set xs \<Longrightarrow> distinct xs \<Longrightarrow> filter (\<lambda>b. b = a) xs = [a]"
  by (induction xs) (auto simp: filter_empty_conv)

lemma filter_view:
  assumes "cache_inv c" and "items c k = Some a"
  shows "filter (\<lambda>e. fst e = k) (cache_view c) = [(k, evalue (elems c ! a))]"
    and "filter (\<lambda>e. fst e \<noteq> k) (cache_view c) =
         map (\<lambda>a. (ekey (elems c ! a), evalue (elems c ! a))) (remove1 a (lst c))"
proof -
  have a: "a \<in> set (lst c)" "ekey (elems c ! a) = k" and d: "distinct (lst c)"
    using assms by (auto simp: cache_inv_def)
  have iff: "ekey (elems c ! b) = k \<longleftrightarrow> b = a" if "b \<in> set (lst c)" for b
    using cache_inv_key_unique [OF assms(1) that a(1)] a(2) by auto
  have "filter (\<lambda>b. ekey (elems c ! b) = k) (lst c) = filter (\<lambda>b. b = a) (lst c)"
    using iff by (simp cong: filter_cong)
  also have "\<dots> = [a]" using a(1) d by (rule filter_eq_single)
  finally show "filter (\<lambda>e. fst e = k) (cache_view c) = [(k, evalue (elems c ! a))]"
    using a(2) by (simp add: cache_view_def filter_map comp_def)
  have "filter (\<lambda>b. ekey (elems c ! b) \<noteq> k) (lst c) = filter (\<lambda>b. b \<noteq> a) (lst c)"
    using iff by (auto cong: filter_cong)
  also have "\<dots> = remove1 a (lst c)" using d by (simp add: distinct_remove1_removeAll removeAll_filter_not_eq eq_commute)
  finally show "filter (\<lambda>e. fst e \<noteq> k) (cache_view c) =
         map (\<lambda>a. (ekey (elems c ! a), evalue (elems c ! a))) (remove1 a (lst c))"
    by (simp add: cache_view_def filter_map comp_def)
qed

section \<open>Get and Put refine the abstract cache\<close>

lemma cache_Get_correct:
  assumes "cache_inv c"
  shows "cache_inv (fst (cache_Get c k))" and "snd (cache_Get c k) = map_of (cache_view c) k"
    and "cache_view (fst (cache_Get c k)) = lru_touch k (cache_view c)"
    and "capacity (fst (cache_Get c k)) = capacity c"
proof -
  show "cache_inv (fst (cache_Get c k))" "capacity (fst (cache_Get c k)) = capacity c"
    using assms by (auto simp: cache_Get_def cache_inv_touch split: option.splits)
  show "snd (cache_Get c k) = map_of (cache_view c) k"
    using assms items_view items_None_view by (auto simp: cache_Get_def split: option.splits)
  show "cache_view (fst (cache_Get c k)) = lru_touch k (cache_view c)"
  proof (cases "items c k")
    case None
    then show ?thesis
      using items_None_filter [OF assms None] items_None_view [OF assms None]
      by (auto simp: cache_Get_def lru_touch_def filter_empty_conv map_of_eq_None_iff)
  next
    case (Some a)
    have "a \<in> set (lst c)" "ekey (elems c ! a) = k"
      using assms Some by (auto simp: cache_inv_def)
    then show ?thesis
      using filter_view [OF assms Some]
      by (simp add: cache_Get_def Some lru_touch_def cache_view_def MoveToFront_def)
  qed
qed

lemma update_correct:
  fixes v :: bytes
  assumes inv: "cache_inv c" and a: "items c k = Some a"
  defines "d \<equiv> c\<lparr>lst := MoveToFront a (lst c),
      elems := (elems c)[a := (elems c ! a)\<lparr>evalue := v, esize := int (length v)\<rparr>],
      usage := usage c - esize (elems c ! a) + int (length v)\<rparr>"
  shows "cache_inv d" and "cache_view d = (k, v) # filter (\<lambda>e. fst e \<noteq> k) (cache_view c)"
proof -
  have mem: "a \<in> set (lst c)" "ekey (elems c ! a) = k" "a < length (elems c)" and dist: "distinct (lst c)"
    using assms by (auto simp: cache_inv_def)
  have key: "ekey (elems d ! b) = ekey (elems c ! b)" for b
    using mem(3) by (cases "a = b") (auto simp: d_def)
  have other: "elems d ! b = elems c ! b" if "b \<noteq> a" for b
    using that by (simp add: d_def)
  have here: "esize (elems d ! a) = int (length v)" "evalue (elems d ! a) = v"
    using mem(3) by (simp_all add: d_def)
  have "(\<Sum>b \<leftarrow> lst c. esize (elems d ! b)) = int (length v) + (\<Sum>b \<leftarrow> remove1 a (lst c). esize (elems d ! b))"
    using mem(1) here by (simp add: sum_list_map_remove1)
  also have "(\<Sum>b \<leftarrow> remove1 a (lst c). esize (elems d ! b)) = (\<Sum>b \<leftarrow> remove1 a (lst c). esize (elems c ! b))"
    using dist other by (intro arg_cong [where f = sum_list] map_cong) auto
  also have "\<dots> = usage c - esize (elems c ! a)"
    using inv mem(1) by (simp add: cache_inv_def sum_list_map_remove1)
  finally have "(\<Sum>b \<leftarrow> lst d. esize (elems d ! b)) = usage d"
    by (simp add: d_def sum_MoveToFront)
  moreover have "esize (elems d ! b) = int (length (evalue (elems d ! b)))" if "b \<in> set (lst d)" for b
    using inv here other [of b] that by (cases "b = a") (simp_all add: d_def cache_inv_def)
  ultimately show "cache_inv d"
    using inv key unfolding cache_inv_def by (simp add: d_def)
  have "map (\<lambda>b. (ekey (elems d ! b), evalue (elems d ! b))) (remove1 a (lst c)) =
        map (\<lambda>b. (ekey (elems c ! b), evalue (elems c ! b))) (remove1 a (lst c))"
    using dist other by (intro map_cong) auto
  then show "cache_view d = (k, v) # filter (\<lambda>e. fst e \<noteq> k) (cache_view c)"
    using mem(1,2) here key filter_view(2) [OF inv a]
    by (simp add: cache_view_def MoveToFront_def d_def)
qed

lemma insert_correct:
  fixes v :: bytes
  assumes inv: "cache_inv c" and none: "items c k = None"
  defines "d \<equiv> c\<lparr>elems := elems c @ [\<lparr>ekey = k, evalue = v, esize = int (length v)\<rparr>],
      lst := length (elems c) # lst c, items := (items c)(k \<mapsto> length (elems c)),
      usage := usage c + int (length v)\<rparr>"
  shows "cache_inv d" and "cache_view d = (k, v) # filter (\<lambda>e. fst e \<noteq> k) (cache_view c)"
proof -
  let ?n = "length (elems c)"
  have bound: "b < ?n" if "b \<in> set (lst c)" for b
    using inv that by (auto simp: cache_inv_def)
  have old: "elems d ! b = elems c ! b" if "b \<in> set (lst c)" for b
    using bound [OF that] by (simp add: d_def nth_append)
  have new: "elems d ! ?n = \<lparr>ekey = k, evalue = v, esize = int (length v)\<rparr>"
    by (simp add: d_def)
  have items: "items d k' = Some b \<longleftrightarrow> b \<in> set (lst d) \<and> ekey (elems d ! b) = k'" for k' b
    using inv old new bound items_None_key [OF inv none]
    by (auto simp: d_def cache_inv_def)
  have size: "\<forall>b \<in> set (lst d). esize (elems d ! b) = int (length (evalue (elems d ! b)))"
    using inv old new by (simp add: d_def cache_inv_def)
  have "(\<Sum>b \<leftarrow> lst c. esize (elems d ! b)) = (\<Sum>b \<leftarrow> lst c. esize (elems c ! b))"
    using old by (intro arg_cong [where f = sum_list] map_cong) auto
  then have "usage d = (\<Sum>b \<leftarrow> lst d. esize (elems d ! b))"
    using inv new by (simp add: d_def cache_inv_def)
  moreover have "distinct (lst d)" "set (lst d) \<subseteq> {..< length (elems d)}"
    using inv by (auto simp: d_def cache_inv_def dest: bound)
  ultimately show "cache_inv d"
    using items size unfolding cache_inv_def by blast
  have "map (\<lambda>b. (ekey (elems d ! b), evalue (elems d ! b))) (lst c) = cache_view c"
    using old by (simp add: cache_view_def)
  then show "cache_view d = (k, v) # filter (\<lambda>e. fst e \<noteq> k) (cache_view c)"
    using new items_None_filter [OF inv none] by (simp add: cache_view_def d_def)
qed

lemma cache_Put_correct:
  assumes "cache_inv c"
  shows "cache_inv (cache_Put c k v)" and "capacity (cache_Put c k v) = capacity c"
    and "cache_view (cache_Put c k v) = lru_insert (capacity c) k v (cache_view c)"
proof -
  have "cache_inv (cache_Put c k v) \<and> capacity (cache_Put c k v) = capacity c \<and>
    cache_view (cache_Put c k v) = lru_insert (capacity c) k v (cache_view c)"
  proof (cases "items c k")
    case None
    then show ?thesis
      using insert_correct [OF assms None, of v] evict_correct
      by (simp add: cache_Put_def Let_def lru_insert_def)
  next
    case (Some a)
    then show ?thesis
      using update_correct [OF assms Some, of v] evict_correct
      by (simp add: cache_Put_def Let_def lru_insert_def)
  qed
  then show "cache_inv (cache_Put c k v)" "capacity (cache_Put c k v) = capacity c"
    "cache_view (cache_Put c k v) = lru_insert (capacity c) k v (cache_view c)" by simp_all
qed

lemma cache_inv_New: "cache_inv (NewLRUCache cap)" "cache_view (NewLRUCache cap) = []"
  by (simp_all add: NewLRUCache_def cache_inv_def cache_view_def)

lemma capacity_New: "capacity (NewLRUCache cap) = cap"
  by (simp add: NewLRUCache_def)

lemma map_of_filter_fst: "map_of (filter (\<lambda>e. P (fst e)) es) k = (if P k then map_of es k else None)"
  by (induction es) auto

lemma map_of_lru_touch: "distinct (map fst es) \<Longrightarrow> map_of (lru_touch k es) = map_of es"
  using map_of_filter_fst [of "\<lambda>x. x = k" es] map_of_filter_fst [of "\<lambda>x. x \<noteq> k" es]
  by (auto simp: fun_eq_iff lru_touch_def map_add_def split: option.split)

lemma map_of_lru_insert: "map_of (lru_insert cap k v es) \<subseteq>\<^sub>m (map_of es)(k \<mapsto> v)"
proof -
  let ?xs = "(k, v) # filter (\<lambda>e. fst e \<noteq> k) es"
  obtain zs where zs: "?xs = lru_trim cap ?xs @ zs" using lru_trim_prefix by blast
  have "map_of (lru_trim cap ?xs) \<subseteq>\<^sub>m map_of (lru_trim cap ?xs @ zs)"
    by (auto simp: map_le_def map_add_def dom_def split: option.split)
  also have "map_of (lru_trim cap ?xs @ zs) = map_of ?xs" using zs by simp
  also have "map_of ?xs = (map_of es)(k \<mapsto> v)"
    using map_of_filter_fst [of "\<lambda>x. x \<noteq> k" es] by (auto simp: fun_eq_iff)
  finally show ?thesis unfolding lru_insert_def .
qed

interpretation lru: block_cache cache_Get cache_Put "\<lambda>c. map_of (cache_view c)" cache_inv
  by unfold_locales
    (simp_all add: cache_Get_correct cache_Put_correct map_of_lru_touch distinct_view_keys map_of_lru_insert)

section \<open>Properties\<close>

text \<open>A client of the cache is a sequence of calls.\<close>

datatype cache_op = OpGet string | OpPut string bytes

fun cache_step :: "cache_op \<Rightarrow> LRUCache \<Rightarrow> LRUCache" where
  "cache_step (OpGet k) c = fst (cache_Get c k)"
| "cache_step (OpPut k v) c = cache_Put c k v"

fun lru_step :: "int \<Rightarrow> cache_op \<Rightarrow> (string \<times> bytes) list \<Rightarrow> (string \<times> bytes) list" where
  "lru_step cap (OpGet k) es = lru_touch k es"
| "lru_step cap (OpPut k v) es = lru_insert cap k v es"

lemma cache_run_refines:
  "cache_inv c \<Longrightarrow>
     cache_inv (fold cache_step ops c) \<and> capacity (fold cache_step ops c) = capacity c \<and>
     cache_view (fold cache_step ops c) = fold (lru_step (capacity c)) ops (cache_view c)"
proof (induction ops arbitrary: c)
  case Nil
  then show ?case by simp
next
  case (Cons op ops)
  then have "cache_inv (cache_step op c)" "capacity (cache_step op c) = capacity c"
    "cache_view (cache_step op c) = lru_step (capacity c) op (cache_view c)"
    by (cases op; simp add: cache_Get_correct cache_Put_correct)+
  with Cons.IH show ?case by simp
qed

text \<open>C13. After any sequence of lookups and stores the pointer structure represents exactly the
  abstract least-recently-used list, and a further lookup answers from that list.\<close>

theorem cache_refines_lru:
  "let c = fold cache_step ops (NewLRUCache cap); es = fold (lru_step cap) ops []
   in cache_view c = es \<and> snd (cache_Get c k) = map_of es k"
  using cache_run_refines [OF cache_inv_New(1), of ops cap] cache_Get_correct(2)
  by (simp add: Let_def cache_inv_New capacity_New)

text \<open>C23. The cache never uses more than its capacity: after any sequence of calls that ends with a
  store, either it is empty or the sizes of its blocks add up to at most the capacity, and the
  usage counter is that sum.\<close>

theorem cache_within_capacity:
  "let c = cache_Put (fold cache_step ops (NewLRUCache cap)) k v
   in usage c = total_size (cache_view c) \<and> (cache_view c = [] \<or> usage c \<le> cap)"
proof -
  let ?b = "fold cache_step ops (NewLRUCache cap)"
  have b: "cache_inv ?b" "capacity ?b = cap"
    using cache_run_refines [OF cache_inv_New(1), of ops cap] by (simp_all add: capacity_New)
  have "usage (cache_Put ?b k v) = total_size (cache_view (cache_Put ?b k v))"
    by (rule usage_view) (rule cache_Put_correct(1) [OF b(1)])
  moreover have "cache_view (cache_Put ?b k v) = [] \<or> total_size (cache_view (cache_Put ?b k v)) \<le> cap"
    using lru_trim_bound by (simp add: cache_Put_correct(3) [OF b(1)] lru_insert_def b(2))
  ultimately show ?thesis by (simp add: Let_def)
qed

end
