(* ===== verification/SST_Reader.thy ===== *)
theory SST_Reader
  imports SST_Builder LRU_Cache
begin

text \<open>
  Package \<^verbatim>\<open>sstable\<close>, \<^verbatim>\<open>reader.go\<close> and \<^verbatim>\<open>iterator.go\<close>: reading a table file.  A reader holds the bytes of the file it
  opened (a table file is never written again, and an open file outlives its removal); the block cache,
  shared by all readers, is passed in and out of every call, \<open>None\<close> standing for a \<^verbatim>\<open>nil\<close> cache.  An operation
  without an error result returns \<open>None\<close> where the code would panic.
\<close>

section \<open>reader.go\<close>

record Reader =
  r_file :: bytes
  r_size :: nat
  r_path :: string
  r_filterPolicy :: BloomFilter
  r_filterData :: "bytes option"

text \<open>\<^verbatim>\<open>file.ReadAt(make([]byte, n), int64(off))\<close>: the allocation, a negative offset, a failing read and the end of the
  file.\<close>

definition ReadAt :: "os_env \<Rightarrow> Reader \<Rightarrow> u64 \<Rightarrow> u64 \<Rightarrow> bytes res" where
  "ReadAt env r n off =
     (if uint n > maxAlloc then Inl (Panic ''makeslice: len out of range'')
      else if sint off < 0 then Inl (Err ''negative offset'')
      else if n = 0 then Inr []
      else if \<not> read_ok env (r_path r) then Inl (Err ''read'')
      else if unat off + unat n \<le> length (r_file r) then Inr (take (unat n) (drop (unat off) (r_file r)))
      else Inl (Err ''EOF''))"

text \<open>From the stored bytes of a block to its content: checksum, compression type, decompression.\<close>

definition decode_block :: "zlib \<Rightarrow> bytes \<Rightarrow> bytes res" where
  "decode_block z data =
     (if length data < 5 then Inl (Err ''block too short for checksum'')
      else
        let content = take (length data - 4) data;
            expectedCRC = Uint32 (drop (length data - 4) data);
            actualCRC = ChecksumIEEE content
        in if actualCRC \<noteq> expectedCRC then Inl (Err ''block checksum mismatch'')
           else
             let cType = content ! (length content - 1);
                 payload = take (length content - 1) content
             in if cType = NoCompression then Inr payload
                else if cType = ZlibCompression then decompress z payload
                else Inl (Err ''unknown compression type''))"

definition cacheKey :: "string \<Rightarrow> u64 \<Rightarrow> string" where
  "cacheKey path off = path @ ''|'' @ decimal (unat off)"

definition cache_lookup :: "LRUCache option \<Rightarrow> string \<Rightarrow> LRUCache option \<times> bytes option" where
  "cache_lookup c k = (case c of None \<Rightarrow> (None, None) | Some l \<Rightarrow> (case cache_Get l k of (l, v) \<Rightarrow> (Some l, v)))"

definition cache_store :: "LRUCache option \<Rightarrow> string \<Rightarrow> bytes \<Rightarrow> LRUCache option" where
  "cache_store c k v = map_option (\<lambda>l. cache_Put l k v) c"

definition ReadBlock :: "os_env \<Rightarrow> zlib \<Rightarrow> Reader \<Rightarrow> BlockHandle \<Rightarrow> LRUCache option \<Rightarrow> LRUCache option \<times> BlockIterator res" where
  "ReadBlock env z r handle c =
     (case cache_lookup c (cacheKey (r_path r) (Offset handle)) of
        (c, Some data) \<Rightarrow> (c, Inr (NewBlockIterator data))
      | (c, None) \<Rightarrow>
          (case bindr (ReadAt env r (Length handle) (Offset handle)) (decode_block z) of
             Inl e \<Rightarrow> (c, Inl e)
           | Inr decoded \<Rightarrow> (cache_store c (cacheKey (r_path r) (Offset handle)) decoded, Inr (NewBlockIterator decoded))))"

definition ReadFooter :: "os_env \<Rightarrow> Reader \<Rightarrow> Footer res" where
  "ReadFooter env r =
     (if r_size r < FooterSize then Inl ErrCorruptSSTable
      else bindr (ReadAt env r (of_nat FooterSize) (of_nat (r_size r - FooterSize))) DecodeFooter)"

definition read_filter :: "os_env \<Rightarrow> BlockIterator \<Rightarrow> Reader \<Rightarrow> Reader \<times> go_err option" where
  "read_filter env it r =
     (if bi_Valid it \<and> bi_key it = string_bytes ''vern.filter.bloom'' then
        case DecodeBlockHandle (bi_value it) of
          None \<Rightarrow> (r, Some (Panic ''slice bounds out of range''))
        | Some h \<Rightarrow> (case ReadAt env r (Length h) (Offset h) of
              Inl e \<Rightarrow> (r, Some e)
            | Inr data \<Rightarrow> (r\<lparr>r_filterData := Some data\<rparr>, None))
      else (r, None))"

definition loadFilter :: "os_env \<Rightarrow> zlib \<Rightarrow> Reader \<Rightarrow> LRUCache option \<Rightarrow> LRUCache option \<times> Reader \<times> go_err option" where
  "loadFilter env z r c =
     (case ReadFooter env r of
        Inl e \<Rightarrow> (c, r, Some e)
      | Inr footer \<Rightarrow>
          (case ReadBlock env z r (MetaindexHandle footer) c of
             (c, Inl e) \<Rightarrow> (c, r, Some e)
           | (c, Inr metaIndexBlock) \<Rightarrow>
               (case bi_Seek (string_bytes ''vern.filter.bloom'') metaIndexBlock of
                  None \<Rightarrow> (c, r, Some (Panic ''index out of range''))
                | Some it \<Rightarrow> (c, read_filter env it r))))"

definition NewReader :: "os_env \<Rightarrow> zlib \<Rightarrow> string \<Rightarrow> LRUCache option \<Rightarrow> dir \<Rightarrow> LRUCache option \<times> Reader res" where
  "NewReader env z path c d =
     (case file_at d path of
        None \<Rightarrow> (c, Inl (Err ''open''))
      | Some f \<Rightarrow>
          if \<not> open_ok env path then (c, Inl (Err ''open''))
          else if \<not> stat_ok env path then (c, Inl (Err ''stat''))
          else (case loadFilter env z \<lparr>r_file = fdata f, r_size = length (fdata f), r_path = path,
                       r_filterPolicy = NewBloomFilter 10, r_filterData = None\<rparr> c of
                  (c, r, Some (Panic m)) \<Rightarrow> (c, Inl (Panic m))
                | (c, r, _) \<Rightarrow> (c, Inr r)))"

definition MayContain :: "bytes \<Rightarrow> Reader \<Rightarrow> bool option" where
  "MayContain key r =
     (case r_filterData r of None \<Rightarrow> Some True | Some f \<Rightarrow> KeyMayMatch (r_filterPolicy r) key f)"

record TableIterator =
  ti_reader :: Reader
  ti_index :: BlockIterator
  ti_data :: "BlockIterator option"
  ti_valid :: bool
  ti_err :: "go_err option"

definition Reader_NewIterator :: "os_env \<Rightarrow> zlib \<Rightarrow> Reader \<Rightarrow> LRUCache option \<Rightarrow> LRUCache option \<times> TableIterator res" where
  "Reader_NewIterator env z r c =
     (case ReadFooter env r of
        Inl e \<Rightarrow> (c, Inl e)
      | Inr footer \<Rightarrow>
          (case ReadBlock env z r (IndexHandle footer) c of
             (c, Inl e) \<Rightarrow> (c, Inl e)
           | (c, Inr indexBlock) \<Rightarrow>
               (c, Inr \<lparr>ti_reader = r, ti_index = indexBlock, ti_data = None, ti_valid = False, ti_err = None\<rparr>)))"

definition sstable_NewIterator :: "os_env \<Rightarrow> zlib \<Rightarrow> string \<Rightarrow> LRUCache option \<Rightarrow> dir \<Rightarrow> LRUCache option \<times> TableIterator res" where
  "sstable_NewIterator env z path c d =
     (case NewReader env z path c d of
        (c, Inl e) \<Rightarrow> (c, Inl e)
      | (c, Inr r) \<Rightarrow> Reader_NewIterator env z r c)"

definition ti_Valid :: "TableIterator \<Rightarrow> bool" where
  "ti_Valid it \<longleftrightarrow> ti_valid it \<and> ti_err it = None"

text \<open>\<^verbatim>\<open>Key\<close> and \<^verbatim>\<open>Value\<close> are called on valid iterators only, which have a data block.\<close>

definition ti_Key :: "TableIterator \<Rightarrow> bytes" where
  "ti_Key it = (case ti_data it of Some b \<Rightarrow> bi_key b | None \<Rightarrow> [])"

definition ti_Value :: "TableIterator \<Rightarrow> bytes" where
  "ti_Value it = (case ti_data it of Some b \<Rightarrow> bi_value b | None \<Rightarrow> [])"

type_synonym ti_result = "(LRUCache option \<times> TableIterator) option"

definition loadDataBlock :: "os_env \<Rightarrow> zlib \<Rightarrow> LRUCache option \<Rightarrow> TableIterator \<Rightarrow> ti_result" where
  "loadDataBlock env z c it =
     (if \<not> bi_Valid (ti_index it) then Some (c, it\<lparr>ti_data := None, ti_valid := False\<rparr>)
      else case DecodeBlockHandle (bi_value (ti_index it)) of
             None \<Rightarrow> None
           | Some handle \<Rightarrow>
               (case ReadBlock env z (ti_reader it) handle c of
                  (c, Inl (Panic m)) \<Rightarrow> None
                | (c, Inl (Err m)) \<Rightarrow> Some (c, it\<lparr>ti_err := Some (Err m), ti_valid := False\<rparr>)
                | (c, Inr block) \<Rightarrow> Some (c, it\<lparr>ti_data := Some block\<rparr>)))"

text \<open>The end of \<^verbatim>\<open>SeekToFirst\<close>, \<^verbatim>\<open>Seek\<close> and \<^verbatim>\<open>Next\<close>: position the loaded data block.\<close>

definition enter_block :: "(BlockIterator \<Rightarrow> BlockIterator option) \<Rightarrow> LRUCache option \<times> TableIterator \<Rightarrow> ti_result" where
  "enter_block pos r = (case r of (c, it) \<Rightarrow>
     (case ti_data it of
        None \<Rightarrow> Some (c, it\<lparr>ti_valid := False\<rparr>)
      | Some b \<Rightarrow> map_option (\<lambda>b. (c, it\<lparr>ti_data := Some b, ti_valid := bi_Valid b\<rparr>)) (pos b)))"

definition ti_SeekToFirst :: "os_env \<Rightarrow> zlib \<Rightarrow> LRUCache option \<Rightarrow> TableIterator \<Rightarrow> ti_result" where
  "ti_SeekToFirst env z c it =
     Option.bind (bi_SeekToFirst (ti_index it)) (\<lambda>ix.
     Option.bind (loadDataBlock env z c (it\<lparr>ti_index := ix\<rparr>)) (enter_block bi_SeekToFirst))"

definition ti_Seek :: "os_env \<Rightarrow> zlib \<Rightarrow> bytes \<Rightarrow> LRUCache option \<Rightarrow> TableIterator \<Rightarrow> ti_result" where
  "ti_Seek env z key c it =
     Option.bind (bi_Seek key (ti_index it)) (\<lambda>ix.
     Option.bind (loadDataBlock env z c (it\<lparr>ti_index := ix\<rparr>)) (enter_block (bi_Seek key)))"

definition ti_Next :: "os_env \<Rightarrow> zlib \<Rightarrow> LRUCache option \<Rightarrow> TableIterator \<Rightarrow> ti_result" where
  "ti_Next env z c it =
     (case ti_data it of
        None \<Rightarrow> Some (c, it)
      | Some b \<Rightarrow> Option.bind (bi_Next b) (\<lambda>b.
          let it = it\<lparr>ti_data := Some b\<rparr>
          in if \<not> bi_Valid b then
               Option.bind (bi_Next (ti_index it)) (\<lambda>ix.
               Option.bind (loadDataBlock env z c (it\<lparr>ti_index := ix\<rparr>)) (enter_block bi_SeekToFirst))
             else Some (c, it\<lparr>ti_valid := True\<rparr>)))"

text \<open>The iterator with a \<^verbatim>\<open>nil\<close> cache as an \<^verbatim>\<open>InternalIterator\<close>.\<close>

definition ti_ops :: "os_env \<Rightarrow> zlib \<Rightarrow> TableIterator iter_ops" where
  "ti_ops env z = \<lparr>op_SeekToFirst = (\<lambda>it. map_option snd (ti_SeekToFirst env z None it)),
     op_Next = (\<lambda>it. map_option snd (ti_Next env z None it)), op_Valid = ti_Valid, op_Key = ti_Key, op_Value = ti_Value\<rparr>"

section \<open>Sizes\<close>

lemma length_PutUvarint: "length (PutUvarint x) \<le> n" if "0 < n" "unat x < 2 ^ (7 * n)" for x n
  using that
proof (induction n arbitrary: x)
  case (Suc n)
  show ?case
  proof (cases "x < 0x80")
    case True
    then show ?thesis by (simp add: PutUvarint.simps [of x])
  next
    case False
    then have "128 \<le> unat x" by (simp add: word_less_nat_alt not_less)
    then have "0 < n" using Suc.prems(2) by (cases n) auto
    moreover have "unat (drop_bit 7 x) < 2 ^ (7 * n)"
      using Suc.prems(2) by (simp add: unat_drop_bit_eq drop_bit_eq_div unat_div less_mult_imp_div_less power_add mult.commute)
    ultimately show ?thesis using False Suc.IH by (simp add: PutUvarint.simps [of x])
  qed
qed simp

lemma length_putVarint: "length (putVarint n) \<le> 10"
  unfolding putVarint_def
proof (rule length_PutUvarint)
  have "unat (of_nat n :: u64) < 2 ^ 64" using unat_bound [of "of_nat n :: u64"] by simp
  also have "\<dots> \<le> 2 ^ (7 * 10)" by simp
  finally show "unat (of_nat n :: u64) < 2 ^ (7 * 10)" .
qed simp

text \<open>A bound on the size of a table's parts that depends on the entries only.\<close>

definition cost :: "entries \<Rightarrow> nat" where
  "cost es = (\<Sum>(k, v) \<leftarrow> es. 100 + length k + length v)"

lemma cost_simps [simp]:
  "cost [] = 0" "cost ((k, v) # es) = 100 + length k + length v + cost es" "cost (es @ fs) = cost es + cost fs"
  by (simp_all add: cost_def)

lemma length_entry_le: "length (entry_bytes_of (sh, k, v)) \<le> 30 + length k + length v"
  using length_putVarint [of sh] length_putVarint [of "length k - sh"] length_putVarint [of "length v"]
  by (simp add: entry_bytes_of_def)

lemma length_block_bytes: "length (block_bytes cs) + 70 * length cs \<le> cost (plain cs)"
proof (induction cs)
  case (Cons c cs)
  obtain sh k v where c: "c = (sh, k, v)" by (cases c)
  show ?case using Cons length_entry_le [of sh k v] by (simp add: c)
qed simp

lemma build_block_size: "length (build_block es) + 60 * length es \<le> cost es + 8"
proof -
  obtain cs idx where rep: "bb_rep (adds es NewBlockBuilder) cs idx" and p: "plain cs = es"
    using bb_rep_adds [OF bb_rep_New, of es] by auto
  have "length idx \<le> length es + 1"
  proof -
    have "set idx \<subseteq> {..length es}" using rep p by (auto simp: bb_rep_def restart_at_def)
    then have "card (set idx) \<le> card {..length es}" by (rule card_mono [rotated]) simp
    moreover have "distinct idx" using rep by (simp add: bb_rep_def strict_sorted_iff)
    ultimately show ?thesis by (simp add: distinct_card)
  qed
  moreover have "length (build_block es) = length (block_bytes cs) + 4 * length idx + 4"
  proof -
    have "bb_buf (adds es NewBlockBuilder) = block_bytes cs" "length (bb_restarts (adds es NewBlockBuilder)) = length idx"
      using rep by (simp_all add: bb_rep_def)
    then show ?thesis by (simp add: build_block_def BlockBuilder_Finish_def Let_def length_restarts)
  qed
  moreover have "length cs = length es" using p by (metis length_map)
  ultimately show ?thesis using length_block_bytes [of cs] p by simp
qed

lemma length_frame_le: "length (frame z c) \<le> length c + 5"
  by (auto simp: length_frame choose_compression_def Let_def)

lemma cost_concat: "b \<in> set bs \<Longrightarrow> cost b \<le> cost (concat bs)"
  by (induction bs) auto

lemma length_frames: "\<forall>b\<in>set bs. b \<noteq> [] \<Longrightarrow> length (frames z bs) \<le> cost (concat bs)"
proof (induction bs)
  case (Cons b bs)
  have "length (frame z (build_block b)) \<le> cost b"
    using length_frame_le [of z "build_block b"] build_block_size [of b] Cons.prems by (cases b) auto
  then show ?case using Cons by simp
qed simp

lemma cost_index: "\<forall>b\<in>set bs. b \<noteq> [] \<Longrightarrow> cost (index_entries z off bs) \<le> cost (concat bs) + 16 * length (concat bs)"
proof (induction bs arbitrary: off)
  case (Cons b bs)
  then obtain xs k v where b: "b = xs @ [(k, v)]" by (metis list.set_intros(1) prod.exhaust rev_exhaust)
  have "cost (index_entries z (off + length (frame z (build_block b))) bs) \<le> cost (concat bs) + 16 * length (concat bs)"
    using Cons by simp
  then show ?case by (simp add: Let_def b)
qed simp

lemma length_concat_cost: "100 * length es \<le> cost es"
  by (induction es) auto

section \<open>Reading what was written\<close>

lemma decode_block_frame:
  assumes "zlib_inverse z"
  shows "decode_block z (frame z c) = Inr c"
proof -
  obtain final t where ft: "choose_compression z c = (final, t)" by (cases "choose_compression z c")
  let ?crc = "PutUint32 (ChecksumIEEE (final @ [t]))"
  have fr: "frame z c = (final @ [t]) @ ?crc" by (simp add: frame_def ft)
  have l: "length (frame z c) - 4 = length (final @ [t])" by (simp add: fr)
  have "take (length (frame z c) - 4) (frame z c) = final @ [t]" "drop (length (frame z c) - 4) (frame z c) = ?crc"
    unfolding l by (simp_all add: fr)
  then have "decode_block z (frame z c) = (if t = NoCompression then Inr final
      else if t = ZlibCompression then decompress z final else Inl (Err ''unknown compression type''))"
    unfolding decode_block_def Let_def by (simp add: fr nth_append)
  also have "\<dots> = Inr c"
    using ft assms by (auto simp: choose_compression_def Let_def compress_def decompress_def zlib_inverse_def
        NoCompression_def ZlibCompression_def split: if_splits)
  finally show ?thesis .
qed

lemma ReadAt_piece:
  assumes "r_file r = pre @ piece @ post" and "length (r_file r) < 2 ^ 48" and "read_ok env (r_path r)"
  shows "ReadAt env r (of_nat (length piece)) (of_nat (length pre)) = Inr piece"
proof -
  have small: "length piece < 2 ^ 48" "length pre < 2 ^ 48" using assms(1,2) by auto
  then have u: "unat (of_nat (length piece) :: u64) = length piece" "unat (of_nat (length pre) :: u64) = length pre"
    by (simp_all add: unat_of_nat take_bit_nat_eq_self)
  have s: "\<not> sint (of_nat (length pre) :: u64) < 0" using small(2) sint_small [of "length pre"] by simp
  have "uint (of_nat (length piece) :: u64) = int (unat (of_nat (length piece) :: u64))" by simp
  then have "uint (of_nat (length piece) :: u64) = int (length piece)" by (simp only: u(1))
  then have a: "\<not> uint (of_nat (length piece) :: u64) > maxAlloc" using small(1) by (simp add: maxAlloc_def)
  have "of_nat (length piece) = (0 :: u64) \<longleftrightarrow> piece = []"
    using u(1) unat_eq_0 [of "of_nat (length piece) :: u64"] by (simp only: length_0_conv)
  then show ?thesis using assms u s a by (simp add: ReadAt_def)
qed

text \<open>Coherence of the shared cache with a source of blocks.\<close>

definition coherent :: "(string \<rightharpoonup> bytes) \<Rightarrow> LRUCache option \<Rightarrow> bool" where
  "coherent src c \<longleftrightarrow> (case c of None \<Rightarrow> True | Some l \<Rightarrow> lru.coherent src l)"

lemma coherent_None [simp]: "coherent src None"
  by (simp add: coherent_def)

lemma ReadBlock_frame:
  assumes fl: "r_file r = pre @ frame z content @ post" "length (r_file r) < 2 ^ 48" "read_ok env (r_path r)"
    and z: "zlib_inverse z" and src: "src (cacheKey (r_path r) (of_nat (length pre))) = Some content" and c: "coherent src c"
  shows "\<exists>c'. ReadBlock env z r \<lparr>Offset = of_nat (length pre), Length = of_nat (length (frame z content))\<rparr> c =
    (c', Inr (NewBlockIterator content)) \<and> coherent src c'"
proof -
  let ?k = "cacheKey (r_path r) (of_nat (length pre))"
  have direct: "bindr (ReadAt env r (of_nat (length (frame z content))) (of_nat (length pre))) (decode_block z) = Inr content"
    using ReadAt_piece [OF fl] decode_block_frame [OF z] by simp
  show ?thesis
  proof (cases c)
    case None
    then show ?thesis unfolding ReadBlock_def BlockHandle.simps direct by (simp add: cache_lookup_def cache_store_def)
  next
    case (Some l)
    then have l: "lru.coherent src l" using c by (simp add: coherent_def)
    obtain l' v where g: "cache_Get l ?k = (l', v)" by (cases "cache_Get l ?k")
    have l': "lru.coherent src l'" using lru.coherent_get [OF l, of ?k] g by simp
    show ?thesis
    proof (cases v)
      case None
      have "lru.coherent src (cache_Put l' ?k content)" using lru.coherent_put [OF l' src] .
      then show ?thesis using Some g None unfolding ReadBlock_def BlockHandle.simps direct
        by (simp add: cache_lookup_def cache_store_def coherent_def)
    next
      case (Some data)
      have "data = content" using lru.coherent_hit [OF l, of ?k data] g Some src by simp
      then show ?thesis using \<open>c = Some l\<close> g Some l' by (simp add: ReadBlock_def cache_lookup_def coherent_def)
    qed
  qed
qed

section \<open>A well-formed table\<close>

text \<open>\<open>table_ok\<close>: the reader's file is the table of the blocks \<open>bs\<close> and the source of cached blocks agrees with
  it.\<close>

definition table_src :: "zlib \<Rightarrow> string \<Rightarrow> entries list \<Rightarrow> bytes option \<Rightarrow> (string \<rightharpoonup> bytes) \<Rightarrow> bool" where
  "table_src z path bs flt src \<longleftrightarrow>
     (\<forall>xs b ys. bs = xs @ b # ys \<longrightarrow> src (cacheKey path (of_nat (length (frames z xs)))) = Some (build_block b)) \<and>
     (let body = length (frames z bs) + (case flt of None \<Rightarrow> 0 | Some f \<Rightarrow> length f)
      in src (cacheKey path (of_nat body)) = Some (build_block (meta_entries z bs flt)) \<and>
         src (cacheKey path (of_nat (body + length (frame z (build_block (meta_entries z bs flt)))))) = Some (build_block (index_entries z 0 bs)))"

definition blocks_ok :: "zlib \<Rightarrow> entries list \<Rightarrow> bytes option \<Rightarrow> bool" where
  "blocks_ok z bs flt \<longleftrightarrow> zlib_inverse z \<and> (\<forall>b\<in>set bs. b \<noteq> []) \<and> cost (concat bs) < 2 ^ 31 \<and>
     (case flt of None \<Rightarrow> True | Some f \<Rightarrow> length f \<le> 2 * length (concat bs) + 10)"

definition table_ok :: "os_env \<Rightarrow> zlib \<Rightarrow> (string \<rightharpoonup> bytes) \<Rightarrow> Reader \<Rightarrow> entries list \<Rightarrow> bytes option \<Rightarrow> bool" where
  "table_ok env z src r bs flt \<longleftrightarrow> blocks_ok z bs flt \<and> r_file r = table_bytes z bs flt \<and> r_size r = length (r_file r) \<and>
     read_ok env (r_path r) \<and> table_src z (r_path r) bs flt src"

lemma block_small:
  assumes "blocks_ok z bs flt"
  shows "b \<in> set bs \<Longrightarrow> length (build_block b) < 2 ^ 32"
    and "length (build_block (index_entries z 0 bs)) < 2 ^ 32"
    and "length (build_block (meta_entries z bs flt)) < 2 ^ 32"
    and "length (table_bytes z bs flt) < 2 ^ 48"
proof -
  have ne: "\<forall>b\<in>set bs. b \<noteq> []" and c: "cost (concat bs) < 2 ^ 31" using assms by (simp_all add: blocks_ok_def)
  note n = length_concat_cost [of "concat bs"]
  show "length (build_block b) < 2 ^ 32" if "b \<in> set bs"
  proof -
    have "length (build_block b) \<le> cost (concat bs) + 8" using build_block_size [of b] cost_concat [OF that] by linarith
    then show ?thesis using c by simp
  qed
  have i: "length (build_block (index_entries z 0 bs)) \<le> 2 * cost (concat bs) + 8"
    using build_block_size [of "index_entries z 0 bs"] cost_index [OF ne, of z 0] n by linarith
  have "length (build_block (index_entries z 0 bs)) \<le> cost (concat bs) + 16 * length (concat bs) + 8"
    using build_block_size [of "index_entries z 0 bs"] cost_index [OF ne, of z 0] by linarith
  then show "length (build_block (index_entries z 0 bs)) < 2 ^ 32" using c n by simp
  have m: "length (build_block (meta_entries z bs flt)) \<le> 200"
    using build_block_size [of "meta_entries z bs flt"] by (cases flt) (simp_all add: meta_entries_def string_bytes_def)
  then show "length (build_block (meta_entries z bs flt)) < 2 ^ 32" by simp
  have f: "length (case flt of None \<Rightarrow> [] | Some f \<Rightarrow> f) \<le> 2 * length (concat bs) + 10"
    using assms by (cases flt) (simp_all add: blocks_ok_def)
  have "length (table_bytes z bs flt) \<le> cost (concat bs) + (2 * length (concat bs) + 10) + 205 + (2 * cost (concat bs) + 13) + 40"
    using length_frames [OF ne, of z] f length_frame_le [of z "build_block (meta_entries z bs flt)"] m
      length_frame_le [of z "build_block (index_entries z 0 bs)"] i
    by (simp add: table_bytes_def Let_def FooterSize_def)
  then show "length (table_bytes z bs flt) < 2 ^ 48" using c n by simp
qed

lemma build_block_iter: "length (build_block es) < 2 ^ 32 \<Longrightarrow> bi_rep (NewBlockIterator (build_block es)) es []"
  using build_block_ok NewBlockIterator_rep by blast

lemma ReadFooter_ok:
  assumes ok: "table_ok env z src r bs flt"
  defines "body \<equiv> length (frames z bs) + (case flt of None \<Rightarrow> 0 | Some f \<Rightarrow> length f)"
    and "M \<equiv> frame z (build_block (meta_entries z bs flt))" and "I \<equiv> frame z (build_block (index_entries z 0 bs))"
  shows "ReadFooter env r = Inr \<lparr>MetaindexHandle = \<lparr>Offset = of_nat body, Length = of_nat (length M)\<rparr>,
    IndexHandle = \<lparr>Offset = of_nat (body + length M), Length = of_nat (length I)\<rparr>\<rparr>"
proof -
  let ?ft = "\<lparr>MetaindexHandle = \<lparr>Offset = of_nat body, Length = of_nat (length M)\<rparr>,
    IndexHandle = \<lparr>Offset = of_nat (body + length M), Length = of_nat (length I)\<rparr>\<rparr>"
  let ?pre = "frames z bs @ (case flt of None \<Rightarrow> [] | Some f \<Rightarrow> f) @ M @ I"
  have fl: "r_file r = ?pre @ Footer_EncodeTo ?ft @ []" and size: "r_size r = length ?pre + FooterSize"
    using ok by (cases flt; simp add: table_ok_def table_bytes_def Let_def body_def M_def I_def)+
  have "ReadAt env r (of_nat (length (Footer_EncodeTo ?ft))) (of_nat (length ?pre)) = Inr (Footer_EncodeTo ?ft)"
    using ok block_small(4) [of z bs flt] by (intro ReadAt_piece [OF fl]) (simp_all add: table_ok_def)
  then show ?thesis using size by (simp add: ReadFooter_def)
qed

lemma read_block_at:
  assumes ok: "table_ok env z src r bs flt" and c: "coherent src c"
    and at: "table_bytes z bs flt = pre @ frame z content @ post"
    and src: "src (cacheKey (r_path r) (of_nat (length pre))) = Some content"
  shows "\<exists>c'. ReadBlock env z r \<lparr>Offset = of_nat (length pre), Length = of_nat (length (frame z content))\<rparr> c =
    (c', Inr (NewBlockIterator content)) \<and> coherent src c'"
  using ok block_small(4) [of z bs flt] src c at
  by (intro ReadBlock_frame [where post = post]) (auto simp: table_ok_def blocks_ok_def)

lemma ReadBlock_index:
  assumes ok: "table_ok env z src r bs flt" and c: "coherent src c" and ft: "ReadFooter env r = Inr footer"
  shows "\<exists>c'. ReadBlock env z r (IndexHandle footer) c = (c', Inr (NewBlockIterator (build_block (index_entries z 0 bs)))) \<and> coherent src c'"
proof -
  let ?pre = "frames z bs @ (case flt of None \<Rightarrow> [] | Some f \<Rightarrow> f) @ frame z (build_block (meta_entries z bs flt))"
  have "IndexHandle footer = \<lparr>Offset = of_nat (length ?pre), Length = of_nat (length (frame z (build_block (index_entries z 0 bs))))\<rparr>"
    using ReadFooter_ok [OF ok] ft by (cases flt) (simp_all add: add.assoc)
  moreover have "src (cacheKey (r_path r) (of_nat (length ?pre))) = Some (build_block (index_entries z 0 bs))"
    using ok by (cases flt) (simp_all add: table_ok_def table_src_def Let_def add.assoc)
  ultimately show ?thesis using read_block_at [OF ok c, of ?pre "build_block (index_entries z 0 bs)"]
    by (simp add: table_bytes_def Let_def)
qed

lemma ReadBlock_meta:
  assumes ok: "table_ok env z src r bs flt" and c: "coherent src c" and ft: "ReadFooter env r = Inr footer"
  shows "\<exists>c'. ReadBlock env z r (MetaindexHandle footer) c = (c', Inr (NewBlockIterator (build_block (meta_entries z bs flt)))) \<and> coherent src c'"
proof -
  let ?pre = "frames z bs @ (case flt of None \<Rightarrow> [] | Some f \<Rightarrow> f)"
  have "MetaindexHandle footer = \<lparr>Offset = of_nat (length ?pre), Length = of_nat (length (frame z (build_block (meta_entries z bs flt))))\<rparr>"
    using ReadFooter_ok [OF ok] ft by (cases flt) simp_all
  moreover have "src (cacheKey (r_path r) (of_nat (length ?pre))) = Some (build_block (meta_entries z bs flt))"
    using ok by (cases flt) (simp_all add: table_ok_def table_src_def Let_def)
  ultimately show ?thesis using read_block_at [OF ok c, of ?pre "build_block (meta_entries z bs flt)"]
    by (simp add: table_bytes_def Let_def)
qed

lemma ReadBlock_data:
  assumes ok: "table_ok env z src r (xs @ b # ys) flt" and c: "coherent src c"
  shows "\<exists>c'. ReadBlock env z r \<lparr>Offset = of_nat (length (frames z xs)), Length = of_nat (length (frame z (build_block b)))\<rparr> c =
    (c', Inr (NewBlockIterator (build_block b))) \<and> coherent src c'"
proof -
  have "src (cacheKey (r_path r) (of_nat (length (frames z xs)))) = Some (build_block b)"
    using ok by (auto simp: table_ok_def table_src_def)
  then show ?thesis using read_block_at [OF ok c, of "frames z xs" "build_block b"]
    by (simp add: table_bytes_def Let_def)
qed

section \<open>The table iterator keeps the iterator contract\<close>

definition ti_frame :: "os_env \<Rightarrow> zlib \<Rightarrow> (string \<rightharpoonup> bytes) \<Rightarrow> entries list \<Rightarrow> TableIterator \<Rightarrow> entries \<Rightarrow> bool" where
  "ti_frame env z src bs it ies \<longleftrightarrow> (\<exists>flt. table_ok env z src (ti_reader it) bs flt) \<and> ti_err it = None \<and>
     bi_rep (ti_index it) (index_entries z 0 bs) ies"

definition ti_at :: "zlib \<Rightarrow> entries list \<Rightarrow> TableIterator \<Rightarrow> entries \<Rightarrow> entries \<Rightarrow> bool" where
  "ti_at z bs it ies rest \<longleftrightarrow>
     (if ti_valid it
      then \<exists>xs b ys db r. bs = xs @ b # ys \<and> ies = index_entries z (length (frames z xs)) (b # ys) \<and>
             ti_data it = Some db \<and> bi_rep db b r \<and> r \<noteq> [] \<and> rest = r @ concat ys
      else rest = [])"

definition ti_rep :: "os_env \<Rightarrow> zlib \<Rightarrow> (string \<rightharpoonup> bytes) \<Rightarrow> TableIterator \<Rightarrow> entries \<Rightarrow> entries \<Rightarrow> bool" where
  "ti_rep env z src it all rest \<longleftrightarrow> (\<exists>bs ies. ti_frame env z src bs it ies \<and> ti_at z bs it ies rest \<and> all = concat bs)"

lemma bi_rep_Valid: "bi_rep it all rest \<Longrightarrow> bi_Valid it \<longleftrightarrow> rest \<noteq> []"
  using block_iter.valid by (fastforce simp: bi_ops_def)

lemma bi_rep_value: "bi_rep it all (e # rest) \<Longrightarrow> bi_value it = snd e"
  using block_iter.val by (fastforce simp: bi_ops_def)

lemma bi_rep_key: "bi_rep it all (e # rest) \<Longrightarrow> bi_key it = fst e"
  using block_iter.key by (fastforce simp: bi_ops_def)

lemma bi_rep_seek: "bi_rep it all rest \<Longrightarrow> \<exists>it'. bi_SeekToFirst it = Some it' \<and> bi_rep it' all all"
  using block_iter.seek by (fastforce simp: bi_ops_def)

lemma bi_rep_next: "bi_rep it all (e # rest) \<Longrightarrow> \<exists>it'. bi_Next it = Some it' \<and> bi_rep it' all rest"
  using block_iter.next_ok by (fastforce simp: bi_ops_def)

text \<open>Loading the block the index points at.  The iterator that results does not depend on the cache.\<close>

lemma load_enter:
  assumes fr: "ti_frame env z src bs it (index_entries z (length (frames z xs)) ys)" and bs: "bs = xs @ ys"
    and pos: "\<And>b bi. ys \<noteq> [] \<Longrightarrow> b = hd ys \<Longrightarrow> bi_rep bi b [] \<Longrightarrow> \<exists>bi'. pos bi = Some bi' \<and> bi_rep bi' b (f b)"
  shows "\<exists>it'. (\<forall>c. coherent src c \<longrightarrow> (\<exists>c'. Option.bind (loadDataBlock env z c it) (enter_block pos) = Some (c', it') \<and> coherent src c')) \<and>
    ti_frame env z src bs it' (index_entries z (length (frames z xs)) ys) \<and>
    (if ys = [] then \<not> ti_valid it'
     else \<exists>db. ti_data it' = Some db \<and> bi_rep db (hd ys) (f (hd ys)) \<and> ti_valid it' = (f (hd ys) \<noteq> []))"
proof (cases ys)
  case Nil
  then have "\<not> bi_Valid (ti_index it)" using fr bi_rep_Valid by (fastforce simp: ti_frame_def)
  then show ?thesis using fr Nil
    by (intro exI [of _ "it\<lparr>ti_data := None, ti_valid := False\<rparr>"]) (auto simp: loadDataBlock_def enter_block_def ti_frame_def)
next
  case (Cons b ys')
  let ?h = "\<lparr>Offset = of_nat (length (frames z xs)), Length = of_nat (length (frame z (build_block b)))\<rparr>"
  obtain flt where ok: "table_ok env z src (ti_reader it) (xs @ b # ys') flt" using fr bs Cons by (auto simp: ti_frame_def)
  have ix: "bi_rep (ti_index it) (index_entries z 0 bs) ((fst (last b), BlockHandle_EncodeTo ?h) #
      index_entries z (length (frames z xs) + length (frame z (build_block b))) ys')"
    using fr Cons by (simp add: ti_frame_def Let_def)
  have v: "bi_Valid (ti_index it)" "bi_value (ti_index it) = BlockHandle_EncodeTo ?h"
    using bi_rep_Valid [OF ix] bi_rep_value [OF ix] by simp_all
  have "bi_rep (NewBlockIterator (build_block b)) b []"
    using ok block_small(1) [of z "xs @ b # ys'" flt b] by (intro build_block_iter) (simp add: table_ok_def)
  then obtain bi' where bi': "pos (NewBlockIterator (build_block b)) = Some bi'" "bi_rep bi' b (f b)" using pos Cons by force
  let ?it = "it\<lparr>ti_data := Some bi', ti_valid := bi_Valid bi'\<rparr>"
  have "\<exists>c'. Option.bind (loadDataBlock env z c it) (enter_block pos) = Some (c', ?it) \<and> coherent src c'" if "coherent src c" for c
    using ReadBlock_data [OF ok that] v bi' by (auto simp: loadDataBlock_def enter_block_def)
  then show ?thesis using fr Cons bi'(2) bi_rep_Valid [OF bi'(2)]
    by (intro exI [of _ ?it]) (auto simp: ti_frame_def)
qed

lemma enter_first:
  assumes fr: "ti_frame env z src bs it (index_entries z (length (frames z xs)) ys)" and bs: "bs = xs @ ys"
  shows "\<exists>it'. (\<forall>c. coherent src c \<longrightarrow> (\<exists>c'. Option.bind (loadDataBlock env z c it) (enter_block bi_SeekToFirst) = Some (c', it') \<and> coherent src c')) \<and>
    ti_rep env z src it' (concat bs) (concat ys)"
proof -
  obtain it' where it': "\<forall>c. coherent src c \<longrightarrow> (\<exists>c'. Option.bind (loadDataBlock env z c it) (enter_block bi_SeekToFirst) = Some (c', it') \<and> coherent src c')"
    "ti_frame env z src bs it' (index_entries z (length (frames z xs)) ys)"
    "if ys = [] then \<not> ti_valid it' else \<exists>db. ti_data it' = Some db \<and> bi_rep db (hd ys) (hd ys) \<and> ti_valid it' = (hd ys \<noteq> [])"
    using load_enter [OF fr bs, of bi_SeekToFirst "\<lambda>b. b"] bi_rep_seek by blast
  have "ti_at z bs it' (index_entries z (length (frames z xs)) ys) (concat ys)"
  proof (cases ys)
    case Nil
    then show ?thesis using it'(3) by (simp add: ti_at_def)
  next
    case (Cons b ys')
    have "b \<noteq> []" using fr bs Cons by (auto simp: ti_frame_def table_ok_def blocks_ok_def)
    then obtain db where "ti_valid it'" "ti_data it' = Some db" "bi_rep db b b" using it'(3) Cons by auto
    then show ?thesis using bs Cons \<open>b \<noteq> []\<close> unfolding ti_at_def
      by (simp del: index_entries.simps) (intro exI [of _ xs] exI [of _ b] exI [of _ ys'] exI [of _ b], simp)
  qed
  then show ?thesis using it'(1,2) unfolding ti_rep_def by blast
qed

lemma ti_SeekToFirst_rep:
  assumes "ti_rep env z src it all rest"
  shows "\<exists>it'. (\<forall>c. coherent src c \<longrightarrow> (\<exists>c'. ti_SeekToFirst env z c it = Some (c', it') \<and> coherent src c')) \<and> ti_rep env z src it' all all"
proof -
  obtain bs ies where fr: "ti_frame env z src bs it ies" and all: "all = concat bs" using assms by (auto simp: ti_rep_def)
  then obtain ix where ix: "bi_SeekToFirst (ti_index it) = Some ix" "bi_rep ix (index_entries z 0 bs) (index_entries z 0 bs)"
    using bi_rep_seek unfolding ti_frame_def by blast
  then have "ti_frame env z src bs (it\<lparr>ti_index := ix\<rparr>) (index_entries z (length (frames z [])) bs)"
    using fr by (simp add: ti_frame_def)
  from enter_first [OF this] show ?thesis using ix(1) all by (simp add: ti_SeekToFirst_def)
qed

lemma ti_Next_rep:
  assumes "ti_rep env z src it all (e # rest)"
  shows "\<exists>it'. (\<forall>c. coherent src c \<longrightarrow> (\<exists>c'. ti_Next env z c it = Some (c', it') \<and> coherent src c')) \<and> ti_rep env z src it' all rest"
proof -
  obtain bs ies where fr: "ti_frame env z src bs it ies" and at: "ti_at z bs it ies (e # rest)" and all: "all = concat bs"
    using assms by (auto simp: ti_rep_def)
  from at obtain xs b ys db r where r: "bs = xs @ b # ys" "ies = index_entries z (length (frames z xs)) (b # ys)"
    "ti_data it = Some db" "bi_rep db b (e # r)" "rest = r @ concat ys" "ti_valid it"
    unfolding ti_at_def by (auto split: if_splits simp: neq_Nil_conv)
  obtain db' where db': "bi_Next db = Some db'" "bi_rep db' b r" using bi_rep_next [OF r(4)] by blast
  let ?it = "it\<lparr>ti_data := Some db'\<rparr>"
  show ?thesis
  proof (cases "r = []")
    case False
    then have "ti_Next env z c it = Some (c, ?it\<lparr>ti_valid := True\<rparr>)" for c
      using r(3) db' bi_rep_Valid [OF db'(2)] by (simp add: ti_Next_def)
    moreover have "ti_at z bs (?it\<lparr>ti_valid := True\<rparr>) ies rest" using r db' False unfolding ti_at_def by auto
    moreover have "ti_frame env z src bs (?it\<lparr>ti_valid := True\<rparr>) ies" using fr by (simp add: ti_frame_def)
    ultimately show ?thesis using all unfolding ti_rep_def by blast
  next
    case True
    have "bi_rep (ti_index it) (index_entries z 0 bs) ies" using fr by (simp add: ti_frame_def)
    then obtain ix where ix: "bi_Next (ti_index it) = Some ix"
      "bi_rep ix (index_entries z 0 bs) (index_entries z (length (frames z (xs @ [b]))) ys)"
      using bi_rep_next r(2) by (fastforce simp: Let_def)
    have "ti_frame env z src bs (?it\<lparr>ti_index := ix\<rparr>) (index_entries z (length (frames z (xs @ [b]))) ys)"
      using fr ix(2) by (simp add: ti_frame_def)
    from enter_first [OF this] r True db' ix bi_rep_Valid [OF db'(2)] all show ?thesis by (simp add: ti_Next_def)
  qed
qed

interpretation table_iter: internal_iterator "ti_ops env z" "ti_rep env z src"
proof
  fix it all rest
  assume r: "ti_rep env z src it all rest"
  then show "\<exists>it'. op_SeekToFirst (ti_ops env z) it = Some it' \<and> ti_rep env z src it' all all"
    using ti_SeekToFirst_rep [OF r] coherent_None by (fastforce simp: ti_ops_def)
  show "op_Valid (ti_ops env z) it \<longleftrightarrow> rest \<noteq> []"
    using r by (auto simp: ti_ops_def ti_Valid_def ti_rep_def ti_frame_def ti_at_def split: if_splits)
next
  fix it all e rest
  assume r: "ti_rep env z src it all (e # rest)"
  then show "\<exists>it'. op_Next (ti_ops env z) it = Some it' \<and> ti_rep env z src it' all rest"
    using ti_Next_rep [OF r] coherent_None by (fastforce simp: ti_ops_def)
  obtain db b r' where "ti_data it = Some db" "bi_rep db b (e # r')"
    using r unfolding ti_rep_def ti_at_def by (auto split: if_splits simp: neq_Nil_conv)
  then show "op_Key (ti_ops env z) it = fst e" "op_Value (ti_ops env z) it = snd e"
    using bi_rep_key bi_rep_value by (auto simp: ti_ops_def ti_Key_def ti_Value_def)
qed

section \<open>Opening a table\<close>

lemma meta_seek:
  assumes ok: "table_ok env z src r bs flt" and it: "bi_rep it (meta_entries z bs flt) []"
  shows "\<exists>it'. bi_Seek (string_bytes ''vern.filter.bloom'') it = Some it' \<and> read_filter env it' r = (r\<lparr>r_filterData := if flt = None then r_filterData r else flt\<rparr>, None)"
proof -
  have "bytewise_sorted (meta_entries z bs flt)" by (cases flt) (simp_all add: meta_entries_def)
  from bi_Seek_bi_rep [OF it this] obtain it' where s: "bi_Seek (string_bytes ''vern.filter.bloom'') it = Some it'"
    and it': "bi_rep it' (meta_entries z bs flt) (dropWhile (\<lambda>e. fst e < string_bytes ''vern.filter.bloom'') (meta_entries z bs flt))"
    by blast
  show ?thesis
  proof (cases flt)
    case None
    then show ?thesis using s bi_rep_Valid [OF it'] by (simp add: meta_entries_def read_filter_def)
  next
    case (Some f)
    let ?h = "\<lparr>Offset = of_nat (length (frames z bs)), Length = of_nat (length f)\<rparr>"
    have e: "bi_rep it' (meta_entries z bs flt) [(string_bytes ''vern.filter.bloom'', BlockHandle_EncodeTo ?h)]"
      using it' Some by (simp add: meta_entries_def)
    have "ReadAt env r (of_nat (length f)) (of_nat (length (frames z bs))) = Inr f"
      using ok block_small(4) [of z bs flt] Some
      by (intro ReadAt_piece [where post = "drop (length (frames z bs) + length f) (r_file r)"]) (auto simp: table_ok_def table_bytes_def Let_def)
    then show ?thesis using s Some bi_rep_Valid [OF e] bi_rep_key [OF e] bi_rep_value [OF e] by (simp add: read_filter_def)
  qed
qed

lemma loadFilter_ok:
  assumes ok: "table_ok env z src r bs flt" and c: "coherent src c"
  shows "\<exists>c'. loadFilter env z r c = (c', r\<lparr>r_filterData := if flt = None then r_filterData r else flt\<rparr>, None) \<and> coherent src c'"
proof -
  obtain footer where ft: "ReadFooter env r = Inr footer" using ReadFooter_ok [OF ok] by blast
  obtain c' where m: "ReadBlock env z r (MetaindexHandle footer) c = (c', Inr (NewBlockIterator (build_block (meta_entries z bs flt))))"
    "coherent src c'" using ReadBlock_meta [OF ok c ft] by blast
  have "bi_rep (NewBlockIterator (build_block (meta_entries z bs flt))) (meta_entries z bs flt) []"
    using ok block_small(3) [of z bs flt] by (intro build_block_iter) (simp add: table_ok_def)
  from meta_seek [OF ok this] show ?thesis using ft m by (auto simp: loadFilter_def)
qed

lemma NewReader_ok:
  assumes f: "file_at d path = Some f" and data: "fdata f = table_bytes z bs flt" and ok: "blocks_ok z bs flt"
    and env: "open_ok env path" "stat_ok env path" "read_ok env path" and src: "table_src z path bs flt src" and c: "coherent src c"
  shows "\<exists>c' r. NewReader env z path c d = (c', Inr r) \<and> coherent src c' \<and> table_ok env z src r bs flt \<and> r_filterData r = flt \<and>
    r_filterPolicy r = NewBloomFilter 10"
proof -
  let ?r = "\<lparr>r_file = fdata f, r_size = length (fdata f), r_path = path, r_filterPolicy = NewBloomFilter 10, r_filterData = None\<rparr>"
  have t: "table_ok env z src ?r bs flt" using ok data env src by (simp add: table_ok_def)
  from loadFilter_ok [OF t c] obtain c' where "loadFilter env z ?r c = (c', ?r\<lparr>r_filterData := flt\<rparr>, None)" "coherent src c'" by auto
  then show ?thesis using f env t by (auto simp: NewReader_def table_ok_def)
qed

lemma Reader_NewIterator_ok:
  assumes ok: "table_ok env z src r bs flt" and c: "coherent src c"
  shows "\<exists>c' it. Reader_NewIterator env z r c = (c', Inr it) \<and> coherent src c' \<and> ti_rep env z src it (concat bs) []"
proof -
  obtain footer where ft: "ReadFooter env r = Inr footer" using ReadFooter_ok [OF ok] by blast
  obtain c' where m: "ReadBlock env z r (IndexHandle footer) c = (c', Inr (NewBlockIterator (build_block (index_entries z 0 bs))))"
    "coherent src c'" using ReadBlock_index [OF ok c ft] by blast
  have "bi_rep (NewBlockIterator (build_block (index_entries z 0 bs))) (index_entries z 0 bs) []"
    using ok block_small(2) [of z bs flt] by (intro build_block_iter) (simp add: table_ok_def)
  then show ?thesis using ft m ok by (auto simp: Reader_NewIterator_def ti_rep_def ti_frame_def ti_at_def)
qed

section \<open>The blocks of a table as a source for the cache\<close>

lemma num_of_decimal: "num_of_digits 0 (decimal n) = n"
proof (induction n rule: decimal.induct)
  case (1 n)
  then show ?case by (subst decimal.simps) (auto simp: num_of_digits_append of_char_digit)
qed

lemma cacheKey_inj: "cacheKey p a = cacheKey p b \<Longrightarrow> a = b"
  unfolding cacheKey_def by (metis append_same_eq num_of_decimal same_append_eq unsigned_word_eqI)

fun data_blocks :: "zlib \<Rightarrow> nat \<Rightarrow> entries list \<Rightarrow> (nat \<times> bytes) list" where
  "data_blocks z off [] = []"
| "data_blocks z off (b # bs) = (off, build_block b) # data_blocks z (off + length (frame z (build_block b))) bs"

definition table_blocks :: "zlib \<Rightarrow> entries list \<Rightarrow> bytes option \<Rightarrow> (nat \<times> bytes) list" where
  "table_blocks z bs flt =
     (let body = length (frames z bs) + (case flt of None \<Rightarrow> 0 | Some f \<Rightarrow> length f); m = build_block (meta_entries z bs flt)
      in data_blocks z 0 bs @ [(body, m), (body + length (frame z m), build_block (index_entries z 0 bs))])"

definition table_source :: "zlib \<Rightarrow> string \<Rightarrow> entries list \<Rightarrow> bytes option \<Rightarrow> (string \<rightharpoonup> bytes)" where
  "table_source z path bs flt = map_of (map (\<lambda>(off, c). (cacheKey path (of_nat off), c)) (table_blocks z bs flt))"

lemma data_blocks_bounds: "(off', c) \<in> set (data_blocks z off bs) \<Longrightarrow> off \<le> off' \<and> off' < off + length (frames z bs)"
proof (induction bs arbitrary: off)
  case (Cons b bs)
  then show ?case using length_frame [of z "build_block b"] by fastforce
qed simp

lemma data_blocks_distinct: "distinct (map fst (data_blocks z off bs))"
proof (induction bs arbitrary: off)
  case (Cons b bs)
  then show ?case using data_blocks_bounds [of off _ z "off + length (frame z (build_block b))" bs] length_frame [of z "build_block b"]
    by fastforce
qed simp

lemma data_blocks_split: "(off + length (frames z xs), build_block b) \<in> set (data_blocks z off (xs @ b # ys))"
  by (induction xs arbitrary: off) (auto simp: add.assoc [symmetric])

lemma table_blocks_distinct: "distinct (map fst (table_blocks z bs flt))"
proof -
  have "off < length (frames z bs)" if "off \<in> fst ` set (data_blocks z 0 bs)" for off
    using that data_blocks_bounds by fastforce
  moreover have "0 < length (frame z c)" for c by (simp add: length_frame)
  ultimately show ?thesis
    using data_blocks_distinct [of z 0 bs] unfolding table_blocks_def Let_def by (fastforce split: option.splits)
qed

lemma table_source_in:
  assumes "(off, c) \<in> set (table_blocks z bs flt)" and "\<And>off c. (off, c) \<in> set (table_blocks z bs flt) \<Longrightarrow> off < 2 ^ 64"
  shows "table_source z path bs flt (cacheKey path (of_nat off)) = Some c"
proof -
  have "inj_on (\<lambda>off. cacheKey path (of_nat off)) (fst ` set (table_blocks z bs flt))"
  proof (rule inj_onI)
    fix a b
    assume ab: "a \<in> fst ` set (table_blocks z bs flt)" "b \<in> fst ` set (table_blocks z bs flt)"
      and eq: "cacheKey path (of_nat a) = cacheKey path (of_nat b)"
    then have "a < 2 ^ 64" "b < 2 ^ 64" using assms(2) by auto
    then have u: "unat (of_nat a :: u64) = a" "unat (of_nat b :: u64) = b" by (simp_all add: unat_of_nat take_bit_nat_eq_self)
    have "unat (of_nat a :: u64) = unat (of_nat b :: u64)" using cacheKey_inj [OF eq] by (rule arg_cong)
    then show "a = b" by (simp only: u)
  qed
  then have "distinct (map (\<lambda>off. cacheKey path (of_nat off)) (map fst (table_blocks z bs flt)))"
    using table_blocks_distinct [of z bs flt] by (simp only: distinct_map list.set_map)
  also have "map (\<lambda>off. cacheKey path (of_nat off)) (map fst (table_blocks z bs flt)) =
      map fst (map (\<lambda>(off, c). (cacheKey path (of_nat off), c)) (table_blocks z bs flt))"
    by (simp add: case_prod_beta)
  finally have "distinct (map fst (map (\<lambda>(off, c). (cacheKey path (of_nat off), c)) (table_blocks z bs flt)))" .
  then show ?thesis unfolding table_source_def using assms(1) by (intro map_of_is_SomeI) force+
qed

lemma table_source_ok:
  assumes ok: "blocks_ok z bs flt"
  shows "table_src z path bs flt (table_source z path bs flt)"
proof -
  have len: "length (table_bytes z bs flt) < 2 ^ 48" using block_small(4) [OF ok] .
  let ?f = "case flt of None \<Rightarrow> 0 | Some f \<Rightarrow> length f"
  have tot: "length (frames z bs) + ?f + length (frame z (build_block (meta_entries z bs flt))) \<le> length (table_bytes z bs flt)"
    by (cases flt) (simp_all add: table_bytes_def Let_def)
  have small: "off < 2 ^ 64" if "(off, c) \<in> set (table_blocks z bs flt)" for off c
  proof -
    have "off \<le> length (table_bytes z bs flt)"
      using that data_blocks_bounds [of off c z 0 bs] tot by (auto simp: table_blocks_def Let_def)
    then show ?thesis using len by simp
  qed
  have "table_source z path bs flt (cacheKey path (of_nat (length (frames z xs)))) = Some (build_block b)" if "bs = xs @ b # ys" for xs b ys
    using data_blocks_split [of 0 z xs b ys] that by (intro table_source_in small) (auto simp: table_blocks_def Let_def)
  moreover have "table_source z path bs flt (cacheKey path (of_nat (length (frames z bs) + ?f))) = Some (build_block (meta_entries z bs flt))"
    "table_source z path bs flt (cacheKey path (of_nat (length (frames z bs) + ?f + length (frame z (build_block (meta_entries z bs flt)))))) =
       Some (build_block (index_entries z 0 bs))"
    by (rule table_source_in; use small in \<open>auto simp: table_blocks_def Let_def\<close>)+
  ultimately show ?thesis by (simp add: table_src_def Let_def)
qed

lemma built_blocks_ok:
  assumes b: "build_table env z p es d = (d1, None)" and z: "zlib_inverse z" and c: "cost es < 2 ^ 31"
  shows "\<exists>bs flt f. blocks_ok z bs flt \<and> concat bs = es \<and> file_at d1 p = Some f \<and> fdata f = table_bytes z bs flt \<and>
    (if es = [] then flt = None else flt = CreateFilter (NewBloomFilter 10) (map (ExtractUserKey \<circ> fst) es) \<and> flt \<noteq> None)"
proof -
  from build_table_bytes [OF b] obtain bs flt where bs: "concat bs = es" "\<forall>b\<in>set bs. b \<noteq> []" "data_at d1 p = table_bytes z bs flt"
    "file_at d1 p \<noteq> None"
    and flt: "if es = [] then flt = None else flt = CreateFilter (NewBloomFilter 10) (map (ExtractUserKey \<circ> fst) es) \<and> flt \<noteq> None"
    by blast
  from bs(4) obtain f where f: "file_at d1 p = Some f" by blast
  have "length es \<le> 2 ^ 28" using length_concat_cost [of es] c by simp
  then have "length fl \<le> 2 * length es + 10" if "flt = Some fl" for fl
    using CreateFilter_total [of "map (ExtractUserKey \<circ> fst) es"] flt that by (auto split: if_splits)
  then have "blocks_ok z bs flt" using z c bs(1,2) by (cases flt) (simp_all add: blocks_ok_def)
  moreover have "fdata f = table_bytes z bs flt" using bs(3) f by (simp add: data_at_def)
  ultimately show ?thesis using bs(1) f flt by - (rule exI [of _ bs], rule exI [of _ flt], rule exI [of _ f], intro conjI, assumption+)
qed

section \<open>Scanning a table through the cache\<close>

fun ti_drain :: "os_env \<Rightarrow> zlib \<Rightarrow> nat \<Rightarrow> LRUCache option \<Rightarrow> TableIterator \<Rightarrow> (LRUCache option \<times> entries) option" where
  "ti_drain env z 0 c it = (if ti_Valid it then None else Some (c, []))"
| "ti_drain env z (Suc n) c it =
     (if ti_Valid it then
        Option.bind (ti_Next env z c it) (\<lambda>(c, it').
          map_option (\<lambda>(c, es). (c, (ti_Key it, ti_Value it) # es)) (ti_drain env z n c it'))
      else Some (c, []))"

text \<open>Open the table at a path, position on its first entry and read to the end.\<close>

definition table_scan :: "os_env \<Rightarrow> zlib \<Rightarrow> string \<Rightarrow> dir \<Rightarrow> nat \<Rightarrow> LRUCache option \<Rightarrow> (LRUCache option \<times> entries) option" where
  "table_scan env z p d n c =
     (case sstable_NewIterator env z p c d of
        (c, Inl e) \<Rightarrow> None
      | (c, Inr it) \<Rightarrow> Option.bind (ti_SeekToFirst env z c it) (\<lambda>(c, it). ti_drain env z n c it))"

lemma ti_drain_rep:
  assumes "ti_rep env z src it all rest" and "length rest \<le> n" and "coherent src c"
  shows "\<exists>c'. ti_drain env z n c it = Some (c', rest) \<and> coherent src c'"
  using assms
proof (induction n arbitrary: it rest c)
  case 0
  then show ?case using table_iter.valid [OF 0(1)] by (simp add: ti_ops_def)
next
  case (Suc n)
  show ?case
  proof (cases rest)
    case Nil
    then show ?thesis using Suc.prems table_iter.valid [OF Suc.prems(1)] by (simp add: ti_ops_def)
  next
    case (Cons e rest')
    have r: "ti_rep env z src it all (e # rest')" using Suc.prems(1) Cons by simp
    obtain it' where it': "\<forall>c. coherent src c \<longrightarrow> (\<exists>c'. ti_Next env z c it = Some (c', it') \<and> coherent src c')" "ti_rep env z src it' all rest'"
      using ti_Next_rep [OF r] by blast
    then obtain c1 where "ti_Next env z c it = Some (c1, it')" "coherent src c1" using Suc.prems(3) by blast
    moreover obtain c2 where "ti_drain env z n c1 it' = Some (c2, rest')" "coherent src c2"
      using Suc.IH [OF it'(2) _ \<open>coherent src c1\<close>] Suc.prems(2) Cons by auto
    ultimately show ?thesis using Cons table_iter.valid [OF r] table_iter.key [OF r] table_iter.val [OF r]
      by (simp add: ti_ops_def)
  qed
qed

lemma table_scan_ok:
  assumes f: "file_at d p = Some f" "fdata f = table_bytes z bs flt" "blocks_ok z bs flt"
    and env: "open_ok env p" "stat_ok env p" "read_ok env p" and src: "table_src z p bs flt src" and c: "coherent src c"
    and n: "length (concat bs) \<le> n"
  shows "\<exists>c'. table_scan env z p d n c = Some (c', concat bs) \<and> coherent src c'"
proof -
  obtain c1 r where r: "NewReader env z p c d = (c1, Inr r)" "coherent src c1" "table_ok env z src r bs flt"
    using NewReader_ok [OF f env src c] by blast
  obtain c2 it where it: "Reader_NewIterator env z r c1 = (c2, Inr it)" "coherent src c2" "ti_rep env z src it (concat bs) []"
    using Reader_NewIterator_ok [OF r(3,2)] by blast
  obtain c3 it2 where it2: "ti_SeekToFirst env z c2 it = Some (c3, it2)" "coherent src c3" "ti_rep env z src it2 (concat bs) (concat bs)"
    using ti_SeekToFirst_rep [OF it(3)] it(2) by blast
  from ti_drain_rep [OF it2(3) n it2(2)] show ?thesis
    using r(1) it(1) it2(1) by (auto simp: table_scan_def sstable_NewIterator_def)
qed

lemma coherent_New: "coherent src (Some (NewLRUCache cap))"
  unfolding coherent_def option.case lru.coherent_def by (simp add: cache_inv_def cache_view_def NewLRUCache_def)

section \<open>Properties\<close>

text \<open>A compressor for the examples: it shortens nothing but marks its output.\<close>

definition plain_zlib :: zlib where
  "plain_zlib = \<lparr>zlib_Write = (\<lambda>bs. 0 # bs), zlib_ReadAll = (\<lambda>bs. case bs of [] \<Rightarrow> Inl (Err ''EOF'') | _ # bs \<Rightarrow> Inr bs)\<rparr>"

lemma plain_zlib_inverse: "zlib_inverse plain_zlib"
  by (simp add: zlib_inverse_def plain_zlib_def)

text \<open>C9. A table holds what was put into it, with and without the block cache.  When building a table from any
  entries in any order returns no error, opening the file, seeking to its first entry and reading to the end
  gives back exactly those entries, across data blocks, compression, checksums, index and footer; and
  a second scan that finds its blocks in the cache the first one filled gives the same, whatever the
  capacity of the cache.  Entries must be below 2 GiB in total, and the zlib package must read back what it
  wrote.\<close>

theorem table_roundtrip:
  assumes "build_table env z p es d = (d1, None)" and "zlib_inverse z" and "cost es < 2 ^ 31"
    and "open_ok env' p" "stat_ok env' p" "read_ok env' p" and "c = None \<or> c = Some (NewLRUCache cap)"
  shows "\<exists>c1 c2. table_scan env' z p d1 (length es) c = Some (c1, es) \<and> table_scan env' z p d1 (length es) c1 = Some (c2, es)"
proof -
  obtain bs flt f where ok: "blocks_ok z bs flt" "concat bs = es" "file_at d1 p = Some f" "fdata f = table_bytes z bs flt"
    using built_blocks_ok [OF assms(1-3)] by blast
  let ?src = "table_source z p bs flt"
  have "coherent ?src c" using assms(7) coherent_New by auto
  then obtain c1 where c1: "table_scan env' z p d1 (length es) c = Some (c1, es)" "coherent ?src c1"
    using table_scan_ok [OF ok(3,4,1) assms(4-6) table_source_ok [OF ok(1)], of c "length es"] ok(2) by auto
  then obtain c2 where "table_scan env' z p d1 (length es) c1 = Some (c2, es)"
    using table_scan_ok [OF ok(3,4,1) assms(4-6) table_source_ok [OF ok(1)] c1(2), of "length es"] ok(2) by auto
  with c1 show ?thesis by blast
qed

theorem table_roundtrip_witness:
  "\<exists>d1 c1 c2. build_table no_faults plain_zlib ''a.sst'' [([1, 2, 0, 0, 0, 0, 0, 0, 0], [9]), ([1, 2], [])] [] = (d1, None) \<and>
     table_scan no_faults plain_zlib ''a.sst'' d1 2 (Some (NewLRUCache 100)) = Some (c1, [([1, 2, 0, 0, 0, 0, 0, 0, 0], [9]), ([1, 2], [])]) \<and>
     table_scan no_faults plain_zlib ''a.sst'' d1 2 c1 = Some (c2, [([1, 2, 0, 0, 0, 0, 0, 0, 0], [9]), ([1, 2], [])])"
proof -
  let ?es = "[([1, 2, 0, 0, 0, 0, 0, 0, 0], [9]), ([1, 2], [])] :: entries"
  obtain d1 where b: "build_table no_faults plain_zlib ''a.sst'' ?es [] = (d1, None)"
    using build_table_succeeds [of ?es "[]" "''a.sst''" plain_zlib] by auto
  have n: "length ?es = 2" by simp
  show ?thesis using b table_roundtrip [OF b plain_zlib_inverse, of no_faults "Some (NewLRUCache 100)" 100] unfolding n by auto
qed

text \<open>C19. A table's Bloom filter, written by the builder and loaded by the reader, never rules out a key the table
  holds: after a successful build, opening the file succeeds and \<^verbatim>\<open>MayContain\<close> answers yes, without a panic, for
  the user key of every entry.\<close>

theorem MayContain_complete:
  assumes "build_table env z p es d = (d1, None)" and "zlib_inverse z" and "cost es < 2 ^ 31"
    and "open_ok env' p" "stat_ok env' p" "read_ok env' p" and "(k, v) \<in> set es"
  shows "\<exists>c' r. NewReader env' z p None d1 = (c', Inr r) \<and> MayContain (ExtractUserKey k) r = Some True"
proof -
  obtain bs flt f where ok: "blocks_ok z bs flt" "file_at d1 p = Some f" "fdata f = table_bytes z bs flt"
    and flt: "flt = CreateFilter (NewBloomFilter 10) (map (ExtractUserKey \<circ> fst) es)" "flt \<noteq> None"
    using built_blocks_ok [OF assms(1-3)] assms(7) by (metis empty_iff list.set(1))
  obtain c' r where r: "NewReader env' z p None d1 = (c', Inr r)" "r_filterData r = flt" "r_filterPolicy r = NewBloomFilter 10"
    using NewReader_ok [OF ok(2,3,1) assms(4-6) table_source_ok [OF ok(1)] coherent_None] by blast
  obtain fl where fl: "flt = Some fl" using flt(2) by blast
  have "ExtractUserKey k \<in> set (map (ExtractUserKey \<circ> fst) es)" using assms(7) by force
  then have "KeyMayMatch (NewBloomFilter 10) (ExtractUserKey k) fl = Some True"
    using bloom.no_false_negative flt(1) fl by metis
  then show ?thesis using r fl by (simp add: MayContain_def)
qed

theorem MayContain_complete_witness:
  "\<exists>d1 c' r. build_table no_faults plain_zlib ''a.sst'' [([1, 2, 0, 0, 0, 0, 0, 0, 0, 0], [9])] [] = (d1, None) \<and>
     NewReader no_faults plain_zlib ''a.sst'' None d1 = (c', Inr r) \<and> MayContain [1, 2] r = Some True"
proof -
  let ?es = "[([1, 2, 0, 0, 0, 0, 0, 0, 0, 0], [9])] :: entries"
  obtain d1 where b: "build_table no_faults plain_zlib ''a.sst'' ?es [] = (d1, None)"
    using build_table_succeeds [of ?es "[]" "''a.sst''" plain_zlib] by auto
  have k: "ExtractUserKey [1, 2, 0, 0, 0, 0, 0, 0, 0, 0] = [1, 2]" by (simp add: ExtractUserKey_def)
  show ?thesis using b MayContain_complete [OF b plain_zlib_inverse, of no_faults "[1, 2, 0, 0, 0, 0, 0, 0, 0, 0]" "[9]"]
    unfolding k by auto
qed

text \<open>C35. A damaged block is never read: when any one byte of a stored block, of its compression type or of its
  checksum is changed, decoding it returns the checksum error.\<close>

theorem decode_block_damage:
  assumes "i < length (frame z content)" and "x \<noteq> frame z content ! i"
  shows "decode_block z ((frame z content)[i := x]) = Inl (Err ''block checksum mismatch'')"
proof -
  obtain final t where ft: "choose_compression z content = (final, t)" by (cases "choose_compression z content")
  let ?c = "final @ [t]" and ?crc = "PutUint32 (ChecksumIEEE (final @ [t]))"
  have fr: "frame z content = ?c @ ?crc" by (simp add: frame_def ft)
  let ?data = "(?c @ ?crc)[i := x]"
  have len: "length ?data - 4 = length ?c" "\<not> length ?data < 5" by simp_all
  have "ChecksumIEEE (take (length ?c) ?data) \<noteq> Uint32 (drop (length ?c) ?data)"
  proof (cases "i < length ?c")
    case True
    then have d: "?data = ?c[i := x] @ ?crc" by (simp only: list_update_append if_True)
    have "?c = take i ?c @ ?c ! i # drop (Suc i) ?c" "?c[i := x] = take i ?c @ x # drop (Suc i) ?c"
      using True by (rule id_take_nth_drop, rule upd_conv_take_nth_drop)
    then have "ChecksumIEEE (?c[i := x]) \<noteq> ChecksumIEEE ?c"
      using ChecksumIEEE_one_byte [of x "?c ! i"] assms(2) True fr by (metis nth_append)
    then show ?thesis unfolding d by simp
  next
    case False
    then have d: "?data = ?c @ ?crc[i - length ?c := x]" by (simp only: list_update_append if_False)
    have "?crc[i - length ?c := x] \<noteq> ?crc"
      using assms False fr by (metis length_append less_diff_conv2 linorder_not_less nth_append nth_list_update_eq add.commute)
    then have "Uint32 (?crc[i - length ?c := x]) \<noteq> ChecksumIEEE ?c"
      using PutUint32_Uint32 [of "?crc[i - length ?c := x]"] by (metis length_PutUint length_list_update order_refl take_all)
    then show ?thesis unfolding d by simp
  qed
  then show ?thesis unfolding fr decode_block_def Let_def len by simp
qed

theorem decode_block_damage_witness:
  "\<exists>i x. i < length (frame plain_zlib [1, 2, 3]) \<and>
    decode_block plain_zlib ((frame plain_zlib [1, 2, 3])[i := x]) = Inl (Err ''block checksum mismatch'')"
proof -
  have "(2 :: nat) < length (frame plain_zlib [1, 2, 3])" by (simp add: length_frame)
  moreover have "\<exists>x. x \<noteq> frame plain_zlib [1, 2, 3] ! 2" by (metis zero_neq_one)
  ultimately show ?thesis using decode_block_damage by blast
qed

end
