(* ===== verification/WAL_Record.thy ===== *)
theory WAL_Record
  imports Go_Std
begin

text \<open>
  Package \<^verbatim>\<open>wal\<close>, \<^verbatim>\<open>record.go\<close>: the on-disk form of one atomic batch.  The record is a CRC-32, a
  length, a 16-byte header and one item per logical record.  Lengths are 32-bit words as in the
  source, so \<^verbatim>\<open>int(8 + length)\<close> wraps at \<open>2 ^ 32\<close>; a slice expression whose bounds are out of range
  is the run-time panic it is in Go.
\<close>

section \<open>record.go\<close>

definition recordTypeWriteBatch :: byte where
  "recordTypeWriteBatch = 0x01"

definition logicalTypePut :: byte where
  "logicalTypePut = 0x01"

definition logicalTypeDelete :: byte where
  "logicalTypeDelete = 0x02"

record LogicalRecord =
  LKey :: bytes
  LValue :: bytes
  LType :: byte

record Batch =
  SeqStart :: u64
  Records :: "LogicalRecord list"

abbreviation errInvalidRecord :: go_err where
  "errInvalidRecord \<equiv> Err ''invalid wal record''"

definition encode_item :: "LogicalRecord \<Rightarrow> bytes" where
  "encode_item r =
     PutUint32 (of_nat (length (LKey r))) @
     (if LType r = logicalTypeDelete then PutUint32 0 else PutUint32 (of_nat (length (LValue r)))) @
     [LType r] @ LKey r @
     (if LType r = logicalTypePut then LValue r else [])"

fun encode_payload :: "LogicalRecord list \<Rightarrow> bytes res" where
  "encode_payload [] = Inr []"
| "encode_payload (r # rs) =
     (if length (LKey r) = 0 then Inl (Err ''empty key'')
      else bindr (encode_payload rs) (\<lambda>p. Inr (encode_item r @ p)))"

definition EncodeRecord :: "Batch \<Rightarrow> bytes res" where
  "EncodeRecord batch =
     (if length (Records batch) = 0 then Inl (Err ''empty batch'')
      else if drop_bit 56 (SeqStart batch) \<noteq> 0 then Inl (Err ''sequence number overflow'')
      else bindr (encode_payload (Records batch)) (\<lambda>payload.
        let header = [recordTypeWriteBatch, 0, 0, 0] @ PutUint64 (SeqStart batch) @
                     PutUint32 (of_nat (length (Records batch)));
            len = of_nat (length header + length payload) :: u32;
            body = PutUint32 len @ header @ payload;
            crc = ChecksumIEEE body
        in Inr (PutUint32 crc @ body)))"

definition decode_item :: "bytes \<Rightarrow> nat \<Rightarrow> (LogicalRecord \<times> nat) res" where
  "decode_item payload offset =
     (if offset + 9 > length payload then Inl errInvalidRecord
      else
        let keyLen = unat (Uint32 (drop offset payload));
            valLen = unat (Uint32 (drop (offset + 4) payload));
            typ = payload ! (offset + 8);
            offset1 = offset + 9
        in if offset1 + keyLen > length payload then Inl errInvalidRecord
           else
             let key = take keyLen (drop offset1 payload);
                 offset2 = offset1 + keyLen
             in if typ = logicalTypePut then
                  (if offset2 + valLen > length payload then Inl errInvalidRecord
                   else Inr (\<lparr>LKey = key, LValue = take valLen (drop offset2 payload), LType = typ\<rparr>, offset2 + valLen))
                else Inr (\<lparr>LKey = key, LValue = [], LType = typ\<rparr>, offset2))"

primrec decode_items :: "nat \<Rightarrow> bytes \<Rightarrow> nat \<Rightarrow> LogicalRecord list \<Rightarrow> LogicalRecord list res" where
  "decode_items 0 payload offset records = Inr records"
| "decode_items (Suc n) payload offset records =
     bindr (decode_item payload offset) (\<lambda>(r, offset'). decode_items n payload offset' (records @ [r]))"

definition DecodeRecord :: "bytes \<Rightarrow> (Batch \<times> nat) res" where
  "DecodeRecord data =
     (if length data < 4 + 4 + 16 then Inl errInvalidRecord
      else
        let expectedCRC = Uint32 data;
            len = Uint32 (drop 4 data);
            total = unat (8 + len)
        in if length data < total then Inl errInvalidRecord
           else if total < 4 then Inl (Panic ''slice bounds out of range'')
           else if ChecksumIEEE (drop 4 (take total data)) \<noteq> expectedCRC then Inl errInvalidRecord
           else
             let header = take 16 (drop 8 data)
             in if header ! 0 \<noteq> recordTypeWriteBatch \<or> header ! 1 \<noteq> 0 then Inl errInvalidRecord
                else
                  let seqStart = Uint64 (drop 4 header);
                      count = Uint32 (drop 12 header)
                  in if total < 24 then Inl (Panic ''slice bounds out of range'')
                     else bindr (decode_items (unat count) (drop 24 (take total data)) 0 [])
                            (\<lambda>records. Inr (\<lparr>SeqStart = seqStart, Records = records\<rparr>, total)))"

section \<open>Items\<close>

text \<open>What decoding keeps of a logical record: only a put carries its value on disk.\<close>

definition on_disk :: "LogicalRecord \<Rightarrow> LogicalRecord" where
  "on_disk r = (if LType r = logicalTypePut then r else r\<lparr>LValue := []\<rparr>)"

lemma on_disk_Put [simp]: "LType r = logicalTypePut \<Longrightarrow> on_disk r = r"
  by (simp add: on_disk_def)

lemma types_distinct [simp]: "logicalTypePut \<noteq> logicalTypeDelete" "logicalTypeDelete \<noteq> logicalTypePut"
  by (simp_all add: logicalTypePut_def logicalTypeDelete_def)

lemma length_encode_item: "9 \<le> length (encode_item r)"
  by (simp add: encode_item_def)

lemma encode_payload_eq:
  "encode_payload rs = Inr p \<longleftrightarrow> (\<forall>r\<in>set rs. LKey r \<noteq> []) \<and> p = concat (map encode_item rs)"
  by (induction rs arbitrary: p) auto

lemma length_items: "9 * length rs \<le> length (concat (map encode_item rs))"
proof (induction rs)
  case (Cons r rs)
  then show ?case using length_encode_item [of r] by simp
qed simp

lemma decode_item_encode:
  assumes len: "length (encode_item r) < 2 ^ 32"
  shows "decode_item (pre @ encode_item r @ post) (length pre) =
         Inr (on_disk r, length pre + length (encode_item r))"
proof -
  let ?K = "PutUint32 (of_nat (length (LKey r)))"
  let ?V = "if LType r = logicalTypeDelete then PutUint32 0 else PutUint32 (of_nat (length (LValue r)))"
  let ?W = "if LType r = logicalTypePut then LValue r else []"
  let ?p = "pre @ encode_item r @ post"
  have item: "encode_item r = ?K @ ?V @ [LType r] @ LKey r @ ?W" by (simp add: encode_item_def)
  have l: "length (encode_item r) = 9 + length (LKey r) + length ?W" by (simp add: item)
  have key: "unat (of_nat (length (LKey r)) :: u32) = length (LKey r)"
    using len by (intro unat_of_nat_small) (simp add: l)
  have val: "unat (of_nat (length (LValue r)) :: u32) = length (LValue r)" if "LType r = logicalTypePut"
    using len that by (intro unat_of_nat_small) (simp add: l)
  have "drop (length pre) ?p = ?K @ ?V @ [LType r] @ LKey r @ ?W @ post" by (simp add: item)
  then have k: "Uint32 (drop (length pre) ?p) = of_nat (length (LKey r))" by simp
  have "drop (length pre + 4) ?p = ?V @ [LType r] @ LKey r @ ?W @ post" by (simp add: item)
  then have v: "LType r = logicalTypePut \<Longrightarrow> Uint32 (drop (length pre + 4) ?p) = of_nat (length (LValue r))"
    by simp
  have t: "?p ! (length pre + 8) = LType r" by (simp add: item nth_append)
  have d: "drop (length pre + 9) ?p = LKey r @ ?W @ post" by (simp add: item)
  have e: "drop (length pre + 9 + length (LKey r)) ?p = ?W @ post" by (simp add: item)
  have lp: "length ?p = length pre + (9 + length (LKey r) + length ?W) + length post" by (simp add: l)
  show ?thesis
    unfolding decode_item_def Let_def k t d e key lp
    using v val l e by (auto simp: on_disk_def)
qed

lemma decode_items_encode:
  assumes "\<forall>r\<in>set rs. length (encode_item r) < 2 ^ 32"
  shows "decode_items (length rs) (pre @ concat (map encode_item rs) @ post) (length pre) acc =
         Inr (acc @ map on_disk rs)"
  using assms
proof (induction rs arbitrary: pre acc)
  case Nil
  then show ?case by simp
next
  case (Cons r rs)
  have "decode_item (pre @ concat (map encode_item (r # rs)) @ post) (length pre) =
      Inr (on_disk r, length (pre @ encode_item r))"
    using decode_item_encode [of r pre "concat (map encode_item rs) @ post"] Cons.prems by simp
  moreover have "decode_items (length rs) (pre @ concat (map encode_item (r # rs)) @ post)
      (length (pre @ encode_item r)) (acc @ [on_disk r]) = Inr (acc @ map on_disk (r # rs))"
    using Cons.IH [of "pre @ encode_item r" "acc @ [on_disk r]"] Cons.prems by simp
  ultimately show ?case by simp
qed


section \<open>Records\<close>

abbreviation batch_payload :: "Batch \<Rightarrow> bytes" where
  "batch_payload b \<equiv> concat (map encode_item (Records b))"

definition record_body :: "Batch \<Rightarrow> bytes" where
  "record_body b =
     PutUint32 (of_nat (16 + length (batch_payload b))) @
     ([recordTypeWriteBatch, 0, 0, 0] @ PutUint64 (SeqStart b) @ PutUint32 (of_nat (length (Records b)))) @
     batch_payload b"

definition valid_batch :: "Batch \<Rightarrow> bool" where
  "valid_batch b \<longleftrightarrow> Records b \<noteq> [] \<and> drop_bit 56 (SeqStart b) = 0 \<and> (\<forall>r\<in>set (Records b). LKey r \<noteq> [])"

definition batch_on_disk :: "Batch \<Rightarrow> Batch" where
  "batch_on_disk b = b\<lparr>Records := map on_disk (Records b)\<rparr>"

lemma EncodeRecord_eq:
  "EncodeRecord b = Inr raw \<longleftrightarrow> valid_batch b \<and> raw = PutUint32 (ChecksumIEEE (record_body b)) @ record_body b"
  by (auto simp: EncodeRecord_def valid_batch_def encode_payload_eq record_body_def Let_def)

lemma length_record_body: "length (record_body b) = 20 + length (batch_payload b)"
  by (simp add: record_body_def)

lemma record_total:
  assumes "24 + length (batch_payload b) < 2 ^ 32"
  shows "unat (8 + of_nat (16 + length (batch_payload b)) :: u32) = 24 + length (batch_payload b)"
  using assms by (subst total_of_length) simp_all

lemma item_fits:
  assumes "r \<in> set (Records b)" and "length (batch_payload b) < n"
  shows "length (encode_item r) < n"
proof -
  have "length (encode_item r) \<le> sum_list (map length (map encode_item (Records b)))"
    using assms(1) by (intro member_le_sum_list) auto
  with assms(2) show ?thesis by (simp add: length_concat)
qed

lemma DecodeRecord_body:
  assumes "24 + length (batch_payload b) < 2 ^ 32"
  shows "DecodeRecord (PutUint32 (ChecksumIEEE (record_body b)) @ record_body b @ rest) =
         Inr (batch_on_disk b, 4 + length (record_body b))"
proof -
  let ?crc = "PutUint32 (ChecksumIEEE (record_body b))" and ?p = "batch_payload b"
  let ?L = "PutUint32 (of_nat (16 + length ?p))"
  let ?h = "[recordTypeWriteBatch, 0, 0, 0] @ PutUint64 (SeqStart b) @ PutUint32 (of_nat (length (Records b)))"
  let ?data = "?crc @ record_body b @ rest"
  have body: "record_body b = ?L @ ?h @ ?p" by (simp add: record_body_def)
  have len: "length ?data = 24 + length ?p + length rest" by (simp add: body)
  have tot: "unat (8 + of_nat (16 + length ?p) :: u32) = 24 + length ?p"
    using assms by (rule record_total)
  have L: "Uint32 (drop 4 ?data) = of_nat (16 + length ?p)" by (simp add: body del: of_nat_add)
  have C: "Uint32 ?data = ChecksumIEEE (record_body b)" by simp
  have "take (24 + length ?p) ?data = ?crc @ record_body b" by (simp add: length_record_body)
  then have T: "drop 4 (take (24 + length ?p) ?data) = record_body b"
    and P: "drop 24 (take (24 + length ?p) ?data) = ?p" by (simp_all add: body)
  have H: "take 16 (drop 8 ?data) = ?h" by (simp add: body)
  have "length (Records b) < 2 ^ 32" using assms length_items [of "Records b"] by simp
  then have N: "unat (of_nat (length (Records b)) :: u32) = length (Records b)" by (rule unat_of_nat_small)
  have I: "decode_items (length (Records b)) ?p 0 [] = Inr (map on_disk (Records b))"
    using decode_items_encode [of "Records b" "[]" "[]" "[]"] item_fits [of _ b "2 ^ 32"] assms by simp
  have "Uint64 (drop 4 ?h) = SeqStart b" "Uint32 (drop 12 ?h) = of_nat (length (Records b))" by simp_all
  with I show ?thesis
    unfolding DecodeRecord_def Let_def len L tot C T P H
    by (simp add: N batch_on_disk_def length_record_body)
qed

lemma DecodeRecord_EncodeRecord:
  assumes "EncodeRecord b = Inr raw" and "length raw < 2 ^ 32"
  shows "DecodeRecord (raw @ rest) = Inr (batch_on_disk b, length raw)"
  using assms DecodeRecord_body [of b rest] by (auto simp: EncodeRecord_eq length_record_body)


section \<open>Damaged records\<close>

lemma ChecksumIEEE_update:
  assumes "i < length xs" and "c \<noteq> xs ! i"
  shows "ChecksumIEEE (xs[i := c]) \<noteq> ChecksumIEEE xs"
proof -
  have "xs[i := c] = take i xs @ c # drop (Suc i) xs" and "xs = take i xs @ xs ! i # drop (Suc i) xs"
    using assms(1) by (simp_all add: upd_conv_take_nth_drop id_take_nth_drop)
  then show ?thesis using ChecksumIEEE_one_byte [OF assms(2), of "take i xs" "drop (Suc i) xs"] by simp
qed

text \<open>A record whose bytes outside the length field differ in one place fails its checksum.\<close>

lemma DecodeRecord_bad_crc:
  assumes "24 \<le> length data" and "n = unat (8 + Uint32 (drop 4 data))" and "4 \<le> n"
    and "ChecksumIEEE (drop 4 (take n data)) \<noteq> Uint32 data"
  shows "DecodeRecord data = Inl errInvalidRecord"
  using assms by (simp add: DecodeRecord_def Let_def)

lemma DecodeRecord_flip:
  assumes enc: "EncodeRecord b = Inr raw" and small: "length raw < 2 ^ 32"
    and i: "i < length raw" "i < 4 \<or> 8 \<le> i" and c: "c \<noteq> raw ! i"
  shows "DecodeRecord (raw[i := c] @ rest) = Inl errInvalidRecord"
proof -
  let ?body = "record_body b" and ?p = "batch_payload b"
  let ?crc = "ChecksumIEEE ?body"
  have raw: "raw = PutUint32 ?crc @ ?body" using enc by (simp add: EncodeRecord_eq)
  have tot: "unat (8 + (of_nat (16 + length ?p) :: u32)) = length raw"
    using small record_total [of b] by (simp add: raw length_record_body)
  have len: "24 \<le> length raw" by (simp add: raw length_record_body)
  show ?thesis
  proof (cases "i < 4")
    case True
    let ?c = "(PutUint32 ?crc)[i := c]"
    have data: "raw[i := c] = ?c @ ?body" using True by (simp add: raw list_update_append)
    have "Uint32 (drop 4 (raw[i := c] @ rest)) = of_nat (16 + length ?p)"
      by (simp add: data record_body_def del: of_nat_add)
    moreover have "take (length raw) (raw[i := c] @ rest) = raw[i := c]" by simp
    moreover have "Uint32 (raw[i := c] @ rest) \<noteq> ?crc"
    proof
      assume "Uint32 (raw[i := c] @ rest) = ?crc"
      then have "PutUint32 ?crc = take 4 (raw[i := c] @ rest)"
        using PutUint32_Uint32 [of "raw[i := c] @ rest"] len by simp
      then have "PutUint32 ?crc = ?c" by (simp add: data)
      then have "PutUint32 ?crc ! i = c" using True by (metis length_PutUint(1) nth_list_update_eq)
      with c True show False by (simp add: raw nth_append)
    qed
    moreover have "drop 4 (raw[i := c]) = ?body" by (simp add: data)
    ultimately show ?thesis
      using len tot by (intro DecodeRecord_bad_crc [of _ "length raw"]) auto
  next
    case False
    let ?B = "?body[i - 4 := c]"
    have data: "raw[i := c] = PutUint32 ?crc @ ?B" using False by (simp add: raw list_update_append)
    have "take 4 ?B = take 4 ?body" using i False by (intro take_update_cancel) simp
    then have "Uint32 ?B = Uint32 ?body" by (simp add: Uint32_def)
    moreover have "Uint32 (?B @ rest) = Uint32 ?B" by (simp add: Uint32_def length_record_body)
    moreover have "Uint32 ?body = of_nat (16 + length ?p)" by (simp add: record_body_def del: of_nat_add)
    ultimately have L: "Uint32 (drop 4 (raw[i := c] @ rest)) = of_nat (16 + length ?p)" by (simp add: data)
    have "ChecksumIEEE ?B \<noteq> ?crc"
      using ChecksumIEEE_update [of "i - 4" ?body c] i c False by (auto simp: raw nth_append)
    moreover have "drop 4 (raw[i := c]) = ?B" "Uint32 (raw[i := c] @ rest) = ?crc" by (simp_all add: data)
    ultimately show ?thesis
      using len tot L by (intro DecodeRecord_bad_crc [of _ "length raw"]) auto
  qed
qed

lemma DecodeRecord_torn:
  assumes enc: "EncodeRecord b = Inr raw" and small: "length raw < 2 ^ 32" and n: "n < length raw"
  shows "DecodeRecord (take n raw) = Inl errInvalidRecord"
proof (cases "n < 24")
  case True
  with n show ?thesis by (simp add: DecodeRecord_def)
next
  case False
  let ?p = "batch_payload b"
  have raw: "raw = PutUint32 (ChecksumIEEE (record_body b)) @ record_body b" using enc by (simp add: EncodeRecord_eq)
  have "drop 4 (take n raw) = take (n - 4) (record_body b)" using False by (simp add: raw min_def)
  moreover have "Uint32 (take (n - 4) (record_body b)) = Uint32 (record_body b)"
    using False by (auto simp: Uint32_def min_def)
  moreover have "Uint32 (record_body b) = of_nat (16 + length ?p)" by (simp add: record_body_def del: of_nat_add)
  ultimately have L: "Uint32 (drop 4 (take n raw)) = of_nat (16 + length ?p)" by simp
  have "unat (8 + (of_nat (16 + length ?p) :: u32)) = length raw"
    using small record_total [of b] by (simp add: raw length_record_body)
  with L n False show ?thesis by (simp add: DecodeRecord_def Let_def)
qed


lemma DecodeRecord_torn_then:
  assumes enc: "EncodeRecord b = Inr raw" and small: "length raw < 2 ^ 32" and n: "8 \<le> n" "n < length raw"
    and stuck: "n + length xs < length raw \<or> ChecksumIEEE (drop 4 (take (length raw) (take n raw @ xs))) \<noteq> Uint32 raw"
  shows "DecodeRecord (take n raw @ xs) = Inl errInvalidRecord"
proof -
  let ?p = "batch_payload b"
  have raw: "raw = PutUint32 (ChecksumIEEE (record_body b)) @ record_body b" using enc by (simp add: EncodeRecord_eq)
  have "drop 4 (take n raw @ xs) = take (n - 4) (record_body b) @ xs" using n by (simp add: raw min_def)
  moreover have "Uint32 (take (n - 4) (record_body b) @ xs) = Uint32 (record_body b)"
    using n by (auto simp: Uint32_def min_def raw)
  moreover have "Uint32 (record_body b) = of_nat (16 + length ?p)" by (simp add: record_body_def del: of_nat_add)
  ultimately have L: "Uint32 (drop 4 (take n raw @ xs)) = of_nat (16 + length ?p)" by simp
  have crc: "Uint32 (take n raw @ xs) = Uint32 raw" using n by (auto simp: Uint32_def min_def)
  have total: "unat (8 + (of_nat (16 + length ?p) :: u32)) = length raw"
    using small record_total [of b] by (simp add: raw length_record_body)
  have "24 \<le> length raw" by (simp add: raw length_record_body)
  then show ?thesis using stuck unfolding DecodeRecord_def Let_def L total crc by auto
qed

lemma DecodeRecord_consumes:
  "DecodeRecord data = Inr (b, n) \<Longrightarrow> 24 \<le> n \<and> n \<le> length data"
  by (auto simp: DecodeRecord_def Let_def split: if_splits)

lemma DecodeRecord_Nil [simp]: "DecodeRecord [] = Inl errInvalidRecord"
  by (simp add: DecodeRecord_def)

section \<open>Properties\<close>

text \<open>C25. A batch that encodes to fewer than \<open>2 ^ 32\<close> bytes is read back from the log, whatever
  follows it: same sequence number and keys, the values of the puts, and the number of bytes
  the record takes.  Records of another type come back without their value.\<close>

theorem EncodeRecord_roundtrip:
  assumes "EncodeRecord b = Inr raw" and "length raw < 2 ^ 32"
  shows "DecodeRecord (raw @ rest) = Inr (b\<lparr>Records := map on_disk (Records b)\<rparr>, length raw)"
  using DecodeRecord_EncodeRecord [OF assms] by (simp add: batch_on_disk_def)

definition sample_batch :: Batch where
  "sample_batch = \<lparr>SeqStart = 7, Records =
     [\<lparr>LKey = [107], LValue = [1, 2], LType = logicalTypePut\<rparr>, \<lparr>LKey = [108], LValue = [], LType = logicalTypeDelete\<rparr>]\<rparr>"

lemma sample_batch_encodes: "\<exists>raw. EncodeRecord sample_batch = Inr raw \<and> length raw = 46"
  by (auto simp: EncodeRecord_eq valid_batch_def sample_batch_def length_record_body encode_item_def)

theorem EncodeRecord_roundtrip_witness:
  "\<exists>raw. EncodeRecord sample_batch = Inr raw \<and> DecodeRecord (raw @ [9, 9]) = Inr (sample_batch, 46)"
proof -
  obtain raw where raw: "EncodeRecord sample_batch = Inr raw" "length raw = 46"
    using sample_batch_encodes by blast
  with EncodeRecord_roundtrip [OF raw(1), of "[9, 9]"] show ?thesis
    by (simp add: sample_batch_def on_disk_def)
qed

text \<open>C26. A record cut short anywhere, as a crash during the append leaves it, is rejected, and so is
  a record in which one byte of the checksum, the header or the payload was changed.\<close>

theorem DecodeRecord_rejects_damage:
  assumes "EncodeRecord b = Inr raw" and "length raw < 2 ^ 32"
  shows "(\<forall>n<length raw. DecodeRecord (take n raw) = Inl errInvalidRecord) \<and>
    (\<forall>i<length raw. \<forall>c rest. (i < 4 \<or> 8 \<le> i) \<and> c \<noteq> raw ! i \<longrightarrow>
       DecodeRecord (raw[i := c] @ rest) = Inl errInvalidRecord)"
  using DecodeRecord_torn [OF assms] DecodeRecord_flip [OF assms] by blast

theorem DecodeRecord_rejects_damage_witness:
  "\<exists>raw. EncodeRecord sample_batch = Inr raw \<and> DecodeRecord (take 45 raw) = Inl errInvalidRecord \<and>
     DecodeRecord (raw[40 := raw ! 40 + 1] @ []) = Inl errInvalidRecord"
proof -
  obtain raw where raw: "EncodeRecord sample_batch = Inr raw" "length raw = 46"
    using sample_batch_encodes by blast
  have "DecodeRecord (raw[40 := raw ! 40 + 1] @ []) = Inl errInvalidRecord"
    using conjunct2 [OF DecodeRecord_rejects_damage [OF raw(1)], rule_format, of 40 "raw ! 40 + 1" "[]"] raw(2)
    by simp
  moreover have "DecodeRecord (take 45 raw) = Inl errInvalidRecord"
    using conjunct1 [OF DecodeRecord_rejects_damage [OF raw(1)], rule_format, of 45] raw(2) by simp
  ultimately show ?thesis using raw(1) by blast
qed

text \<open>C27. The length field is read before the checksum protects it: a damaged record whose length
  field is within eight of \<open>2 ^ 32\<close> (and not in the top four) makes the decoder panic on a slice
  expression, instead of returning the error that ends a replay.\<close>

theorem DecodeRecord_length_panic:
  assumes "24 \<le> length data" and "0xFFFFFFF8 \<le> Uint32 (drop 4 data)" and "Uint32 (drop 4 data) \<le> 0xFFFFFFFB"
  shows "DecodeRecord data = Inl (Panic ''slice bounds out of range'')"
proof -
  have "unat (8 + Uint32 (drop 4 data)) < 4"
    using assms(2,3) by (auto simp: word_le_nat_alt unat_word_ariths mod_if)
  with assms(1) show ?thesis by (simp add: DecodeRecord_def Let_def)
qed

theorem DecodeRecord_length_panic_witness:
  "DecodeRecord (PutUint32 0 @ PutUint32 0xFFFFFFF8 @ replicate 16 0) = Inl (Panic ''slice bounds out of range'')"
  by (rule DecodeRecord_length_panic) simp_all

end
