(* ===== verification/Record_Log.thy ===== *)
theory Record_Log
  imports Go_Std
begin

text \<open>
  The contract of a self-delimiting record format in an append-only file, and what a sequential scan
  of such a file returns.  The write-ahead log and the manifest are two instances: each has its own
  record format and its own decoding loop, and both rely on the same three facts, that a whole
  record decodes whatever follows it, that a record cut short does not decode, and that decoding
  moves forward.
\<close>

locale record_log =
  fixes decode :: "bytes \<Rightarrow> ('r \<times> nat) res"
    and scan :: "bytes \<Rightarrow> nat \<Rightarrow> 'r list \<times> go_err option"
    and enc :: "'r \<Rightarrow> bytes"
    and ok :: "'r \<Rightarrow> bool"
    and stored :: "'r \<Rightarrow> 'r"
  assumes consumes: "decode data = Inr (r, n) \<Longrightarrow> 0 < n \<and> n \<le> length data"
    and scan_eq: "scan data off =
      (if off < length data then
         (case decode (drop off data) of
            Inl e \<Rightarrow> ([], Some e)
          | Inr (r, n) \<Rightarrow> (let (rs, e) = scan data (off + n) in (r # rs, e)))
       else ([], None))"
    and whole: "ok r \<Longrightarrow> decode (enc r @ rest) = Inr (stored r, length (enc r))"
    and torn: "ok r \<Longrightarrow> n < length (enc r) \<Longrightarrow> \<exists>e. decode (take n (enc r)) = Inl e"
    and nonempty: "ok r \<Longrightarrow> enc r \<noteq> []"
begin

lemma scan_Nil [simp]: "scan [] 0 = ([], None)"
  by (subst scan_eq) simp

lemma scan_shift: "scan (pre @ data) (length pre + off) = scan data off"
proof (induction "length data - off" arbitrary: off rule: less_induct)
  case less
  have drop: "drop (length pre + off) (pre @ data) = drop off data" by simp
  show ?case
  proof (cases "off < length data")
    case False
    then show ?thesis by (simp add: scan_eq [of "pre @ data"] scan_eq [of data])
  next
    case True
    show ?thesis
    proof (cases "decode (drop off data)")
      case (Inl e)
      then show ?thesis using True drop by (simp add: scan_eq [of "pre @ data"] scan_eq [of data])
    next
      case (Inr rn)
      obtain r n where rn: "rn = (r, n)" by (cases rn)
      then have "0 < n" using Inr consumes by blast
      then have "scan (pre @ data) (length pre + off + n) = scan data (off + n)"
        using less [of "off + n"] True by (simp add: add.assoc)
      then show ?thesis using True Inr rn drop by (simp add: scan_eq [of "pre @ data" "length pre + off"] scan_eq [of data off])
    qed
  qed
qed

lemma scan_whole:
  assumes "ok r"
  shows "scan (enc r @ rest) 0 = (stored r # fst (scan rest 0), snd (scan rest 0))"
  using whole [OF assms, of rest] nonempty [OF assms] scan_shift [of "enc r" rest 0]
  by (simp add: scan_eq [of "enc r @ rest" 0] split: prod.split)

lemma scan_log:
  "\<forall>r\<in>set rs. ok r \<Longrightarrow>
     scan (concat (map enc rs) @ rest) 0 = (map stored rs @ fst (scan rest 0), snd (scan rest 0))"
  by (induction rs) (simp_all add: scan_whole)

lemma scan_torn: "ok r \<Longrightarrow> n < length (enc r) \<Longrightarrow> fst (scan (take n (enc r)) 0) = []"
  using torn [of r n] by (auto simp: scan_eq [of _ 0])

lemma scan_stuck: "decode data = Inl e \<Longrightarrow> fst (scan data 0) = []"
  by (simp add: scan_eq [of _ 0])

text \<open>A log cut at any byte scans to the records that are whole before the cut.\<close>

lemma scan_cut:
  assumes "\<forall>r\<in>set rs. ok r"
  shows "\<exists>k. fst (scan (take n (concat (map enc rs))) 0) = map stored (take k rs) \<and>
    (\<forall>j\<le>length rs. length (concat (map enc (take j rs))) \<le> n \<longrightarrow> j \<le> k)"
  using assms
proof (induction rs arbitrary: n)
  case Nil
  then show ?case by auto
next
  case (Cons r rs)
  then have r: "ok r" by simp
  show ?case
  proof (cases "n < length (enc r)")
    case True
    have "\<not> length (concat (map enc (take j (r # rs)))) \<le> n" if "0 < j" for j
      using True that by (cases j) auto
    moreover have "fst (scan (take n (concat (map enc (r # rs)))) 0) = map stored (take 0 (r # rs))"
      using scan_torn [OF r True] True by simp
    ultimately show ?thesis by (metis le_0_eq not_gr_zero)
  next
    case False
    let ?n = "n - length (enc r)"
    from Cons.IH [of ?n] Cons.prems obtain k where
      k: "fst (scan (take ?n (concat (map enc rs))) 0) = map stored (take k rs)"
         "\<forall>j\<le>length rs. length (concat (map enc (take j rs))) \<le> ?n \<longrightarrow> j \<le> k" by auto
    have "fst (scan (take n (concat (map enc (r # rs)))) 0) = map stored (take (Suc k) (r # rs))"
      using False k(1) by (simp add: scan_whole [OF r])
    moreover have "j \<le> Suc k" if "j \<le> length (r # rs)" "length (concat (map enc (take j (r # rs)))) \<le> n" for j
      using that k(2) by (cases j) auto
    ultimately show ?thesis by blast
  qed
qed

text \<open>The error that stops such a scan is the one of a record cut short.\<close>

lemma scan_cut_error:
  assumes "\<forall>r\<in>set rs. ok r" and "snd (scan (take n (concat (map enc rs))) 0) = Some e"
  shows "\<exists>r\<in>set rs. \<exists>m<length (enc r). decode (take m (enc r)) = Inl e"
  using assms
proof (induction rs arbitrary: n)
  case (Cons r rs)
  then have r: "ok r" by simp
  show ?case
  proof (cases "n < length (enc r)")
    case True
    obtain e' where e': "decode (take n (enc r)) = Inl e'" using torn [OF r True] by blast
    then have "e' = e" using Cons.prems(2) True by (simp add: scan_eq [of _ 0] split: if_splits)
    then show ?thesis using e' True by auto
  next
    case False
    then show ?thesis using Cons.IH [of "n - length (enc r)"] Cons.prems by (auto simp: scan_whole [OF r])
  qed
qed simp

end

end
