(* ===== verification/WAL_Log.thy ===== *)
theory WAL_Log
  imports WAL_Record Os_Files Record_Log "HOL-Library.Multiset"
begin

text \<open>
  Package \<^verbatim>\<open>wal\<close>: segments (\<^verbatim>\<open>segment.go\<close>), the log over them (\<^verbatim>\<open>wal.go\<close>) and its truncation
  (\<^verbatim>\<open>truncation.go\<close>).  The state is the \<open>WAL\<close> object together with its directory; \<^verbatim>\<open>*Segment\<close> pointers are
  keys of the \<^verbatim>\<open>segments\<close> map, so the active segment and its map entry are one object as in the code.
  Every operation takes the \<open>os_env\<close> that decides its system calls and returns the state also when
  it fails.  Segment numbers are unbounded naturals: they start below one million and grow by one
  per rotation.
\<close>

section \<open>segment.go\<close>

record Segment =
  seg_path :: string
  seg_size :: int
  seg_closed :: bool

abbreviation errSegmentClosed :: go_err where
  "errSegmentClosed \<equiv> Err ''wal segment closed''"

definition OpenSegment :: "os_env \<Rightarrow> string \<Rightarrow> dir \<Rightarrow> dir \<times> Segment res" where
  "OpenSegment env p d =
     (if \<not> open_ok env p \<or> map_of d p = Some DirE then (d, Inl (Err ''open''))
      else let d' = file_create p d
           in if \<not> stat_ok env p then (d', Inl (Err ''stat''))
              else (d', Inr \<lparr>seg_path = p, seg_size = int (length (data_at d' p)), seg_closed = False\<rparr>))"

definition Segment_Append :: "os_env \<Rightarrow> bytes \<Rightarrow> Segment \<Rightarrow> dir \<Rightarrow> Segment \<times> dir \<times> go_err option" where
  "Segment_Append env raw s d =
     (if seg_closed s then (s, d, Some errSegmentClosed)
      else case short_write env 0 of
             Some n \<Rightarrow> (s, file_write (seg_path s) (take n raw) d, Some (Err ''write''))
           | None \<Rightarrow> (s\<lparr>seg_size := seg_size s + int (length raw)\<rparr>, file_write (seg_path s) raw d, None))"

definition Segment_Sync :: "os_env \<Rightarrow> Segment \<Rightarrow> dir \<Rightarrow> dir \<times> go_err option" where
  "Segment_Sync env s d =
     (if seg_closed s then (d, Some errSegmentClosed)
      else if \<not> sync_ok env (seg_path s) then (d, Some (Err ''sync''))
      else (file_sync (seg_path s) d, None))"

definition Segment_Close :: "os_env \<Rightarrow> Segment \<Rightarrow> dir \<Rightarrow> Segment \<times> dir \<times> go_err option" where
  "Segment_Close env s d =
     (if seg_closed s then (s, d, None)
      else if \<not> sync_ok env (seg_path s) then (s, d, Some (Err ''sync''))
      else (s\<lparr>seg_closed := True\<rparr>, file_sync (seg_path s) d,
            if close_ok env (seg_path s) then None else Some (Err ''close'')))"

section \<open>wal.go\<close>

record WAL =
  maxSegmentSz :: int
  active :: "nat option"
  activeNum :: nat
  segments :: "(nat \<times> Segment) list"

definition defaultSegmentSize :: int where
  "defaultSegmentSize = 64 * 1024 * 1024"

definition segmentPath :: "nat \<Rightarrow> string" where
  "segmentPath n = ''wal_'' @ Sprintf_06d n @ ''.log''"

definition IsWALFile :: "string \<Rightarrow> bool" where
  "IsWALFile name \<longleftrightarrow> HasPrefix name ''wal_'' \<and> HasSuffix name ''.log''"

definition set_segment :: "nat \<Rightarrow> Segment \<Rightarrow> WAL \<Rightarrow> WAL" where
  "set_segment n s w = w\<lparr>segments := AList.update n s (segments w)\<rparr>"

definition createNewSegment :: "os_env \<Rightarrow> WAL \<Rightarrow> dir \<Rightarrow> WAL \<times> dir \<times> go_err option" where
  "createNewSegment env w d =
     (let n = activeNum w + 1;
          w1 = w\<lparr>activeNum := n\<rparr>
      in case OpenSegment env (segmentPath n) d of
           (d', Inl e) \<Rightarrow> (w1, d', Some e)
         | (d', Inr seg) \<Rightarrow> ((set_segment n seg w1)\<lparr>active := Some n\<rparr>, d', None))"

fun load_segments :: "os_env \<Rightarrow> nat list \<Rightarrow> WAL \<Rightarrow> dir \<Rightarrow> WAL \<times> dir \<times> go_err option" where
  "load_segments env [] w d = (w, d, None)"
| "load_segments env (n # ns) w d =
     (case OpenSegment env (segmentPath n) d of
        (d', Inl e) \<Rightarrow> (w, d', Some e)
      | (d', Inr seg) \<Rightarrow> load_segments env ns ((set_segment n seg w)\<lparr>active := Some n, activeNum := n\<rparr>) d')"

definition loadExistingSegments :: "os_env \<Rightarrow> WAL \<Rightarrow> dir \<Rightarrow> WAL \<times> dir \<times> go_err option" where
  "loadExistingSegments env w d =
     (if \<not> readdir_ok env then (w, d, Some (Err ''readdir''))
      else let nums = List.map_filter (Sscanf_06d ''wal_'' ''.log'') (ReadDir d)
           in load_segments env (sort nums) w d)"

definition OpenWAL :: "os_env \<Rightarrow> int \<Rightarrow> dir \<Rightarrow> dir \<times> WAL res" where
  "OpenWAL env maxSegmentSize d =
     (let sz = (if maxSegmentSize \<le> 0 then defaultSegmentSize else maxSegmentSize);
          w = \<lparr>maxSegmentSz = sz, active = None, activeNum = 0, segments = []\<rparr>
      in if \<not> mkdir_ok env then (d, Inl (Err ''mkdir''))
         else case loadExistingSegments env w d of
                (_, d1, Some e) \<Rightarrow> (d1, Inl e)
              | (w1, d1, None) \<Rightarrow>
                  if active w1 = None then
                    (case createNewSegment env w1 d1 of
                       (_, d2, Some e) \<Rightarrow> (d2, Inl e)
                     | (w2, d2, None) \<Rightarrow> (d2, Inr w2))
                  else (d1, Inr w1))"

definition active_segment :: "WAL \<Rightarrow> (nat \<times> Segment) option" where
  "active_segment w = (case active w of None \<Rightarrow> None | Some n \<Rightarrow> map_option (\<lambda>s. (n, s)) (map_of (segments w) n))"

definition nil_segment :: go_err where
  "nil_segment = Panic ''nil pointer dereference''"

definition rotate :: "os_env \<Rightarrow> WAL \<Rightarrow> dir \<Rightarrow> WAL \<times> dir \<times> go_err option" where
  "rotate env w d =
     (case active_segment w of
        None \<Rightarrow> (w, d, Some nil_segment)
      | Some (n, s) \<Rightarrow>
          (case Segment_Close env s d of
             (s', d', Some e) \<Rightarrow> (set_segment n s' w, d', Some e)
           | (s', d', None) \<Rightarrow> createNewSegment env (set_segment n s' w) d'))"

definition active_append :: "os_env \<Rightarrow> bytes \<Rightarrow> WAL \<Rightarrow> dir \<Rightarrow> WAL \<times> dir \<times> go_err option" where
  "active_append env raw w d =
     (case active_segment w of
        None \<Rightarrow> (w, d, Some nil_segment)
      | Some (n, s) \<Rightarrow> (case Segment_Append env raw s d of (s', d', e) \<Rightarrow> (set_segment n s' w, d', e)))"

definition WAL_Append :: "os_env \<Rightarrow> Batch \<Rightarrow> WAL \<Rightarrow> dir \<Rightarrow> WAL \<times> dir \<times> go_err option" where
  "WAL_Append env batch w d =
     (case EncodeRecord batch of
        Inl e \<Rightarrow> (w, d, Some e)
      | Inr raw \<Rightarrow>
          (case active_segment w of
             None \<Rightarrow> (w, d, Some nil_segment)
           | Some (n, s) \<Rightarrow>
               if seg_size s + int (length raw) > maxSegmentSz w then
                 (case rotate env w d of
                    (w', d', Some e) \<Rightarrow> (w', d', Some e)
                  | (w', d', None) \<Rightarrow> active_append env raw w' d')
               else active_append env raw w d))"

definition WAL_Sync :: "os_env \<Rightarrow> WAL \<Rightarrow> dir \<Rightarrow> dir \<times> go_err option" where
  "WAL_Sync env w d =
     (case active_segment w of
        None \<Rightarrow> (d, Some nil_segment)
      | Some (n, s) \<Rightarrow> Segment_Sync env s d)"

text \<open>\<^verbatim>\<open>Close\<close> ranges over a Go map: the order of the keys is an argument.\<close>

fun WAL_Close :: "os_env \<Rightarrow> nat list \<Rightarrow> WAL \<Rightarrow> dir \<Rightarrow> WAL \<times> dir \<times> go_err option" where
  "WAL_Close env [] w d = (w, d, None)"
| "WAL_Close env (n # ns) w d =
     (case map_of (segments w) n of
        None \<Rightarrow> WAL_Close env ns w d
      | Some s \<Rightarrow>
          (case Segment_Close env s d of
             (s', d', Some e) \<Rightarrow> (set_segment n s' w, d', Some e)
           | (s', d', None) \<Rightarrow> WAL_Close env ns (set_segment n s' w) d'))"

definition WAL_Segments :: "WAL \<Rightarrow> string list" where
  "WAL_Segments w = map segmentPath (sort (map fst (segments w)))"

section \<open>truncation.go\<close>

text \<open>The decoding loop over one segment: the batches up to the first record that does not decode, and
  that record's error.\<close>

function scan_records :: "bytes \<Rightarrow> nat \<Rightarrow> Batch list \<times> go_err option" where
  "scan_records data offset =
     (if offset < length data then
        (case DecodeRecord (drop offset data) of
           Inl e \<Rightarrow> ([], Some e)
         | Inr (b, n) \<Rightarrow> (let (bs, e) = scan_records data (offset + n) in (b # bs, e)))
      else ([], None))"
  by pat_completeness auto
termination
  by (relation "measure (\<lambda>(data, offset). length data - offset)") (auto dest!: DecodeRecord_consumes)

declare scan_records.simps [simp del]

definition batchMax :: "Batch \<Rightarrow> u64" where
  "batchMax b = SeqStart b + of_nat (length (Records b)) - 1"

definition maxSeq :: "Batch list \<Rightarrow> u64" where
  "maxSeq bs = fold (\<lambda>b m. if batchMax b > m then batchMax b else m) bs 0"

text \<open>The loop that collects the segments to delete; \<open>None\<close> is the early \<^verbatim>\<open>return nil\<close> on corruption.\<close>

fun deletable :: "os_env \<Rightarrow> u64 \<Rightarrow> dir \<Rightarrow> string list \<Rightarrow> string list \<Rightarrow> string list res option" where
  "deletable env cutoffSeq d [] acc = Some (Inr acc)"
| "deletable env cutoffSeq d [p] acc = Some (Inr acc)"
| "deletable env cutoffSeq d (p # q # ps) acc =
     (if \<not> read_ok env p then Some (Inl (Err ''read''))
      else case scan_records (data_at d p) 0 of
             (_, Some (Panic m)) \<Rightarrow> Some (Inl (Panic m))
           | (_, Some (Err m)) \<Rightarrow> None
           | (bs, None) \<Rightarrow>
               if maxSeq bs \<le> cutoffSeq then deletable env cutoffSeq d (q # ps) (acc @ [p])
               else Some (Inr acc))"

definition wal_names :: "dir \<Rightarrow> string list" where
  "wal_names d = sort (filter (\<lambda>p. IsWALFile p \<and> map_of d p \<noteq> Some DirE) (ReadDir d))"

definition Truncate :: "os_env \<Rightarrow> u64 \<Rightarrow> dir \<Rightarrow> dir \<times> go_err option" where
  "Truncate env cutoffSeq d =
     (if \<not> readdir_ok env then (d, Some (Err ''readdir''))
      else case deletable env cutoffSeq d (wal_names d) [] of
             None \<Rightarrow> (d, None)
           | Some (Inl e) \<Rightarrow> (d, Some e)
           | Some (Inr ps) \<Rightarrow>
               (fold (\<lambda>p d. if remove_ok env p then AList.delete p d else d) ps d,
                if \<not> open_ok env [] then Some (Err ''open'')
                else if \<not> sync_ok env [] then Some (Err ''sync'') else None))"


section \<open>Scanning a segment\<close>

definition enc :: "Batch \<Rightarrow> bytes" where
  "enc b = (case EncodeRecord b of Inr raw \<Rightarrow> raw | Inl _ \<Rightarrow> [])"

definition loggable :: "Batch \<Rightarrow> bool" where
  "loggable b \<longleftrightarrow> (\<exists>raw. EncodeRecord b = Inr raw \<and> length raw < 2 ^ 32)"

lemma loggable_enc:
  assumes "loggable b"
  shows "EncodeRecord b = Inr (enc b)" and "length (enc b) < 2 ^ 32" and "enc b \<noteq> []"
proof -
  obtain raw where raw: "EncodeRecord b = Inr raw" "length raw < 2 ^ 32" using assms by (auto simp: loggable_def)
  then have "enc b = raw" by (simp add: enc_def)
  with raw show "EncodeRecord b = Inr (enc b)" "length (enc b) < 2 ^ 32" "enc b \<noteq> []"
    by (auto simp: EncodeRecord_eq record_body_def)
qed

interpretation wal_log: record_log DecodeRecord scan_records enc loggable batch_on_disk
proof
  show "0 < n \<and> n \<le> length data" if "DecodeRecord data = Inr (b, n)" for data b n
    using DecodeRecord_consumes [OF that] by simp
  show "scan_records data off =
      (if off < length data then
         (case DecodeRecord (drop off data) of
            Inl e \<Rightarrow> ([], Some e)
          | Inr (r, n) \<Rightarrow> (let (rs, e) = scan_records data (off + n) in (r # rs, e)))
       else ([], None))" for data off
    by (rule scan_records.simps)
  fix b :: Batch
  assume "loggable b"
  note b = loggable_enc [OF this]
  show "DecodeRecord (enc b @ rest) = Inr (batch_on_disk b, length (enc b))" for rest
    using b(1,2) by (rule DecodeRecord_EncodeRecord)
  show "\<exists>e. DecodeRecord (take n (enc b)) = Inl e" if "n < length (enc b)" for n
    using DecodeRecord_torn [OF b(1,2) that] by blast
  show "enc b \<noteq> []" by (rule b(3))
qed

section \<open>The log as a list of batches\<close>

text \<open>Segment names: what \<^verbatim>\<open>segmentPath\<close> prints is a log file, is read back by \<^verbatim>\<open>Sscanf\<close>, and sorts like the
  number, below one million.\<close>

lemma IsWALFile_segmentPath [simp]: "IsWALFile (segmentPath n)"
  by (simp add: IsWALFile_def segmentPath_def HasPrefix_def HasSuffix_def)

lemma segmentPath_less: "m < 1000000 \<Longrightarrow> n < 1000000 \<Longrightarrow> segmentPath m < segmentPath n \<longleftrightarrow> m < n"
  using fixed_less [of m 6 n]
  by (simp add: segmentPath_def Sprintf_06d_fixed append_less_same_length)

lemma segmentPath_inj: "m < 1000000 \<Longrightarrow> n < 1000000 \<Longrightarrow> segmentPath m = segmentPath n \<longleftrightarrow> m = n"
  by (metis linorder_neq_iff segmentPath_less)

lemma not_blank_digit: "is_digit c \<Longrightarrow> \<not> is_blank c"
  by (auto simp: is_digit_def is_blank_def)

lemma Sscanf_segmentPath:
  assumes "n < 1000000"
  shows "Sscanf_06d ''wal_'' ''.log'' (segmentPath n) = Some n"
proof -
  define ds where "ds = fixed 6 n"
  have p: "segmentPath n = ''wal_'' @ ds @ ''.log''"
    using assms by (simp add: segmentPath_def Sprintf_06d_fixed ds_def)
  have len: "length ds = 6" and dig: "\<And>c. c \<in> set ds \<Longrightarrow> is_digit c" and num: "num_of_digits 0 ds = n"
    using assms digits_fixed num_of_digits_fixed [of n 6] by (auto simp: ds_def)
  then obtain c cs where ds: "ds = c # cs" by (cases ds) auto
  have "dropWhile is_blank (ds @ ''.log'') = ds @ ''.log''"
    using not_blank_digit dig by (simp add: ds)
  moreover have "takeWhile is_digit ds = ds" using dig by (simp add: takeWhile_eq_all_conv)
  moreover have "take 6 (ds @ ''.log'') = ds" "drop 6 (ds @ ''.log'') = ''.log''" using len by simp_all
  ultimately show ?thesis
    unfolding Sscanf_06d_def p Let_def using len num ds by (simp add: HasPrefix_def)
qed

definition seg_rep :: "dir \<Rightarrow> nat \<Rightarrow> Batch list \<Rightarrow> bool \<Rightarrow> bool" where
  "seg_rep d n bs sealed \<longleftrightarrow> (\<exists>f. file_at d (segmentPath n) = Some f \<and> fdata f = concat (map enc bs) \<and>
     (sealed \<longrightarrow> fsynced f = length (fdata f)) \<and> (\<forall>b\<in>set bs. loggable b))"

text \<open>\<open>wal_rep w d ns bss bs\<close>: the closed segments, numbered \<open>ns\<close>, hold the batches \<open>bss\<close> and are stable;
  the active segment holds the batches \<open>bs\<close>.\<close>

definition wal_rep :: "WAL \<Rightarrow> dir \<Rightarrow> nat list \<Rightarrow> Batch list list \<Rightarrow> Batch list \<Rightarrow> bool" where
  "wal_rep w d ns bss bs \<longleftrightarrow>
     active w = Some (activeNum w) \<and> activeNum w < 1000000 \<and>
     map_of (segments w) (activeNum w) =
       Some \<lparr>seg_path = segmentPath (activeNum w), seg_size = int (length (concat (map enc bs))), seg_closed = False\<rparr> \<and>
     ReadDir d = map segmentPath (ns @ [activeNum w]) \<and> sorted_wrt (<) (ns @ [activeNum w]) \<and>
     distinct (map fst d) \<and>
     seg_rep d (activeNum w) bs False \<and> list_all2 (\<lambda>n bs. seg_rep d n bs True) ns bss"

definition replay_dir :: "dir \<Rightarrow> Batch list" where
  "replay_dir d = concat (map (\<lambda>p. fst (scan_records (data_at d p) 0)) (wal_names d))"

lemma seg_rep_replay: "seg_rep d n bs sealed \<Longrightarrow> fst (scan_records (data_at d (segmentPath n)) 0) = map batch_on_disk bs"
  using wal_log.scan_log [of bs "[]"] by (auto simp: seg_rep_def data_at_def)

lemma closed_segs_replay:
  "list_all2 (\<lambda>n bs. seg_rep d n bs True) ns bss \<Longrightarrow>
     concat (map (\<lambda>p. fst (scan_records (data_at d p) 0)) (map segmentPath ns)) = map batch_on_disk (concat bss)"
  by (induction ns bss rule: list_all2_induct) (simp_all add: seg_rep_replay)

lemma closed_segs_files:
  "list_all2 (\<lambda>n bs. seg_rep d n bs True) ns bss \<Longrightarrow> n \<in> set ns \<Longrightarrow> \<exists>f. file_at d (segmentPath n) = Some f"
  by (induction ns bss rule: list_all2_induct) (auto simp: seg_rep_def)

lemma wal_rep_names:
  assumes rep: "wal_rep w d ns bss bs"
  shows "wal_names d = map segmentPath (ns @ [activeNum w])"
proof -
  have "\<exists>f. file_at d (segmentPath n) = Some f" if "n \<in> set (ns @ [activeNum w])" for n
    using that rep closed_segs_files [of d ns bss n] by (auto simp: wal_rep_def seg_rep_def)
  then have "map_of d (segmentPath n) \<noteq> Some DirE" if "n \<in> set (ns @ [activeNum w])" for n
    using that by (force simp: file_at_def)
  moreover have rd: "ReadDir d = map segmentPath (ns @ [activeNum w])" using rep by (simp add: wal_rep_def)
  ultimately have "filter (\<lambda>p. IsWALFile p \<and> map_of d p \<noteq> Some DirE) (ReadDir d) = ReadDir d"
    by (auto simp: filter_id_conv)
  then have "wal_names d = sort (ReadDir d)" by (simp only: wal_names_def)
  also have "\<dots> = ReadDir d" by (simp add: ReadDir_def sorted_sort_id)
  finally show ?thesis by (simp only: rd)
qed

lemma fresh_segment:
  assumes "ReadDir d = map segmentPath ns" and "\<forall>n\<in>set ns. n < m" and "m < 1000000"
  shows "map_of d (segmentPath m) = None"
proof -
  have "segmentPath m \<notin> set (ReadDir d)"
    using assms by (auto simp: segmentPath_inj)
  then show ?thesis by (simp add: ReadDir_def map_of_eq_None_iff)
qed

lemma wal_rep_replay: "wal_rep w d ns bss bs \<Longrightarrow> replay_dir d = map batch_on_disk (concat bss @ bs)"
  using closed_segs_replay [of d ns bss] seg_rep_replay [of d "activeNum w" bs False] wal_rep_names [of w d ns bss bs]
  by (simp add: wal_rep_def replay_dir_def)


text \<open>No segment makes the decoder panic.\<close>

definition log_readable :: "dir \<Rightarrow> bool" where
  "log_readable d \<longleftrightarrow> (\<forall>p\<in>set (wal_names d). \<forall>m. snd (scan_records (data_at d p) 0) \<noteq> Some (Panic m))"

lemma seg_rep_scan: "seg_rep d n bs sealed \<Longrightarrow> snd (scan_records (data_at d (segmentPath n)) 0) = None"
  using wal_log.scan_log [of bs "[]"] by (auto simp: seg_rep_def data_at_def)

lemma wal_rep_readable:
  assumes "wal_rep w d ns bss bs"
  shows "log_readable d"
proof -
  have "snd (scan_records (data_at d (segmentPath n)) 0) = None" if "n \<in> set (ns @ [activeNum w])" for n
    using assms that seg_rep_scan by (auto simp: wal_rep_def list_all2_conv_all_nth in_set_conv_nth)
  then show ?thesis using wal_rep_names [OF assms] assms by (auto simp: log_readable_def wal_rep_def)
qed

lemma deletable_readable:
  "\<forall>p\<in>set ps. \<forall>m. snd (scan_records (data_at d p) 0) \<noteq> Some (Panic m) \<Longrightarrow> deletable env c d ps acc \<noteq> Some (Inl (Panic m))"
  by (induction env c d ps acc rule: deletable.induct) (auto split: prod.splits option.splits go_err.splits)

lemma Truncate_readable: "log_readable d \<Longrightarrow> snd (Truncate env c d) \<noteq> Some (Panic m)"
  using deletable_readable [of "wal_names d" d env c "[]" m] by (auto simp: Truncate_def log_readable_def split: option.splits sum.splits)

lemma ReadDir_write [simp]: "ReadDir (file_write p bs d) = ReadDir d" "ReadDir (file_sync p d) = ReadDir d"
  by (simp_all add: ReadDir_def)

lemma map_of_create:
  "map_of (file_create p d) q =
     (if q = p \<and> map_of d p = None then Some (FileE \<lparr>fdata = [], fsynced = 0\<rparr>) else map_of d q)"
  by (auto simp: file_create_def update_conv' split: option.split)

lemma names_create: "map_of d p = None \<Longrightarrow> map fst (file_create p d) = map fst d @ [p]"
  using map_of_eq_None_iff [of d p] by (simp add: file_create_def update_keys)

lemma ReadDir_create:
  assumes "map_of d p = None" and "\<forall>q\<in>set (ReadDir d). q < p"
  shows "ReadDir (file_create p d) = ReadDir d @ [p]"
proof -
  have "sorted (sort (map fst d) @ [p])" using assms(2) by (auto simp: sorted_append ReadDir_def)
  then have "sort (map fst d @ [p]) = sort (map fst d) @ [p]" by (intro properties_for_sort) simp_all
  then show ?thesis by (simp add: ReadDir_def names_create [OF assms(1)])
qed

text \<open>Every operation keeps the representation.\<close>

lemma wal_rep_active:
  "wal_rep w d ns bss bs \<Longrightarrow> active_segment w = Some (activeNum w,
     \<lparr>seg_path = segmentPath (activeNum w), seg_size = int (length (concat (map enc bs))), seg_closed = False\<rparr>)"
  by (simp add: wal_rep_def active_segment_def)

lemma wal_rep_other:
  "wal_rep w d ns bss bs \<Longrightarrow> n \<in> set ns \<Longrightarrow> n < activeNum w \<and> segmentPath n \<noteq> segmentPath (activeNum w)"
  by (auto simp: wal_rep_def sorted_wrt_append segmentPath_inj)

lemma closed_segs_frame:
  assumes "list_all2 (\<lambda>n bs. seg_rep d n bs True) ns bss"
    and "\<And>n. n \<in> set ns \<Longrightarrow> file_at d' (segmentPath n) = file_at d (segmentPath n)"
  shows "list_all2 (\<lambda>n bs. seg_rep d' n bs True) ns bss"
  using assms(1) by (rule list.rel_mono_strong) (simp add: seg_rep_def assms(2))

definition synced_to :: "WAL \<Rightarrow> dir \<Rightarrow> nat" where
  "synced_to w d = (case file_at d (segmentPath (activeNum w)) of Some f \<Rightarrow> fsynced f | None \<Rightarrow> 0)"

lemma active_append_rep:
  assumes rep: "wal_rep w d ns bss bs" and b: "loggable b"
  shows "\<exists>w' d'. active_append no_faults (enc b) w d = (w', d', None) \<and> wal_rep w' d' ns bss (bs @ [b]) \<and>
    activeNum w' = activeNum w \<and> synced_to w' d' = synced_to w d"
proof -
  let ?n = "activeNum w" and ?len = "int (length (concat (map enc bs)))"
  let ?s = "\<lparr>seg_path = segmentPath ?n, seg_size = ?len + int (length (enc b)), seg_closed = False\<rparr>"
  let ?w = "set_segment ?n ?s w" and ?d = "file_write (segmentPath ?n) (enc b) d"
  have "active_append no_faults (enc b) w d = (?w, ?d, None)"
    by (simp add: active_append_def wal_rep_active [OF rep] Segment_Append_def)
  moreover have "seg_rep ?d ?n (bs @ [b]) False"
    using rep b by (auto simp: wal_rep_def seg_rep_def file_at_write)
  moreover have "list_all2 (\<lambda>n bs. seg_rep ?d n bs True) ns bss"
  proof (rule closed_segs_frame)
    show "list_all2 (\<lambda>n bs. seg_rep d n bs True) ns bss" using rep by (simp add: wal_rep_def)
    show "file_at ?d (segmentPath n) = file_at d (segmentPath n)" if "n \<in> set ns" for n
      using wal_rep_other [OF rep that] by (simp add: file_at_write)
  qed
  ultimately have "wal_rep ?w ?d ns bss (bs @ [b])"
    using rep by (simp add: wal_rep_def set_segment_def update_conv')
  moreover have "synced_to ?w ?d = synced_to w d"
    by (simp add: synced_to_def set_segment_def file_at_write split: option.split)
  ultimately show ?thesis
    using \<open>active_append no_faults (enc b) w d = (?w, ?d, None)\<close> by (auto simp: set_segment_def)
qed

lemma rotate_rep:
  assumes rep: "wal_rep w d ns bss bs" and room: "activeNum w + 1 < 1000000"
  shows "\<exists>w' d'. rotate no_faults w d = (w', d', None) \<and>
    wal_rep w' d' (ns @ [activeNum w]) (bss @ [bs]) [] \<and> activeNum w' = activeNum w + 1"
proof -
  let ?n = "activeNum w" and ?p = "segmentPath (activeNum w)" and ?q = "segmentPath (activeNum w + 1)"
  let ?s = "\<lparr>seg_path = ?p, seg_size = int (length (concat (map enc bs))), seg_closed = True\<rparr>"
  let ?t = "\<lparr>seg_path = ?q, seg_size = 0, seg_closed = False\<rparr>"
  let ?d1 = "file_sync ?p d"
  let ?d = "file_create ?q ?d1"
  let ?w = "(set_segment (?n + 1) ?t ((set_segment ?n ?s w)\<lparr>activeNum := ?n + 1\<rparr>))\<lparr>active := Some (?n + 1)\<rparr>"
  have fresh: "map_of ?d1 ?q = None"
    using rep room by (intro fresh_segment [of _ "ns @ [?n]"]) (auto simp: wal_rep_def sorted_wrt_append)
  then have "OpenSegment no_faults ?q ?d1 = (?d, Inr ?t)"
    by (simp add: OpenSegment_def Let_def data_at_def file_at_create)
  then have run: "rotate no_faults w d = (?w, ?d, None)"
    by (simp add: rotate_def wal_rep_active [OF rep] Segment_Close_def createNewSegment_def set_segment_def)
  have neq: "?p \<noteq> ?q" using room by (simp add: segmentPath_inj)
  have "list_all2 (\<lambda>n bs. seg_rep ?d n bs True) ns bss"
  proof (rule closed_segs_frame)
    show "list_all2 (\<lambda>n bs. seg_rep d n bs True) ns bss" using rep by (simp add: wal_rep_def)
    show "file_at ?d (segmentPath n) = file_at d (segmentPath n)" if "n \<in> set ns" for n
      using wal_rep_other [OF rep that] room by (simp add: file_at_create file_at_sync segmentPath_inj)
  qed
  moreover have "seg_rep ?d ?n bs True"
    using rep neq by (auto simp: wal_rep_def seg_rep_def file_at_create file_at_sync)
  moreover have "seg_rep ?d (?n + 1) [] False"
    using fresh by (simp add: seg_rep_def file_at_create)
  moreover have "ReadDir ?d = map segmentPath (ns @ [?n]) @ [?q]"
  proof -
    have "\<forall>x\<in>set (ReadDir ?d1). x < ?q"
      using rep room by (auto simp: wal_rep_def segmentPath_less sorted_wrt_append)
    from ReadDir_create [OF fresh this] show ?thesis using rep by (simp add: wal_rep_def)
  qed
  moreover have "distinct (map fst ?d)"
    using rep fresh by (simp add: wal_rep_def names_create map_of_eq_None_iff flip: set_map)
  ultimately have "wal_rep ?w ?d (ns @ [?n]) (bss @ [bs]) []"
    using rep room by (auto simp: wal_rep_def set_segment_def update_conv' sorted_wrt_append list_all2_appendI)
  with run show ?thesis by (auto simp: set_segment_def)
qed


text \<open>The first \<open>n\<close> batches of the log are stable: they are in closed segments, or in the synced part
  of the active one.\<close>

definition wal_stable :: "WAL \<Rightarrow> dir \<Rightarrow> Batch list list \<Rightarrow> Batch list \<Rightarrow> nat \<Rightarrow> bool" where
  "wal_stable w d bss bs n \<longleftrightarrow> n \<le> length (concat bss @ bs) \<and>
     length (concat (map enc (take (n - length (concat bss)) bs))) \<le> synced_to w d"

lemma WAL_Append_rep:
  assumes rep: "wal_rep w d ns bss bs" and b: "loggable b" and room: "activeNum w + 1 < 1000000"
  shows "\<exists>w' d' ns' bss' bs'. WAL_Append no_faults b w d = (w', d', None) \<and> wal_rep w' d' ns' bss' bs' \<and>
    concat bss' @ bs' = (concat bss @ bs) @ [b] \<and> activeNum w' \<le> activeNum w + 1 \<and>
    (\<forall>n. wal_stable w d bss bs n \<longrightarrow> wal_stable w' d' bss' bs' n)"
proof (cases "int (length (concat (map enc bs))) + int (length (enc b)) > maxSegmentSz w")
  case True
  obtain w1 d1 where r: "rotate no_faults w d = (w1, d1, None)"
    "wal_rep w1 d1 (ns @ [activeNum w]) (bss @ [bs]) []" "activeNum w1 = activeNum w + 1"
    using rotate_rep [OF rep room] by blast
  obtain w2 d2 where a: "active_append no_faults (enc b) w1 d1 = (w2, d2, None)"
    "wal_rep w2 d2 (ns @ [activeNum w]) (bss @ [bs]) ([] @ [b])" "activeNum w2 = activeNum w1"
    using active_append_rep [OF r(2) b] by blast
  have "WAL_Append no_faults b w d = (w2, d2, None)"
    using True by (simp add: WAL_Append_def loggable_enc [OF b] wal_rep_active [OF rep] r(1) a(1) del: length_concat)
  moreover have "concat (bss @ [bs]) @ ([] @ [b]) = (concat bss @ bs) @ [b]" by simp
  moreover have "wal_stable w2 d2 (bss @ [bs]) ([] @ [b]) n" if "wal_stable w d bss bs n" for n
    using that by (simp add: wal_stable_def)
  ultimately show ?thesis using a(2,3) r(3) by (metis order_refl)
next
  case False
  obtain w2 d2 where a: "active_append no_faults (enc b) w d = (w2, d2, None)"
    "wal_rep w2 d2 ns bss (bs @ [b])" "activeNum w2 = activeNum w" "synced_to w2 d2 = synced_to w d"
    using active_append_rep [OF rep b] by blast
  have "WAL_Append no_faults b w d = (w2, d2, None)"
    using False by (simp add: WAL_Append_def loggable_enc [OF b] wal_rep_active [OF rep] a(1) del: length_concat)
  moreover have "wal_stable w2 d2 bss (bs @ [b]) n" if "wal_stable w d bss bs n" for n
    using that a(3,4) by (simp add: wal_stable_def)
  ultimately show ?thesis using a(2,3) by (metis append_assoc le_add1)
qed

lemma WAL_Sync_rep:
  assumes rep: "wal_rep w d ns bss bs"
  shows "\<exists>d'. WAL_Sync no_faults w d = (d', None) \<and> wal_rep w d' ns bss bs \<and>
    synced_to w d' = length (concat (map enc bs))"
proof -
  let ?p = "segmentPath (activeNum w)" and ?d = "file_sync (segmentPath (activeNum w)) d"
  have "WAL_Sync no_faults w d = (?d, None)"
    by (simp add: WAL_Sync_def wal_rep_active [OF rep] Segment_Sync_def)
  moreover have "list_all2 (\<lambda>n bs. seg_rep ?d n bs True) ns bss"
  proof (rule closed_segs_frame)
    show "list_all2 (\<lambda>n bs. seg_rep d n bs True) ns bss" using rep by (simp add: wal_rep_def)
    show "file_at ?d (segmentPath n) = file_at d (segmentPath n)" if "n \<in> set ns" for n
      using wal_rep_other [OF rep that] by (simp add: file_at_sync)
  qed
  moreover have "seg_rep ?d (activeNum w) bs False" "synced_to w ?d = length (concat (map enc bs))"
    using rep by (auto simp: wal_rep_def seg_rep_def file_at_sync synced_to_def)
  ultimately show ?thesis
    using rep by (auto simp: wal_rep_def)
qed


section \<open>Crashes\<close>

lemma crashed_dirs: "crashed d d' \<Longrightarrow> map_of d' p = Some DirE \<longleftrightarrow> map_of d p = Some DirE"
  using crashed_at [of d d' p] by (auto split: option.splits dirent.splits)

lemma crashed_names:
  assumes "crashed d d'" and "distinct (map fst d)"
  shows "wal_names d' = wal_names d"
proof -
  have "ReadDir d' = ReadDir d"
    using assms unfolding ReadDir_def crashed_def by (intro sorted_distinct_set_unique) auto
  then show ?thesis by (simp add: wal_names_def crashed_dirs [OF assms(1)])
qed

lemma seg_rep_crash_sealed:
  assumes "seg_rep d n bs True" and "crashed d d'"
  shows "fst (scan_records (data_at d' (segmentPath n)) 0) = map batch_on_disk bs"
proof -
  obtain f where f: "file_at d (segmentPath n) = Some f" "fdata f = concat (map enc bs)"
    "fsynced f = length (fdata f)" "\<forall>b\<in>set bs. loggable b"
    using assms(1) by (auto simp: seg_rep_def)
  from assms(2) f(1) obtain k where "fsynced f \<le> k" "data_at d' (segmentPath n) = take k (fdata f)"
    by (rule crashed_file)
  with f wal_log.scan_log [OF f(4), of "[]"] show ?thesis by simp
qed

lemma wal_rep_crash:
  assumes rep: "wal_rep w d ns bss bs" and crash: "crashed d d'" and stable: "wal_stable w d bss bs n"
  shows "\<exists>k\<ge>n. replay_dir d' = map batch_on_disk (take k (concat bss @ bs))"
proof -
  have log: "\<forall>b\<in>set bs. loggable b" using rep by (auto simp: wal_rep_def seg_rep_def)
  obtain f where f: "file_at d (segmentPath (activeNum w)) = Some f" "fdata f = concat (map enc bs)"
    using rep by (auto simp: wal_rep_def seg_rep_def)
  from crash f(1) obtain c where c: "fsynced f \<le> c" "data_at d' (segmentPath (activeNum w)) = take c (fdata f)"
    by (rule crashed_file)
  from wal_log.scan_cut [OF log, of c] obtain k where
    k: "fst (scan_records (take c (concat (map enc bs))) 0) = map batch_on_disk (take k bs)"
       "\<forall>j\<le>length bs. length (concat (map enc (take j bs))) \<le> c \<longrightarrow> j \<le> k" by blast
  have "list_all2 (\<lambda>n bs. seg_rep d n bs True) ns bss" using rep by (simp add: wal_rep_def)
  then have "concat (map (\<lambda>p. fst (scan_records (data_at d' p) 0)) (map segmentPath ns)) =
      map batch_on_disk (concat bss)"
    by (induction ns bss rule: list_all2_induct) (simp_all add: seg_rep_crash_sealed [OF _ crash])
  with k(1) have "replay_dir d' = map batch_on_disk (concat bss @ take k bs)"
    using wal_rep_names [OF rep] rep crashed_names [OF crash] by (simp add: replay_dir_def wal_rep_def c(2) f(2))
  moreover have "n - length (concat bss) \<le> k"
    using stable c(1) by (intro k(2) [rule_format]) (auto simp: wal_stable_def synced_to_def f(1))
  ultimately show ?thesis
    by (intro exI [of _ "length (concat bss) + k"]) (auto simp: take_append)
qed


section \<open>Opening a log\<close>

lemma OpenSegment_existing:
  "file_at d p = Some f \<Longrightarrow> OpenSegment no_faults p d =
     (d, Inr \<lparr>seg_path = p, seg_size = int (length (fdata f)), seg_closed = False\<rparr>)"
  by (auto simp: OpenSegment_def file_create_def data_at_def file_at_def split: option.splits dirent.splits)

lemma load_segments_existing:
  assumes "\<forall>n\<in>set ns. file_at d (segmentPath n) \<noteq> None" and "ns \<noteq> []"
  shows "\<exists>w'. load_segments no_faults ns w d = (w', d, None) \<and> active w' = Some (last ns) \<and> activeNum w' = last ns \<and>
    map_of (segments w') (last ns) = Some \<lparr>seg_path = segmentPath (last ns),
      seg_size = int (length (data_at d (segmentPath (last ns)))), seg_closed = False\<rparr>"
  using assms
proof (induction ns arbitrary: w)
  case Nil
  then show ?case by simp
next
  case (Cons n ns)
  then obtain f where f: "file_at d (segmentPath n) = Some f" by auto
  show ?case
  proof (cases "ns = []")
    case True
    then show ?thesis using f by (simp add: OpenSegment_existing data_at_def set_segment_def update_conv')
  next
    case False
    then show ?thesis using Cons f by (simp add: OpenSegment_existing)
  qed
qed

lemma OpenWAL_rep:
  assumes rd: "ReadDir d = map segmentPath (ns @ [n])" and sorted: "sorted_wrt (<) (ns @ [n])"
    and small: "n < 1000000" and d: "distinct (map fst d)"
    and segs: "list_all2 (\<lambda>n bs. seg_rep d n bs True) ns bss" "seg_rep d n bs False"
  shows "\<exists>w. OpenWAL no_faults sz d = (d, Inr w) \<and> wal_rep w d ns bss bs \<and> activeNum w = n"
proof -
  have lt: "m < 1000000" if "m \<in> set (ns @ [n])" for m
    using that sorted small by (auto simp: sorted_wrt_append)
  then have "List.map_filter (Sscanf_06d ''wal_'' ''.log'') (map segmentPath (ns @ [n])) = ns @ [n]"
    by (simp add: List.map_filter_def o_def Sscanf_segmentPath cong: map_cong)
  moreover have "sort (ns @ [n]) = ns @ [n]"
    using sorted by (intro sorted_sort_id) (auto simp: sorted_append strict_sorted_iff sorted_wrt_append)
  moreover have "file_at d (segmentPath m) \<noteq> None" if "m \<in> set (ns @ [n])" for m
    using that segs closed_segs_files by (fastforce simp: seg_rep_def)
  then obtain w where "load_segments no_faults (ns @ [n])
      \<lparr>maxSegmentSz = if sz \<le> 0 then defaultSegmentSize else sz, active = None, activeNum = 0, segments = []\<rparr> d =
      (w, d, None)" "active w = Some n" "activeNum w = n"
    "map_of (segments w) n = Some \<lparr>seg_path = segmentPath n,
      seg_size = int (length (data_at d (segmentPath n))), seg_closed = False\<rparr>"
    using load_segments_existing [of "ns @ [n]" d] by (metis last_snoc snoc_eq_iff_butlast)
  moreover have "data_at d (segmentPath n) = concat (map enc bs)"
    using segs(2) by (auto simp: seg_rep_def data_at_def)
  ultimately show ?thesis
    using rd sorted small d segs
    by (auto simp: OpenWAL_def loadExistingSegments_def wal_rep_def)
qed


lemma OpenWAL_fresh:
  "\<exists>w d. OpenWAL no_faults sz [] = (d, Inr w) \<and> wal_rep w d [] [] [] \<and> activeNum w = 1"
proof -
  let ?s = "if sz \<le> 0 then defaultSegmentSize else sz" and ?p = "segmentPath 1"
  let ?d = "[(?p, FileE \<lparr>fdata = [], fsynced = 0\<rparr>)]"
  let ?w = "\<lparr>maxSegmentSz = ?s, active = Some 1, activeNum = 1,
    segments = [(1, \<lparr>seg_path = ?p, seg_size = 0, seg_closed = False\<rparr>)]\<rparr>"
  have "OpenWAL no_faults sz [] = (?d, Inr ?w)"
    by (simp add: OpenWAL_def loadExistingSegments_def ReadDir_def List.map_filter_def createNewSegment_def
        OpenSegment_def file_create_def data_at_def file_at_def set_segment_def)
  moreover have "wal_rep ?w ?d [] [] []"
    by (simp add: wal_rep_def ReadDir_def seg_rep_def file_at_def)
  ultimately show ?thesis by auto
qed

section \<open>Truncation\<close>

text \<open>What \<^verbatim>\<open>Truncate\<close> may delete: a segment that decodes to its end and holds no batch above the
  cutoff.\<close>

definition obsolete :: "u64 \<Rightarrow> dir \<Rightarrow> string \<Rightarrow> bool" where
  "obsolete cutoff d p \<longleftrightarrow> (\<exists>bs. scan_records (data_at d p) 0 = (bs, None) \<and> (\<forall>b\<in>set bs. batchMax b \<le> cutoff))"

lemma fold_max_le:
  "fold (\<lambda>b m. if batchMax b > m then batchMax b else m) bs m \<le> c \<longleftrightarrow> m \<le> c \<and> (\<forall>b\<in>set bs. batchMax b \<le> c)"
  by (induction bs arbitrary: m) auto

lemma maxSeq_le: "maxSeq bs \<le> c \<longleftrightarrow> (\<forall>b\<in>set bs. batchMax b \<le> c)"
  by (simp add: maxSeq_def fold_max_le)

lemma deletable_sound:
  "deletable env c d ps acc = Some (Inr qs) \<Longrightarrow>
     \<exists>xs ys. qs = acc @ xs \<and> ps = xs @ ys \<and> (\<forall>p\<in>set xs. obsolete c d p) \<and> (ys = [] \<longrightarrow> ps = [])"
proof (induction env c d ps acc rule: deletable.induct)
  case (3 env c d p q ps acc)
  show ?case
  proof (cases "read_ok env p \<and> snd (scan_records (data_at d p) 0) = None \<and> maxSeq (fst (scan_records (data_at d p) 0)) \<le> c")
    case True
    then have p: "obsolete c d p" by (cases "scan_records (data_at d p) 0") (auto simp: obsolete_def maxSeq_le)
    from True 3 have "\<exists>xs ys. qs = (acc @ [p]) @ xs \<and> q # ps = xs @ ys \<and> (\<forall>p\<in>set xs. obsolete c d p) \<and> (ys = [] \<longrightarrow> q # ps = [])"
      by (cases "scan_records (data_at d p) 0") auto
    then obtain xs ys where "qs = (acc @ [p]) @ xs" "q # ps = xs @ ys" "\<forall>p\<in>set xs. obsolete c d p" "ys \<noteq> []" by auto
    with p show ?thesis by (intro exI [of _ "p # xs"] exI [of _ ys]) auto
  next
    case False
    with 3(2) have "qs = acc"
      by (auto split: if_splits prod.splits option.splits go_err.splits)
    then show ?thesis by auto
  qed
qed auto

lemma fold_delete_at:
  "map_of (fold (\<lambda>p d. if ok p then AList.delete p d else d) ps d) q =
     (if q \<in> set ps \<and> ok q then None else map_of d q)"
  by (induction ps arbitrary: d) (auto simp: delete_conv')

lemma set_wal_names: "set (wal_names d) = {p. IsWALFile p \<and> (\<exists>f. map_of d p = Some (FileE f))}"
proof -
  have "p \<in> fst ` set d \<longleftrightarrow> map_of d p \<noteq> None" for p by (simp add: map_of_eq_None_iff)
  moreover have "e \<noteq> None \<and> e \<noteq> Some DirE \<longleftrightarrow> (\<exists>f. e = Some (FileE f))" for e :: "dirent option"
    by (cases e) (auto intro: dirent.exhaust)
  ultimately show ?thesis by (auto simp: wal_names_def ReadDir_def)
qed


definition remove_all :: "(string \<Rightarrow> bool) \<Rightarrow> string list \<Rightarrow> dir \<Rightarrow> dir" where
  "remove_all ok ps d = fold (\<lambda>p d. if ok p then AList.delete p d else d) ps d"

lemma map_of_remove_all: "map_of (remove_all ok ps d) q = (if q \<in> set ps \<and> ok q then None else map_of d q)"
  by (simp add: remove_all_def fold_delete_at)

lemma names_remove_all: "map fst (remove_all ok ps d) = filter (\<lambda>q. \<not> (q \<in> set ps \<and> ok q)) (map fst d)"
proof (induction ps arbitrary: d)
  case (Cons p ps)
  have "map fst (AList.delete p d) = filter (\<lambda>q. q \<noteq> p) (map fst d)" for d :: dir
    by (induction d) auto
  with Cons show ?case by (auto simp: remove_all_def intro!: filter_cong)
qed (simp add: remove_all_def)

lemma wal_names_remove_all:
  "wal_names (remove_all ok ps d) = filter (\<lambda>q. \<not> (q \<in> set ps \<and> ok q)) (wal_names d)"
  unfolding wal_names_def ReadDir_def names_remove_all filter_sort [symmetric] filter_filter map_of_remove_all
  by (intro arg_cong [of _ _ sort] filter_cong) auto

lemma filter_concat_skip:
  "(\<And>p. p \<in> set ps \<Longrightarrow> \<not> K p \<Longrightarrow> filter Q (g p) = []) \<Longrightarrow>
     filter Q (concat (map g (filter K ps))) = filter Q (concat (map g ps))"
  by (induction ps) auto

lemma obsolete_batches: "obsolete c d p \<Longrightarrow> filter (\<lambda>b. c < batchMax b) (fst (scan_records (data_at d p) 0)) = []"
  by (auto simp: obsolete_def filter_empty_conv not_less)

lemma Truncate_cases:
  obtains ps ys where "fst (Truncate env c d) = remove_all (remove_ok env) ps d" and "wal_names d = ps @ ys"
    and "\<forall>p\<in>set ps. obsolete c d p" and "ys = [] \<Longrightarrow> wal_names d = []"
proof (cases "readdir_ok env \<and> (\<exists>qs. deletable env c d (wal_names d) [] = Some (Inr qs))")
  case True
  then obtain qs where q: "deletable env c d (wal_names d) [] = Some (Inr qs)" by blast
  from deletable_sound [OF q] obtain ys where "wal_names d = qs @ ys" "\<forall>p\<in>set qs. obsolete c d p"
    "ys = [] \<longrightarrow> wal_names d = []" by auto
  moreover have "fst (Truncate env c d) = remove_all (remove_ok env) qs d"
    using True q by (simp add: Truncate_def remove_all_def)
  ultimately show thesis by (intro that) auto
next
  case False
  then have "fst (Truncate env c d) = remove_all (remove_ok env) [] d"
    by (auto simp: Truncate_def remove_all_def split: option.splits sum.splits)
  then show thesis by (rule that [of "[]" "wal_names d"]) simp_all
qed

lemma replay_remove_all:
  assumes "\<forall>p\<in>set ps. obsolete c d p"
  shows "filter (\<lambda>b. c < batchMax b) (replay_dir (remove_all ok ps d)) = filter (\<lambda>b. c < batchMax b) (replay_dir d)"
proof -
  let ?K = "\<lambda>q. \<not> (q \<in> set ps \<and> ok q)" and ?g = "\<lambda>d p. fst (scan_records (data_at d p) 0)"
  have "data_at (remove_all ok ps d) q = data_at d q" if "?K q" for q
    using that by (auto simp: data_at_def file_at_def map_of_remove_all)
  then have "map (?g (remove_all ok ps d)) (filter ?K (wal_names d)) = map (?g d) (filter ?K (wal_names d))"
    by (intro map_cong) auto
  then have "replay_dir (remove_all ok ps d) = concat (map (?g d) (filter ?K (wal_names d)))"
    by (simp only: replay_dir_def wal_names_remove_all)
  moreover have "filter (\<lambda>b. c < batchMax b) (?g d p) = []" if "\<not> ?K p" for p
    using assms that obsolete_batches by blast
  ultimately show ?thesis
    using filter_concat_skip [of "wal_names d" ?K "\<lambda>b. c < batchMax b" "?g d"] by (simp add: replay_dir_def)
qed

section \<open>Properties\<close>

datatype wal_op = WAppend Batch | WSync | WReopen

fun wal_step :: "int \<Rightarrow> wal_op \<Rightarrow> WAL \<times> dir \<Rightarrow> WAL \<times> dir" where
  "wal_step sz (WAppend b) (w, d) = (let (w', d', _) = WAL_Append no_faults b w d in (w', d'))"
| "wal_step sz WSync (w, d) = (w, fst (WAL_Sync no_faults w d))"
| "wal_step sz WReopen (w, d) = (case OpenWAL no_faults sz d of (d', Inr w') \<Rightarrow> (w', d') | (d', Inl _) \<Rightarrow> (w, d'))"

text \<open>The batches a run appends, and how many of them its last \<^verbatim>\<open>Sync\<close> covers.\<close>

fun log_step :: "wal_op \<Rightarrow> Batch list \<times> nat \<Rightarrow> Batch list \<times> nat" where
  "log_step (WAppend b) (l, n) = (if valid_batch b then l @ [b] else l, n)"
| "log_step WSync (l, n) = (l, length l)"
| "log_step WReopen (l, n) = (l, n)"

lemma valid_batch_loggable: "valid_batch b \<Longrightarrow> length (record_body b) < 2 ^ 32 - 4 \<Longrightarrow> loggable b"
  using EncodeRecord_eq [of b] by (auto simp: loggable_def)

lemma WAL_Append_invalid: "\<not> valid_batch b \<Longrightarrow> \<exists>e. WAL_Append env b w d = (w, d, Some e)"
  using EncodeRecord_eq [of b] by (cases "EncodeRecord b") (auto simp: WAL_Append_def)

lemma wal_rep_reopen:
  assumes rep: "wal_rep w d ns bss bs" and n: "wal_stable w d bss bs n"
  shows "\<exists>w'. OpenWAL no_faults sz d = (d, Inr w') \<and> wal_rep w' d ns bss bs \<and> activeNum w' = activeNum w \<and>
    wal_stable w' d bss bs n"
proof -
  have "ReadDir d = map segmentPath (ns @ [activeNum w])" "sorted_wrt (<) (ns @ [activeNum w])"
    "activeNum w < 1000000" "distinct (map fst d)" "list_all2 (\<lambda>n bs. seg_rep d n bs True) ns bss"
    "seg_rep d (activeNum w) bs False"
    using rep unfolding wal_rep_def by blast+
  from OpenWAL_rep [OF this, of sz] obtain w' where
    "OpenWAL no_faults sz d = (d, Inr w')" "wal_rep w' d ns bss bs" "activeNum w' = activeNum w" by blast
  with n show ?thesis by (auto simp: wal_stable_def synced_to_def)
qed

lemma wal_run_rep:
  assumes "wal_rep w d ns bss bs" and "wal_stable w d bss bs n" and "activeNum w + length ops < 1000000"
    and "\<forall>b. WAppend b \<in> set ops \<longrightarrow> length (record_body b) < 2 ^ 32 - 4"
  shows "\<exists>w' d' ns' bss' bs' n'. fold (wal_step sz) ops (w, d) = (w', d') \<and> wal_rep w' d' ns' bss' bs' \<and>
    fold log_step ops (concat bss @ bs, n) = (concat bss' @ bs', n') \<and> wal_stable w' d' bss' bs' n'"
  using assms
proof (induction ops arbitrary: w d ns bss bs n)
  case Nil
  then show ?case by auto
next
  case (Cons op ops)
  have ops: "\<forall>b. WAppend b \<in> set ops \<longrightarrow> length (record_body b) < 2 ^ 32 - 4" using Cons.prems(4) by simp
  show ?case
  proof (cases op)
    case (WAppend b)
    show ?thesis
    proof (cases "valid_batch b")
      case True
      with Cons.prems(4) WAppend have "loggable b" by (intro valid_batch_loggable) auto
      from WAL_Append_rep [OF Cons.prems(1) this] Cons.prems(2,3) obtain w' d' ns' bss' bs' where
        "WAL_Append no_faults b w d = (w', d', None)" "wal_rep w' d' ns' bss' bs'"
        "concat bss' @ bs' = (concat bss @ bs) @ [b]" "activeNum w' \<le> activeNum w + 1" "wal_stable w' d' bss' bs' n"
        by auto
      with Cons.IH [of w' d' ns' bss' bs' n] Cons.prems(3) ops True WAppend show ?thesis by simp
    next
      case False
      then obtain e where "WAL_Append no_faults b w d = (w, d, Some e)" using WAL_Append_invalid by blast
      with Cons.IH [of w d ns bss bs n] Cons.prems ops False WAppend show ?thesis by simp
    qed
  next
    case WSync
    from WAL_Sync_rep [OF Cons.prems(1)] obtain d' where "WAL_Sync no_faults w d = (d', None)"
      "wal_rep w d' ns bss bs" "synced_to w d' = length (concat (map enc bs))" by auto
    moreover from this(3) have "wal_stable w d' bss bs (length (concat bss @ bs))" by (simp add: wal_stable_def)
    ultimately show ?thesis
      using Cons.IH [of w d' ns bss bs "length (concat bss @ bs)"] Cons.prems(3) ops WSync by simp
  next
    case WReopen
    from wal_rep_reopen [OF Cons.prems(1,2), of sz] obtain w' where "OpenWAL no_faults sz d = (d, Inr w')"
      "wal_rep w' d ns bss bs" "activeNum w' = activeNum w" "wal_stable w' d bss bs n" by auto
    with Cons.IH [of w' d ns bss bs n] Cons.prems(3) ops WReopen show ?thesis by simp
  qed
qed


text \<open>C8. Durability of the log: start from an empty directory and append, sync and reopen in any order
  without system-call faults, then crash, which may cut any unsynced tail of any file at any byte.
  Replaying the files in name order returns a prefix of the batches that were appended, whole and
  in order, and the prefix holds every batch appended before the last sync.\<close>

theorem wal_crash_recovery:
  assumes "OpenWAL no_faults sz [] = (d0, Inr w0)" and "length ops < 999999"
    and "\<forall>b. WAppend b \<in> set ops \<longrightarrow> length (record_body b) < 2 ^ 32 - 4"
    and "fold (wal_step sz) ops (w0, d0) = (w, d)" and "fold log_step ops ([], 0) = (appended, synced)"
    and "crashed d d'"
  shows "\<exists>k\<ge>synced. replay_dir d' = map batch_on_disk (take k appended)"
proof -
  have rep: "wal_rep w0 d0 [] [] []" and num: "activeNum w0 = 1"
    using assms(1) OpenWAL_fresh [of sz] by auto
  have "wal_stable w0 d0 [] [] 0" by (simp add: wal_stable_def)
  from wal_run_rep [OF rep this, of ops sz] num assms(2-5) obtain ns bss bs where
    "wal_rep w d ns bss bs" "appended = concat bss @ bs" "wal_stable w d bss bs synced" by auto
  with wal_rep_crash assms(6) show ?thesis by blast
qed

lemma sample_loggable: "loggable sample_batch" "valid_batch sample_batch" "batch_on_disk sample_batch = sample_batch"
  "length (record_body sample_batch) = 42"
  using sample_batch_encodes
  by (auto simp: loggable_def valid_batch_def sample_batch_def batch_on_disk_def on_disk_def length_record_body encode_item_def)

text \<open>The log of one synced and one unsynced batch, with the second one torn off by the crash.\<close>

theorem wal_crash_recovery_witness:
  "\<exists>d0 w0 w d. OpenWAL no_faults 100 [] = (d0, Inr w0) \<and>
     fold (wal_step 100) [WAppend sample_batch, WSync, WAppend sample_batch] (w0, d0) = (w, d) \<and>
     (\<forall>d'. crashed d d' \<longrightarrow>
        replay_dir d' = [sample_batch] \<or> replay_dir d' = [sample_batch, sample_batch])"
proof -
  let ?ops = "[WAppend sample_batch, WSync, WAppend sample_batch]"
  obtain w0 d0 where o: "OpenWAL no_faults 100 [] = (d0, Inr w0)" using OpenWAL_fresh by blast
  obtain w d where r: "fold (wal_step 100) ?ops (w0, d0) = (w, d)" by fastforce
  have "replay_dir d' = [sample_batch] \<or> replay_dir d' = [sample_batch, sample_batch]" if "crashed d d'" for d'
  proof -
    from wal_crash_recovery [OF o _ _ r _ that, of "[sample_batch, sample_batch]" 1] sample_loggable
    obtain k where "k \<ge> 1" "replay_dir d' = map batch_on_disk (take k [sample_batch, sample_batch])" by auto
    then show ?thesis using sample_loggable(3) by (cases k; cases "k - 1") auto
  qed
  with o r show ?thesis by blast
qed

text \<open>C12. Truncation is safe: whatever system calls fail, every batch whose last sequence number is
  above the cutoff is still replayed, in order, and the newest segment is kept.\<close>

theorem Truncate_keeps_unflushed:
  assumes "distinct (map fst d)"
  shows "filter (\<lambda>b. cutoff < batchMax b) (replay_dir (fst (Truncate env cutoff d))) =
     filter (\<lambda>b. cutoff < batchMax b) (replay_dir d) \<and>
   (wal_names d = [] \<or> last (wal_names d) \<in> set (wal_names (fst (Truncate env cutoff d))))"
proof -
  obtain ps ys where t: "fst (Truncate env cutoff d) = remove_all (remove_ok env) ps d"
    and names: "wal_names d = ps @ ys" and ps: "\<forall>p\<in>set ps. obsolete cutoff d p"
    and ys: "ys = [] \<Longrightarrow> wal_names d = []"
    using Truncate_cases [of env cutoff d] by metis
  have "distinct (wal_names d)" using assms by (simp add: wal_names_def ReadDir_def)
  then have "last ys \<notin> set ps" if "ys \<noteq> []" using that by (auto simp: names)
  then have "wal_names d = [] \<or> last (wal_names d) \<in> set (wal_names (remove_all (remove_ok env) ps d))"
    using ys by (cases "ys = []") (auto simp: wal_names_remove_all names)
  with replay_remove_all [OF ps] show ?thesis by (simp add: t)
qed

text \<open>Two segments that each hold the sample batch (sequence numbers 7 and 8).\<close>

definition sample_log :: dir where
  "sample_log = [(segmentPath 1, FileE \<lparr>fdata = enc sample_batch, fsynced = 46\<rparr>),
     (segmentPath 2, FileE \<lparr>fdata = enc sample_batch, fsynced = 46\<rparr>)]"

lemma sample_log_names: "wal_names sample_log = [segmentPath 1, segmentPath 2]" "distinct (map fst sample_log)"
  using segmentPath_less [of 1 2] by (auto simp: wal_names_def ReadDir_def sample_log_def)

theorem Truncate_keeps_unflushed_witness:
  "filter (\<lambda>b. 7 < batchMax b) (replay_dir (fst (Truncate no_faults 7 sample_log))) = [sample_batch, sample_batch]"
proof -
  have "segmentPath 1 \<noteq> segmentPath 2" by (simp add: segmentPath_inj)
  then have "replay_dir sample_log = [sample_batch, sample_batch]"
    using wal_log.scan_whole [OF sample_loggable(1), of "[]"] sample_loggable(3)
    by (simp add: replay_dir_def sample_log_names data_at_def file_at_def) (simp add: sample_log_def)
  moreover have "batchMax sample_batch = 8" by (simp add: batchMax_def sample_batch_def)
  ultimately show ?thesis
    using Truncate_keeps_unflushed [OF sample_log_names(2), of 7 no_faults] by simp
qed

text \<open>C28. A record torn by a crash stays in the last segment when the log is reopened, and later records
  are appended after it.  They are then unreachable: in a log of one segment that holds any complete records and then the first bytes of a record,
  at least the eight bytes of its checksum and length, an append and a sync that both succeed without a rotation leave only the complete records for a replay to find.
  This holds if the later record is shorter than the missing tail, and for a longer one unless the torn bytes, filled up with its
  bytes, have the checksum of the torn record.\<close>

theorem torn_tail_hides_later_appends:
  assumes rs: "\<forall>r\<in>set rs. loggable r" and b0: "loggable b0" and b: "loggable b" and n: "8 \<le> n" "n < length (enc b0)"
    and torn: "n + length (enc b) < length (enc b0) \<or>
      ChecksumIEEE (drop 4 (take (length (enc b0)) (take n (enc b0) @ enc b))) \<noteq> Uint32 (enc b0)"
    and sz: "int (length (concat (map enc rs)) + n + length (enc b)) \<le> sz"
    and d: "d = [(segmentPath 1, FileE \<lparr>fdata = concat (map enc rs) @ take n (enc b0), fsynced = length (concat (map enc rs)) + n\<rparr>)]"
  shows "\<exists>w w' d1 d2. OpenWAL no_faults sz d = (d, Inr w) \<and> WAL_Append no_faults b w d = (w', d1, None) \<and>
     WAL_Sync no_faults w' d1 = (d2, None) \<and> replay_dir d2 = map batch_on_disk rs"
proof -
  let ?p = "segmentPath 1" and ?t = "concat (map enc rs) @ take n (enc b0)" and ?n = "length (concat (map enc rs)) + n"
  let ?s = "\<lambda>k. \<lparr>seg_path = ?p, seg_size = int k, seg_closed = False\<rparr>"
  let ?w = "\<lambda>k. \<lparr>maxSegmentSz = sz, active = Some 1, activeNum = 1, segments = [(1, ?s k)]\<rparr>"
  let ?d = "\<lambda>k. [(?p, FileE \<lparr>fdata = ?t @ enc b, fsynced = k\<rparr>)]"
  define t k where "t = ?t" and "k = ?n"
  have len: "length t = k" "sz > 0" "int (k + length (enc b)) \<le> sz" and d': "d = [(?p, FileE \<lparr>fdata = t, fsynced = k\<rparr>)]"
    using n sz d loggable_enc(3) [OF b] by (auto simp: t_def k_def)
  then have o: "OpenWAL no_faults sz d = (d, Inr (?w k))"
    using Sscanf_segmentPath [of 1]
    by (simp add: OpenWAL_def loadExistingSegments_def ReadDir_def List.map_filter_def file_at_def set_segment_def
        OpenSegment_existing)
  have a: "WAL_Append no_faults b (?w k) d = (?w (k + length (enc b)), [(?p, FileE \<lparr>fdata = t @ enc b, fsynced = k\<rparr>)], None)"
    using len d' by (simp add: WAL_Append_def loggable_enc [OF b] active_segment_def active_append_def Segment_Append_def
        file_write_def file_at_def set_segment_def)
  have y: "WAL_Sync no_faults (?w (k + length (enc b))) [(?p, FileE \<lparr>fdata = t @ enc b, fsynced = k\<rparr>)] =
      ([(?p, FileE \<lparr>fdata = t @ enc b, fsynced = k + length (enc b)\<rparr>)], None)"
    using len(1) by (simp add: WAL_Sync_def active_segment_def Segment_Sync_def file_sync_def file_at_def)
  have "replay_dir [(?p, FileE \<lparr>fdata = t @ enc b, fsynced = j\<rparr>)] = fst (scan_records (t @ enc b) 0)" for j
    by (simp add: replay_dir_def wal_names_def ReadDir_def data_at_def file_at_def)
  moreover have "fst (scan_records (take n (enc b0) @ enc b) 0) = []"
    using DecodeRecord_torn_then [OF loggable_enc(1,2) [OF b0] n torn] by (rule wal_log.scan_stuck)
  then have "fst (scan_records (t @ enc b) 0) = map batch_on_disk rs"
    using wal_log.scan_log [OF rs, of "take n (enc b0) @ enc b"] by (simp add: t_def)
  ultimately show ?thesis using o a y by auto
qed

definition large_batch :: Batch where
  "large_batch = \<lparr>SeqStart = 5, Records = [\<lparr>LKey = [107], LValue = replicate 100 0, LType = logicalTypePut\<rparr>]\<rparr>"

lemma length_enc: "loggable b \<Longrightarrow> length (enc b) = 4 + length (record_body b)"
  using EncodeRecord_eq [of b "enc b"] loggable_enc(1) by simp

lemma large_batch_loggable: "loggable large_batch" "length (record_body large_batch) = 130"
proof -
  show l: "length (record_body large_batch) = 130"
    by (simp add: large_batch_def length_record_body encode_item_def)
  show "loggable large_batch"
    by (rule valid_batch_loggable) (simp_all add: l, simp add: valid_batch_def large_batch_def)
qed

theorem torn_tail_hides_later_appends_witness:
  "\<exists>w w' d1 d2. let d = [(segmentPath 1, FileE \<lparr>fdata = enc sample_batch @ take 24 (enc large_batch), fsynced = 70\<rparr>)] in
     OpenWAL no_faults 1000 d = (d, Inr w) \<and> WAL_Append no_faults sample_batch w d = (w', d1, None) \<and>
     WAL_Sync no_faults w' d1 = (d2, None) \<and> replay_dir d2 = [batch_on_disk sample_batch]"
proof -
  have "length (enc sample_batch) = 46" "length (enc large_batch) = 134" by (simp_all add: length_enc large_batch_loggable sample_loggable)
  then show ?thesis
    using torn_tail_hides_later_appends [of "[sample_batch]" large_batch sample_batch 24 1000 _, OF _ large_batch_loggable(1) sample_loggable(1)] sample_loggable(1)
    by (simp add: Let_def)
qed

end
