(* ===== verification/Manifest.thy ===== *)
theory Manifest
  imports Os_Files Record_Log
begin

text \<open>
  Package \<^verbatim>\<open>manifest\<close>: the records that describe changes of the set of tables (\<^verbatim>\<open>record.go\<close>,
  \<^verbatim>\<open>constants.go\<close>) and the file that holds them (\<^verbatim>\<open>manifest.go\<close>).  The interface-typed field \<^verbatim>\<open>Data\<close>
  is a datatype with one constructor per struct the code stores in it; a type assertion on another
  constructor is the panic it is in Go.  \<^verbatim>\<open>FileSize\<close> is a signed 64-bit word.
\<close>

section \<open>constants.go and record.go\<close>

definition RecordTypeAddSSTable :: byte where
  "RecordTypeAddSSTable = 0x01"

definition RecordTypeRemoveSSTable :: byte where
  "RecordTypeRemoveSSTable = 0x02"

definition RecordTypeSetWALCutoff :: byte where
  "RecordTypeSetWALCutoff = 0x03"

record AddSSTable =
  add_FileNum :: u64
  add_Level :: u32
  add_SmallestSeq :: u64
  add_LargestSeq :: u64
  add_SmallestKey :: bytes
  add_LargestKey :: bytes
  add_FileSize :: u64

datatype record_data = DataAddSSTable AddSSTable | DataRemoveSSTable u64 | DataSetWALCutoff u64

record Record =
  rec_Type :: byte
  rec_Data :: record_data

abbreviation ErrInvalidRecord :: go_err where
  "ErrInvalidRecord \<equiv> Err ''invalid manifest record''"

definition bad_assertion :: "go_err" where
  "bad_assertion = Panic ''interface conversion''"

definition encode_add :: "AddSSTable \<Rightarrow> bytes" where
  "encode_add r =
     PutUint64 (add_FileNum r) @ PutUint32 (add_Level r) @ PutUint64 (add_SmallestSeq r) @ PutUint64 (add_LargestSeq r) @
     PutUint32 (of_nat (length (add_SmallestKey r))) @ add_SmallestKey r @
     PutUint32 (of_nat (length (add_LargestKey r))) @ add_LargestKey r @
     PutUint64 (add_FileSize r)"

definition encode_data :: "Record \<Rightarrow> bytes res" where
  "encode_data rec =
     (if rec_Type rec = RecordTypeAddSSTable then
        (case rec_Data rec of DataAddSSTable r \<Rightarrow> Inr (encode_add r) | _ \<Rightarrow> Inl bad_assertion)
      else if rec_Type rec = RecordTypeRemoveSSTable then
        (case rec_Data rec of DataRemoveSSTable n \<Rightarrow> Inr (PutUint64 n) | _ \<Rightarrow> Inl bad_assertion)
      else if rec_Type rec = RecordTypeSetWALCutoff then
        (case rec_Data rec of DataSetWALCutoff s \<Rightarrow> Inr (PutUint64 s) | _ \<Rightarrow> Inl bad_assertion)
      else Inl ErrInvalidRecord)"

definition Manifest_EncodeRecord :: "Record \<Rightarrow> bytes res" where
  "Manifest_EncodeRecord rec =
     bindr (encode_data rec) (\<lambda>payload.
       let header = [rec_Type rec, 0, 0, 0];
           len = of_nat (length header + length payload) :: u32;
           body = PutUint32 len @ header @ payload;
           crc = ChecksumIEEE body
       in Inr (PutUint32 crc @ body))"

text \<open>\<^verbatim>\<open>binary.Read\<close> of a fixed-size value: on a short input the rest is consumed and the variable keeps
  its old value.  \<^verbatim>\<open>Reader.Read\<close> fills what it can of the buffer.\<close>

definition read_u64 :: "u64 \<Rightarrow> bytes \<Rightarrow> u64 \<times> bytes" where
  "read_u64 old rd = (if 8 \<le> length rd then (Uint64 rd, drop 8 rd) else (old, []))"

definition read_u32 :: "u32 \<Rightarrow> bytes \<Rightarrow> u32 \<times> bytes" where
  "read_u32 old rd = (if 4 \<le> length rd then (Uint32 rd, drop 4 rd) else (old, []))"

definition read_buf :: "nat \<Rightarrow> bytes \<Rightarrow> bytes \<times> bytes" where
  "read_buf n rd = (take n rd @ replicate (n - length rd) 0, drop n rd)"

definition decode_add :: "bytes \<Rightarrow> AddSSTable" where
  "decode_add rd0 =
     (let (fileNum, rd1) = read_u64 0 rd0;
          (level, rd2) = read_u32 0 rd1;
          (smallestSeq, rd3) = read_u64 0 rd2;
          (largestSeq, rd4) = read_u64 0 rd3;
          (n, rd5) = read_u32 0 rd4;
          (smallestKey, rd6) = read_buf (unat n) rd5;
          (n', rd7) = read_u32 n rd6;
          (largestKey, rd8) = read_buf (unat n') rd7;
          (fileSize, rd9) = read_u64 0 rd8
      in \<lparr>add_FileNum = fileNum, add_Level = level, add_SmallestSeq = smallestSeq, add_LargestSeq = largestSeq,
          add_SmallestKey = smallestKey, add_LargestKey = largestKey, add_FileSize = fileSize\<rparr>)"

definition Manifest_DecodeRecord :: "bytes \<Rightarrow> (Record \<times> nat) res" where
  "Manifest_DecodeRecord data =
     (if length data < 12 then Inl ErrInvalidRecord
      else
        let wantCRC = Uint32 data;
            len = Uint32 (drop 4 data);
            total = unat (8 + len)
        in if length data < total then Inl ErrInvalidRecord
           else if total < 4 then Inl (Panic ''slice bounds out of range'')
           else if ChecksumIEEE (drop 4 (take total data)) \<noteq> wantCRC then Inl ErrInvalidRecord
           else
             let h = take 4 (drop 8 data)
             in if h ! 1 \<noteq> 0 then Inl ErrInvalidRecord
                else if total < 12 then Inl (Panic ''slice bounds out of range'')
                else
                  let payload = drop 12 (take total data);
                      typ = h ! 0
                  in if typ = RecordTypeAddSSTable then
                       Inr (\<lparr>rec_Type = typ, rec_Data = DataAddSSTable (decode_add payload)\<rparr>, total)
                     else if typ = RecordTypeRemoveSSTable then
                       Inr (\<lparr>rec_Type = typ, rec_Data = DataRemoveSSTable (fst (read_u64 0 payload))\<rparr>, total)
                     else if typ = RecordTypeSetWALCutoff then
                       Inr (\<lparr>rec_Type = typ, rec_Data = DataSetWALCutoff (fst (read_u64 0 payload))\<rparr>, total)
                     else Inl ErrInvalidRecord)"

section \<open>Records\<close>

lemma types_distinct_manifest [simp]:
  "RecordTypeAddSSTable \<noteq> RecordTypeRemoveSSTable" "RecordTypeAddSSTable \<noteq> RecordTypeSetWALCutoff"
  "RecordTypeRemoveSSTable \<noteq> RecordTypeSetWALCutoff" "RecordTypeRemoveSSTable \<noteq> RecordTypeAddSSTable"
  "RecordTypeSetWALCutoff \<noteq> RecordTypeAddSSTable" "RecordTypeSetWALCutoff \<noteq> RecordTypeRemoveSSTable"
  by (simp_all add: RecordTypeAddSSTable_def RecordTypeRemoveSSTable_def RecordTypeSetWALCutoff_def)

lemma read_simps [simp]:
  "read_u64 old (PutUint64 v @ rd) = (v, rd)"
  "read_u32 old32 (PutUint32 u @ rd) = (u, rd)"
  "n = length k \<Longrightarrow> read_buf n (k @ rd) = (k, rd)"
  by (simp_all add: read_u64_def read_u32_def read_buf_def)

lemma read_u64_last [simp]: "read_u64 old (PutUint64 v) = (v, [])"
  using read_simps(1) [of old v "[]"] by simp

lemma decode_encode_add:
  assumes "length (encode_add r) < 2 ^ 32"
  shows "decode_add (encode_add r) = r"
proof -
  have "length (add_SmallestKey r) < 2 ^ 32" "length (add_LargestKey r) < 2 ^ 32"
    using assms by (simp_all add: encode_add_def)
  then have k: "unat (of_nat (length (add_SmallestKey r)) :: u32) = length (add_SmallestKey r)"
    "unat (of_nat (length (add_LargestKey r)) :: u32) = length (add_LargestKey r)"
    by (simp_all add: unat_of_nat_small)
  show ?thesis by (simp add: decode_add_def encode_add_def Let_def k)
qed

definition manifest_body :: "Record \<Rightarrow> bytes \<Rightarrow> bytes" where
  "manifest_body rec payload = PutUint32 (of_nat (4 + length payload)) @ [rec_Type rec, 0, 0, 0] @ payload"

lemma Manifest_EncodeRecord_eq:
  "Manifest_EncodeRecord rec = Inr raw \<longleftrightarrow>
     (\<exists>payload. encode_data rec = Inr payload \<and>
        raw = PutUint32 (ChecksumIEEE (manifest_body rec payload)) @ manifest_body rec payload)"
  by (auto simp: Manifest_EncodeRecord_def manifest_body_def Let_def)

lemma Manifest_roundtrip:
  assumes enc: "Manifest_EncodeRecord rec = Inr raw" and small: "length raw < 2 ^ 32"
  shows "Manifest_DecodeRecord (raw @ rest) = Inr (rec, length raw)"
proof -
  obtain payload where p: "encode_data rec = Inr payload"
    and raw: "raw = PutUint32 (ChecksumIEEE (manifest_body rec payload)) @ manifest_body rec payload"
    using enc by (auto simp: Manifest_EncodeRecord_eq)
  let ?body = "manifest_body rec payload" and ?n = "length payload"
  have len: "length raw = 12 + ?n" by (simp add: raw manifest_body_def)
  have L: "Uint32 (drop 4 (raw @ rest)) = of_nat (4 + ?n)" by (simp add: raw manifest_body_def del: of_nat_add)
  have tot: "unat (8 + of_nat (4 + ?n) :: u32) = 12 + ?n"
    using small len by (subst total_of_length) simp_all
  have C: "Uint32 (raw @ rest) = ChecksumIEEE ?body" by (simp add: raw)
  have "take (12 + ?n) (raw @ rest) = raw" using len by simp
  then have T: "drop 4 (take (12 + ?n) (raw @ rest)) = ?body" and P: "drop 12 (take (12 + ?n) (raw @ rest)) = payload"
    by (simp_all only:) (simp_all add: raw manifest_body_def)
  have H: "take 4 (drop 8 (raw @ rest)) = [rec_Type rec, 0, 0, 0]" by (simp add: raw manifest_body_def)
  have lt: "length (raw @ rest) = 12 + ?n + length rest" using len by simp
  have add: "decode_add (encode_add r) = r" if "rec_Data rec = DataAddSSTable r" "rec_Type rec = RecordTypeAddSSTable" for r
    using p small len that by (intro decode_encode_add) (simp add: encode_data_def)
  show ?thesis
    unfolding Manifest_DecodeRecord_def Let_def L tot C T P H lt
    using p add len by (auto simp: encode_data_def split: if_splits record_data.splits)
qed

lemma Manifest_torn:
  assumes enc: "Manifest_EncodeRecord rec = Inr raw" and small: "length raw < 2 ^ 32" and n: "n < length raw"
  shows "Manifest_DecodeRecord (take n raw) = Inl ErrInvalidRecord"
proof (cases "n < 12")
  case True
  with n show ?thesis by (simp add: Manifest_DecodeRecord_def)
next
  case False
  obtain payload where raw: "raw = PutUint32 (ChecksumIEEE (manifest_body rec payload)) @ manifest_body rec payload"
    using enc by (auto simp: Manifest_EncodeRecord_eq)
  let ?body = "manifest_body rec payload" and ?n = "length payload"
  have "drop 4 (take n raw) = take (n - 4) ?body" using False by (simp add: raw min_def)
  moreover have "Uint32 (take (n - 4) ?body) = Uint32 ?body" using False by (auto simp: Uint32_def min_def)
  moreover have "Uint32 ?body = of_nat (4 + ?n)" by (simp add: manifest_body_def del: of_nat_add)
  ultimately have L: "Uint32 (drop 4 (take n raw)) = of_nat (4 + ?n)" by simp
  have "unat (8 + of_nat (4 + ?n) :: u32) = length raw"
    using small by (subst total_of_length) (simp_all add: raw manifest_body_def)
  with L n False show ?thesis by (simp add: Manifest_DecodeRecord_def Let_def)
qed

lemma Manifest_consumes: "Manifest_DecodeRecord data = Inr (r, n) \<Longrightarrow> 12 \<le> n \<and> n \<le> length data"
  by (auto simp: Manifest_DecodeRecord_def Let_def split: if_splits)


section \<open>manifest.go\<close>

text \<open>The manifest object is its open file, named by its path.\<close>

definition OpenManifest :: "os_env \<Rightarrow> string \<Rightarrow> dir \<Rightarrow> dir \<times> string res" where
  "OpenManifest env p d =
     (if \<not> open_ok env p \<or> map_of d p = Some DirE then (d, Inl (Err ''open'')) else (file_create p d, Inr p))"

definition Manifest_Append :: "os_env \<Rightarrow> Record \<Rightarrow> string \<Rightarrow> dir \<Rightarrow> dir \<times> go_err option" where
  "Manifest_Append env rec p d =
     (case Manifest_EncodeRecord rec of
        Inl e \<Rightarrow> (d, Some e)
      | Inr raw \<Rightarrow>
          (case short_write env 0 of
             Some n \<Rightarrow> (file_write p (take n raw) d, Some (Err ''write''))
           | None \<Rightarrow>
               if sync_ok env p then (file_sync p (file_write p raw d), None)
               else (file_write p raw d, Some (Err ''sync''))))"

fun write_records :: "os_env \<Rightarrow> nat \<Rightarrow> Record list \<Rightarrow> string \<Rightarrow> dir \<Rightarrow> dir \<times> go_err option" where
  "write_records env i [] p d = (d, None)"
| "write_records env i (rec # recs) p d =
     (case Manifest_EncodeRecord rec of
        Inl e \<Rightarrow> (d, Some e)
      | Inr raw \<Rightarrow>
          (case short_write env i of
             Some n \<Rightarrow> (file_write p (take n raw) d, Some (Err ''write''))
           | None \<Rightarrow> write_records env (i + 1) recs p (file_write p raw d)))"

definition Rewrite :: "os_env \<Rightarrow> string \<Rightarrow> Record list \<Rightarrow> dir \<Rightarrow> dir \<times> go_err option" where
  "Rewrite env path records d =
     (let tmpPath = path @ ''.tmp''
      in if \<not> open_ok env tmpPath \<or> map_of d tmpPath = Some DirE then (d, Some (Err ''open''))
         else
           (case write_records env 0 records tmpPath (file_truncate tmpPath d) of
              (d1, Some e) \<Rightarrow> (d1, Some e)
            | (d1, None) \<Rightarrow>
                if \<not> sync_ok env tmpPath then (d1, Some (Err ''sync''))
                else let d2 = file_sync tmpPath d1
                     in if \<not> rename_ok env \<or> map_of d2 path = Some DirE then (d2, Some (Err ''rename''))
                        else (file_rename tmpPath path d2, None)))"

text \<open>The decoding loop of a replay: the records up to the first that does not decode.\<close>

function scan_manifest :: "bytes \<Rightarrow> nat \<Rightarrow> Record list \<times> go_err option" where
  "scan_manifest data offset =
     (if offset < length data then
        (case Manifest_DecodeRecord (drop offset data) of
           Inl e \<Rightarrow> ([], Some e)
         | Inr (r, n) \<Rightarrow> (let (rs, e) = scan_manifest data (offset + n) in (r # rs, e)))
      else ([], None))"
  by pat_completeness auto
termination
  by (relation "measure (\<lambda>(data, offset). length data - offset)") (auto dest!: Manifest_consumes)

declare scan_manifest.simps [simp del]

section \<open>The manifest as a record log\<close>

definition menc :: "Record \<Rightarrow> bytes" where
  "menc r = (case Manifest_EncodeRecord r of Inr raw \<Rightarrow> raw | Inl _ \<Rightarrow> [])"

definition writable :: "Record \<Rightarrow> bool" where
  "writable r \<longleftrightarrow> (\<exists>raw. Manifest_EncodeRecord r = Inr raw \<and> length raw < 2 ^ 32)"

lemma writable_menc:
  assumes "writable r"
  shows "Manifest_EncodeRecord r = Inr (menc r)" and "length (menc r) < 2 ^ 32" and "menc r \<noteq> []"
proof -
  obtain raw where raw: "Manifest_EncodeRecord r = Inr raw" "length raw < 2 ^ 32" using assms by (auto simp: writable_def)
  then have "menc r = raw" by (simp add: menc_def)
  with raw show "Manifest_EncodeRecord r = Inr (menc r)" "length (menc r) < 2 ^ 32" "menc r \<noteq> []"
    by (auto simp: Manifest_EncodeRecord_eq manifest_body_def)
qed

interpretation mlog: record_log Manifest_DecodeRecord scan_manifest menc writable "\<lambda>r. r"
proof
  show "0 < n \<and> n \<le> length data" if "Manifest_DecodeRecord data = Inr (r, n)" for data r n
    using Manifest_consumes [OF that] by simp
  show "scan_manifest data off =
      (if off < length data then
         (case Manifest_DecodeRecord (drop off data) of
            Inl e \<Rightarrow> ([], Some e)
          | Inr (r, n) \<Rightarrow> (let (rs, e) = scan_manifest data (off + n) in (r # rs, e)))
       else ([], None))" for data off
    by (rule scan_manifest.simps)
  fix r :: Record
  assume "writable r"
  note r = writable_menc [OF this]
  show "Manifest_DecodeRecord (menc r @ rest) = Inr (r, length (menc r))" for rest
    using r(1,2) by (rule Manifest_roundtrip)
  show "\<exists>e. Manifest_DecodeRecord (take n (menc r)) = Inl e" if "n < length (menc r)" for n
    using Manifest_torn [OF r(1,2) that] by blast
  show "menc r \<noteq> []" by (rule r(3))
qed

lemma Manifest_Append_any:
  assumes "file_at d p = Some f" and "fsynced f = length (fdata f)" and "writable r"
  shows "\<exists>m s. file_at (fst (Manifest_Append env r p d)) p = Some \<lparr>fdata = fdata f @ take m (menc r), fsynced = s\<rparr> \<and>
    length (fdata f) \<le> s"
proof (cases "short_write env 0")
  case None
  then show ?thesis
    using assms by - (rule exI [of _ "length (menc r)"], cases f, auto simp: Manifest_Append_def writable_menc file_at_write file_at_sync)
next
  case (Some n)
  then show ?thesis
    using assms by - (rule exI [of _ n], cases f, auto simp: Manifest_Append_def writable_menc file_at_write)
qed

lemma Manifest_Append_ok:
  assumes "file_at d p = Some f" and "writable r"
  shows "snd (Manifest_Append no_faults r p d) = None" and
    "file_at (fst (Manifest_Append no_faults r p d)) p =
       Some \<lparr>fdata = fdata f @ menc r, fsynced = length (fdata f @ menc r)\<rparr>"
  using assms by (cases f; simp add: Manifest_Append_def writable_menc file_at_write file_at_sync)+

lemma Manifest_Appends:
  assumes "file_at d p = Some f" and "fsynced f = length (fdata f)" and "\<forall>r\<in>set rs. writable r"
  shows "\<exists>f'. file_at (fold (\<lambda>r d. fst (Manifest_Append no_faults r p d)) rs d) p = Some f' \<and>
    fdata f' = fdata f @ concat (map menc rs) \<and> fsynced f' = length (fdata f')"
  using assms
proof (induction rs arbitrary: d f)
  case Nil
  then show ?case by simp
next
  case (Cons r rs)
  from Manifest_Append_ok(2) [OF Cons.prems(1), of r] Cons.prems(3)
    Cons.IH [of "fst (Manifest_Append no_faults r p d)" "\<lparr>fdata = fdata f @ menc r, fsynced = length (fdata f @ menc r)\<rparr>"]
  show ?case by simp
qed

lemma write_records_other: "q \<noteq> p \<Longrightarrow> file_at (fst (write_records env i recs p d)) q = file_at d q"
  by (induction env i recs p d rule: write_records.induct) (auto simp: file_at_write split: sum.split option.split)

lemma write_records_done:
  assumes "write_records env i recs p d = (d', None)" and "file_at d p = Some f"
  shows "\<exists>f'. file_at d' p = Some f' \<and> fdata f' = fdata f @ concat (map menc recs)"
  using assms
proof (induction env i recs p d arbitrary: f rule: write_records.induct)
  case (1 env i p d)
  then show ?case by simp
next
  case (2 env i rec recs p d)
  from 2(2) obtain raw where raw: "Manifest_EncodeRecord rec = Inr raw" "short_write env i = None"
    "write_records env (i + 1) recs p (file_write p raw d) = (d', None)"
    by (auto split: sum.splits option.splits)
  moreover have "file_at (file_write p raw d) p = Some (f\<lparr>fdata := fdata f @ raw\<rparr>)"
    using 2(3) by (simp add: file_at_write)
  ultimately obtain f' where "file_at d' p = Some f'" "fdata f' = (fdata f @ raw) @ concat (map menc recs)"
    using 2(1) by fastforce
  moreover have "menc rec = raw" using raw(1) by (simp add: menc_def)
  ultimately show ?case by simp
qed

lemma scan_after_crash:
  assumes "file_at d p = Some \<lparr>fdata = [], fsynced = 0\<rparr>" and "\<forall>r\<in>set (rs @ [r]). writable r"
    and "d1 = fold (\<lambda>r d. fst (Manifest_Append no_faults r p d)) rs d"
    and "crashed (fst (Manifest_Append env r p d1)) d2"
  shows "fst (scan_manifest (data_at d2 p) 0) \<in> {rs, rs @ [r]} \<and> (\<forall>m. snd (scan_manifest (data_at d2 p) 0) \<noteq> Some (Panic m))"
proof -
  from Manifest_Appends [OF assms(1), of rs] assms(2,3) obtain f where
    f: "file_at d1 p = Some f" "fdata f = concat (map menc rs)" "fsynced f = length (fdata f)" by auto
  obtain m s where g: "file_at (fst (Manifest_Append env r p d1)) p =
      Some \<lparr>fdata = fdata f @ take m (menc r), fsynced = s\<rparr>" "length (fdata f) \<le> s"
    using Manifest_Append_any [OF f(1,3), of r env] assms(2) by auto
  from crashed_file [OF assms(4) g(1)] obtain n where n: "s \<le> n"
    "data_at d2 p = take n (fdata f @ take m (menc r))" by auto
  let ?k = "length (fdata f) + min (n - length (fdata f)) m"
  have "data_at d2 p = take ?k (concat (map menc (rs @ [r])))"
    using n g(2) by (simp add: f(2) take_append min.commute)
  moreover from mlog.scan_cut [OF assms(2), of ?k] obtain j where
    j: "fst (scan_manifest (take ?k (concat (map menc (rs @ [r])))) 0) = take j (rs @ [r])"
      "\<forall>i\<le>length (rs @ [r]). length (concat (map menc (take i (rs @ [r])))) \<le> ?k \<longrightarrow> i \<le> j" by auto
  moreover have "length rs \<le> j" using j(2) by (auto simp: f(2))
  moreover have "snd (scan_manifest (take ?k (concat (map menc (rs @ [r])))) 0) \<noteq> Some (Panic q)" for q
  proof
    assume "snd (scan_manifest (take ?k (concat (map menc (rs @ [r])))) 0) = Some (Panic q)"
    from mlog.scan_cut_error [OF assms(2) this] obtain x i where "writable x" "i < length (menc x)"
      "Manifest_DecodeRecord (take i (menc x)) = Inl (Panic q)" using assms(2) by blast
    then show False using Manifest_torn [OF writable_menc(1,2)] by fastforce
  qed
  ultimately show ?thesis by (cases "j = length rs") auto
qed

lemma Rewrite_cases:
  "(snd (Rewrite env path recs d) = None \<and>
      file_at (fst (Rewrite env path recs d)) path =
        Some \<lparr>fdata = concat (map menc recs), fsynced = length (concat (map menc recs))\<rparr>) \<or>
   (snd (Rewrite env path recs d) \<noteq> None \<and>
      file_at (fst (Rewrite env path recs d)) path = file_at d path)"
proof -
  let ?tmp = "path @ ''.tmp''" and ?w = "write_records env 0 recs (path @ ''.tmp'') (file_truncate (path @ ''.tmp'') d)"
  obtain d1 e where w: "?w = (d1, e)" by (cases ?w)
  have other: "file_at d1 path = file_at d path"
    using write_records_other [of path ?tmp env 0 recs "file_truncate ?tmp d"] w by (simp add: file_at_truncate)
  show ?thesis
  proof (cases e)
    case (Some x)
    then show ?thesis using w other by (simp add: Rewrite_def Let_def)
  next
    case None
    from write_records_done [of env 0 recs ?tmp "file_truncate ?tmp d" d1] w None obtain f where
      f: "file_at d1 ?tmp = Some f" "fdata f = concat (map menc recs)" by (auto simp: file_at_truncate)
    then have "file_at (file_sync ?tmp d1) ?tmp = Some \<lparr>fdata = concat (map menc recs), fsynced = length (concat (map menc recs))\<rparr>"
      by (cases f) (simp add: file_at_sync)
    from file_at_rename [OF this, of path path] show ?thesis
      using w None other by (simp add: Rewrite_def Let_def file_at_sync)
  qed
qed

section \<open>Properties\<close>

text \<open>C29. Appending to the manifest is atomic and durable: after any sequence of appends without faults
  and one more append that may fail in any way (a short write, a failed sync), followed by a
  crash, a replay reads all earlier records and, of the last one, all or nothing.\<close>

theorem manifest_append_atomic:
  assumes "file_at d p = Some \<lparr>fdata = [], fsynced = 0\<rparr>" and "\<forall>r\<in>set (rs @ [r]). writable r"
    and "d1 = fold (\<lambda>r d. fst (Manifest_Append no_faults r p d)) rs d"
    and "crashed (fst (Manifest_Append env r p d1)) d2"
  shows "fst (scan_manifest (data_at d2 p) 0) \<in> {rs, rs @ [r]}"
  using scan_after_crash [OF assms] by blast

definition sample_edit :: Record where
  "sample_edit = \<lparr>rec_Type = RecordTypeSetWALCutoff, rec_Data = DataSetWALCutoff 9\<rparr>"

lemma sample_edit_writable: "writable sample_edit"
  by (auto simp: writable_def Manifest_EncodeRecord_eq encode_data_def sample_edit_def manifest_body_def)

theorem manifest_append_atomic_witness:
  "\<exists>d2. crashed (fst (Manifest_Append (no_faults\<lparr>short_write := \<lambda>_. Some 5\<rparr>) sample_edit ''MANIFEST''
        (fst (Manifest_Append no_faults sample_edit ''MANIFEST'' [(''MANIFEST'', FileE \<lparr>fdata = [], fsynced = 0\<rparr>)])))) d2 \<and>
     fst (scan_manifest (data_at d2 ''MANIFEST'') 0) \<in> {[sample_edit], [sample_edit, sample_edit]}"
proof -
  let ?d = "[(''MANIFEST'', FileE \<lparr>fdata = [], fsynced = 0\<rparr>)]"
  let ?d1 = "fst (Manifest_Append (no_faults\<lparr>short_write := \<lambda>_. Some 5\<rparr>) sample_edit ''MANIFEST''
        (fst (Manifest_Append no_faults sample_edit ''MANIFEST'' ?d)))"
  have "distinct (map fst ?d1)"
    by (simp add: Manifest_Append_def writable_menc [OF sample_edit_writable])
  then obtain d2 where c: "crashed ?d1 d2" using crashed_exists by blast
  have "file_at ?d ''MANIFEST'' = Some \<lparr>fdata = [], fsynced = 0\<rparr>" by (simp add: file_at_def)
  moreover have "\<forall>r\<in>set ([sample_edit] @ [sample_edit]). writable r" using sample_edit_writable by simp
  ultimately have "fst (scan_manifest (data_at d2 ''MANIFEST'') 0) \<in> {[sample_edit], [sample_edit, sample_edit]}"
    using manifest_append_atomic [of ?d "''MANIFEST''" "[sample_edit]" sample_edit, OF _ _ refl, of _ d2] c by simp
  with c show ?thesis by blast
qed

text \<open>C30. Rewriting the manifest is all or nothing: whatever system call fails, either no error is
  returned and the manifest is exactly the encoding of the given records, fully synced before the
  rename, or an error is returned and the manifest is what it was.\<close>

theorem Rewrite_all_or_nothing:
  "(snd (Rewrite env path recs d) = None \<and>
      file_at (fst (Rewrite env path recs d)) path =
        Some \<lparr>fdata = concat (map menc recs), fsynced = length (concat (map menc recs))\<rparr>) \<or>
   (snd (Rewrite env path recs d) \<noteq> None \<and>
      file_at (fst (Rewrite env path recs d)) path = file_at d path)"
  by (rule Rewrite_cases)

text \<open>C31. Every manifest record that encodes to fewer than \<open>2 ^ 32\<close> bytes is decoded back from the bytes
  written, whatever follows it.\<close>

theorem Manifest_record_roundtrip:
  assumes "Manifest_EncodeRecord rec = Inr raw" and "length raw < 2 ^ 32"
  shows "Manifest_DecodeRecord (raw @ rest) = Inr (rec, length raw)"
  using assms by (rule Manifest_roundtrip)

theorem Manifest_record_roundtrip_witness:
  "\<exists>raw. Manifest_EncodeRecord sample_edit = Inr raw \<and> Manifest_DecodeRecord (raw @ [1]) = Inr (sample_edit, length raw)"
  using Manifest_record_roundtrip [of sample_edit "menc sample_edit" "[1]"] writable_menc [OF sample_edit_writable] by blast

end
