(* ===== verification/Go_Float.thy ===== *)
theory Go_Float
  imports Prelude Complex_Main "HOL-Library.Log_Nat"
begin

text \<open>
  Go's \<^verbatim>\<open>float64\<close> as far as the compaction scores use it: conversion from integers, sum, product, quotient and comparison, each rounded
  to the nearest of the numbers with 53 significant bits, ties to even, as IEEE 754 prescribes.  The sign of a zero is left out: no
  score is divided by a negative zero, and comparisons do not see it.
\<close>

section \<open>Rounding\<close>

datatype float64 = Fin rat | PInf | MInf | NaN

definition nearest_even :: "rat \<Rightarrow> int" where
  "nearest_even x =
     (let f = \<lfloor>x\<rfloor>; r = x - of_int f
      in if r < 1 / 2 then f else if r > 1 / 2 then f + 1 else if even f then f else f + 1)"

text \<open>The exponent of the leading bit of a positive number.\<close>

definition float_exponent :: "rat \<Rightarrow> int" where
  "float_exponent q =
     (let (a, b) = quotient_of q; k = bitlen a - bitlen b
      in if q < 2 powi k then k - 1 else k)"

definition round_pos :: "rat \<Rightarrow> rat" where
  "round_pos q = (let u = 2 powi (max (float_exponent q) (-1022) - 52) in of_int (nearest_even (q / u)) * u)"

definition round64 :: "rat \<Rightarrow> float64" where
  "round64 q =
     (if q = 0 then Fin 0
      else let r = round_pos \<bar>q\<bar>
           in if r \<ge> 2 ^ 1024 then (if q > 0 then PInf else MInf) else Fin (if q > 0 then r else - r))"

section \<open>Arithmetic\<close>

definition float_of_int :: "int \<Rightarrow> float64" where
  "float_of_int n = round64 (of_int n)"

fun fadd :: "float64 \<Rightarrow> float64 \<Rightarrow> float64" where
  "fadd (Fin a) (Fin b) = round64 (a + b)"
| "fadd (Fin a) y = y"
| "fadd x (Fin b) = x"
| "fadd x y = (if x = y then x else NaN)"

text \<open>The number whose sign an infinite product or quotient has; zero times infinity is not a number.\<close>

fun fsign :: "float64 \<Rightarrow> rat" where
  "fsign (Fin a) = a"
| "fsign PInf = 1"
| "fsign MInf = - 1"
| "fsign NaN = 0"

definition inf_of :: "rat \<Rightarrow> float64" where
  "inf_of s = (if s > 0 then PInf else if s < 0 then MInf else NaN)"

fun fmul :: "float64 \<Rightarrow> float64 \<Rightarrow> float64" where
  "fmul (Fin a) (Fin b) = round64 (a * b)"
| "fmul x y = inf_of (fsign x * fsign y)"

fun fdiv :: "float64 \<Rightarrow> float64 \<Rightarrow> float64" where
  "fdiv (Fin a) (Fin b) = (if b = 0 then inf_of a else round64 (a / b))"
| "fdiv x (Fin b) = inf_of (if b < 0 then - fsign x else fsign x)"
| "fdiv (Fin a) y = (if y = NaN then NaN else Fin 0)"
| "fdiv x y = NaN"

fun fgt :: "float64 \<Rightarrow> float64 \<Rightarrow> bool" where
  "fgt (Fin a) (Fin b) \<longleftrightarrow> a > b"
| "fgt PInf y \<longleftrightarrow> y \<noteq> PInf \<and> y \<noteq> NaN"
| "fgt x MInf \<longleftrightarrow> x \<noteq> MInf \<and> x \<noteq> NaN"
| "fgt x y \<longleftrightarrow> False"

definition fge :: "float64 \<Rightarrow> float64 \<Rightarrow> bool" where
  "fge x y \<longleftrightarrow> fgt x y \<or> x = y \<and> x \<noteq> NaN"

lemma fgt_trans: "\<not> fgt a b \<Longrightarrow> fgt c b \<Longrightarrow> \<not> fgt a c"
  by (cases a; cases b; cases c) auto

lemma fgt_irrefl: "\<not> fgt a a"
  by (cases a) auto

section \<open>Exact results\<close>

lemma bitlen_powi:
  assumes "0 < x"
  shows "2 powi (bitlen x - 1) \<le> (of_int x :: rat)" and "(of_int x :: rat) < 2 powi bitlen x"
proof -
  have n: "0 \<le> bitlen x - 1" "0 \<le> bitlen x" using assms bitlen_eq_zero_iff [of x] bitlen_nonneg [of x] by linarith+
  have b: "2 ^ nat (bitlen x - 1) \<le> x" "x < 2 ^ nat (bitlen x)" using bitlen_bounds [OF assms] by simp_all
  have "of_int (2 ^ nat (bitlen x - 1)) \<le> (of_int x :: rat)" "of_int x < (of_int (2 ^ nat (bitlen x)) :: rat)" using b by (simp_all only: of_int_le_iff of_int_less_iff)
  then show "2 powi (bitlen x - 1) \<le> (of_int x :: rat)" "(of_int x :: rat) < 2 powi bitlen x" using n by (simp_all add: power_int_nonneg_exp)
qed

lemma powi_quotient: "(2 :: rat) powi m / 2 powi n = 2 powi (m - n)"
  by (simp add: power_int_diff)

lemma float_exponent_bounds:
  assumes "0 < q"
  shows "2 powi float_exponent q \<le> q" and "q < 2 powi (float_exponent q + 1)"
proof -
  obtain a b where ab: "quotient_of q = (a, b)" by (cases "quotient_of q")
  have b: "0 < b" and q: "q = of_int a / of_int b" using quotient_of_denom_pos [OF ab] quotient_of_div [OF ab] by simp_all
  have a: "0 < a" using assms b unfolding q by (simp add: zero_less_divide_iff)
  define k where "k = bitlen a - bitlen b"
  have pos: "0 < (of_int b :: rat)" "0 < (of_int a :: rat)" using a b by simp_all
  have "2 powi (bitlen a - 1) / 2 powi bitlen b \<le> q"
    unfolding q using bitlen_powi [OF a] bitlen_powi [OF b] pos by (intro frac_le) simp_all
  then have lower: "2 powi (k - 1) \<le> q" unfolding powi_quotient by (simp add: k_def algebra_simps)
  have "q < 2 powi bitlen a / 2 powi (bitlen b - 1)"
    unfolding q using bitlen_powi [OF a] bitlen_powi [OF b] pos by (intro frac_less) simp_all
  then have upper: "q < 2 powi (k + 1)" unfolding powi_quotient by (simp add: k_def algebra_simps)
  have "float_exponent q = (if q < 2 powi k then k - 1 else k)" by (simp add: float_exponent_def ab k_def Let_def)
  then show "2 powi float_exponent q \<le> q" "q < 2 powi (float_exponent q + 1)" using lower upper by (simp_all split: if_splits)
qed

lemma nearest_even_bounds:
  fixes n :: int and x :: rat
  shows "of_int n \<le> x \<Longrightarrow> n \<le> nearest_even x" and "x \<le> of_int n \<Longrightarrow> nearest_even x \<le> n"
proof -
  have f: "\<lfloor>x\<rfloor> \<le> nearest_even x" "nearest_even x \<le> \<lfloor>x\<rfloor> + 1" by (simp_all add: nearest_even_def Let_def)
  show "n \<le> nearest_even x" if "of_int n \<le> x" using f(1) that by (meson le_floor_iff order_trans)
  show "nearest_even x \<le> n" if "x \<le> of_int n"
  proof (cases "x = of_int n")
    case True
    then show ?thesis by (simp add: nearest_even_def)
  next
    case False
    then have "\<lfloor>x\<rfloor> < n" using that by (simp add: floor_less_iff)
    then show ?thesis using f(2) by linarith
  qed
qed

lemma nearest_even_int: "nearest_even (of_int n) = n"
  using nearest_even_bounds [where n = n and x = "of_int n"] by force

lemma powi_less_cancel: "(2 :: rat) powi m < 2 powi n \<Longrightarrow> m < n"
  using power_int_increasing [of n m "2 :: rat"] by (simp add: not_le [symmetric])  blast

lemma round_pos_ge_one:
  assumes "1 \<le> q"
  shows "1 \<le> round_pos q"
proof -
  define e u where "e = float_exponent q" and "u = (2 :: rat) powi (e - 52)"
  have b: "2 powi e \<le> q" "q < 2 powi (e + 1)" using float_exponent_bounds [of q] assms by (simp_all add: e_def)
  have "2 powi 0 < (2 :: rat) powi (e + 1)" using assms b(2) by simp
  then have e: "0 \<le> e" using powi_less_cancel by fastforce
  have u: "0 < u" "u * 2 ^ 52 = 2 powi e" using power_int_add [of "2 :: rat" "e - 52" 52] by (simp_all add: u_def)
  then have "of_int (2 ^ 52) \<le> q / u" using b(1) by (simp add: pos_le_divide_eq mult.commute)
  then have "2 ^ 52 \<le> nearest_even (q / u)" by (rule nearest_even_bounds(1))
  then have "2 ^ 52 * u \<le> of_int (nearest_even (q / u)) * u" using u(1) of_int_le_iff [of "2 ^ 52" "nearest_even (q / u)", where 'a = rat] by (intro mult_right_mono) simp_all
  moreover have "round_pos q = of_int (nearest_even (q / u)) * u" using e by (simp add: round_pos_def Let_def e_def u_def max_def)
  moreover have "1 \<le> (2 :: rat) powi e" using e by simp
  ultimately show ?thesis using u(2) by (simp add: mult.commute)
qed

lemma round_pos_less_one:
  assumes "0 < q" and "q \<le> 1 - 1 / 2 ^ 53"
  shows "round_pos q < 1"
proof -
  define e E u where "e = float_exponent q" and "E = max e (- 1022)" and "u = (2 :: rat) powi (E - 52)"
  have b: "2 powi e \<le> q" "q < 2 powi (e + 1)" using float_exponent_bounds [OF assms(1)] by (simp_all add: e_def)
  have "(2 :: rat) powi e < 2 powi 0" using b(1) assms(2) by (simp add: field_simps)
  then have e: "e \<le> - 1" using powi_less_cancel by fastforce
  have u: "0 < u" "u * 2 ^ 53 = 2 powi (E + 1)" using power_int_add [of "2 :: rat" "E - 52" 53] by (simp_all add: u_def add.commute)
  have r: "round_pos q = of_int (nearest_even (q / u)) * u" by (simp add: round_pos_def Let_def e_def E_def u_def)
  show ?thesis
  proof (cases "E = - 1")
    case True
    then have u1: "u * 2 ^ 53 = 1" using u(2) by simp
    then have "q / u = q * 2 ^ 53" using u(1) by (simp add: field_simps)
    also have "\<dots> \<le> of_int (2 ^ 53 - 1)" using assms(2) by (simp add: field_simps)
    finally have "nearest_even (q / u) \<le> 2 ^ 53 - 1" by (rule nearest_even_bounds(2))
    then have "of_int (nearest_even (q / u)) * u < 2 ^ 53 * u" using u(1) of_int_less_iff [of "nearest_even (q / u)" "2 ^ 53", where 'a = rat] by (intro mult_strict_right_mono) simp_all
    then show ?thesis using r u1 by (simp add: mult.commute)
  next
    case False
    have "q < 2 powi (E + 1)" using b(2) power_int_increasing [of "e + 1" "E + 1" "2 :: rat"] by (auto simp: E_def intro: less_le_trans)
    then have "q / u \<le> of_int (2 ^ 53)" using u by (simp add: pos_divide_le_eq mult.commute)
    then have "nearest_even (q / u) \<le> 2 ^ 53" by (rule nearest_even_bounds(2))
    then have "of_int (nearest_even (q / u)) * u \<le> 2 ^ 53 * u" using u(1) of_int_le_iff [of "nearest_even (q / u)" "2 ^ 53", where 'a = rat] by (intro mult_right_mono) simp_all
    moreover have "(2 :: rat) powi (E + 1) \<le> 2 powi (- 1)" using False e by (intro power_int_increasing) (auto simp: E_def)
    ultimately show ?thesis using r u(2) by (simp add: mult.commute power_int_minus)
  qed
qed

lemma round_pos_int:
  assumes "0 < n" and "n < 2 ^ 53"
  shows "round_pos (of_int n) = of_int n"
proof -
  define e u where "e = float_exponent (of_int n)" and "u = (2 :: rat) powi (e - 52)"
  have b: "2 powi e \<le> (of_int n :: rat)" "(of_int n :: rat) < 2 powi (e + 1)" using float_exponent_bounds [of "of_int n"] assms(1) by (simp_all add: e_def)
  have n: "1 \<le> (of_int n :: rat)" "(of_int n :: rat) < 2 ^ 53" using assms by (simp_all add: of_int_less_iff [of n "2 ^ 53", where 'a = rat, simplified])
  have "(2 :: rat) powi 0 < 2 powi (e + 1)" "(2 :: rat) powi e < 2 powi 53" using n b by simp_all
  then have e: "0 \<le> e" "e \<le> 52" using powi_less_cancel by fastforce+
  have u: "0 < u" "u * 2 powi (52 - e) = 1" using power_int_add [of "2 :: rat" "e - 52" "52 - e"] by (simp_all add: u_def)
  then have "of_int n / u = of_int n * 2 powi (52 - e)" by (simp add: field_simps)
  also have "\<dots> = of_int (n * 2 ^ nat (52 - e))" using e(2) by (simp add: power_int_nonneg_exp)
  finally have "of_int (nearest_even (of_int n / u)) = of_int n / u" by (simp only: nearest_even_int)
  then show ?thesis using u(1) e(1) by (simp add: round_pos_def Let_def e_def u_def max_def)
qed

text \<open>Integers below 2^53 are exact, and so is their sum and product below that bound; their quotient is at least one exactly when the dividend is at least
  the divisor.\<close>

lemma round64_int: "0 \<le> n \<Longrightarrow> n < 2 ^ 53 \<Longrightarrow> round64 (of_int n) = Fin (of_int n)"
proof (cases "n = 0")
  case False
  assume n: "0 \<le> n" "n < 2 ^ 53"
  then have "(of_int n :: rat) < of_int (2 ^ 53)" by (simp only: of_int_less_iff)
  then have "\<not> (2 ^ 1024 \<le> (of_int n :: rat))" by simp
  then show ?thesis using n False round_pos_int [of n] by (simp add: round64_def Let_def)
qed (simp add: round64_def)

lemma float_of_int_exact: "0 \<le> n \<Longrightarrow> n < 2 ^ 53 \<Longrightarrow> float_of_int n = Fin (of_int n)"
  by (simp only: float_of_int_def round64_int)

lemma fdiv_ge_one:
  assumes "0 \<le> a" "0 < b" "b < 2 ^ 53"
  shows "fge (fdiv (Fin (of_int a)) (Fin (of_int b))) (Fin 1) \<longleftrightarrow> b \<le> a"
proof (cases "b \<le> a")
  case True
  let ?q = "of_int a / of_int b :: rat"
  have q: "1 \<le> ?q" using True assms(2) by (simp add: le_divide_eq_1)
  then show ?thesis using round_pos_ge_one [OF q] True assms(2) by (auto simp: round64_def Let_def fge_def)
next
  case False
  let ?q = "of_int a / of_int b :: rat"
  have b: "0 < (of_int b :: rat)" "(of_int b :: rat) \<le> 2 ^ 53" using assms(2,3) of_int_le_iff [of b "2 ^ 53", where 'a = rat] by simp_all
  have "?q \<le> of_int (b - 1) / of_int b" using False b(1) by (intro divide_right_mono) simp_all
  also have "\<dots> = 1 - 1 / of_int b" using b(1) by (simp add: field_simps)
  also have "\<dots> \<le> 1 - 1 / 2 ^ 53" using b by (simp add: frac_le)
  finally have q: "?q \<le> 1 - 1 / 2 ^ 53" .
  show ?thesis
  proof (cases "a = 0")
    case True
    then show ?thesis using assms(2) by (simp add: round64_def fge_def)
  next
    case nz: False
    then have "0 < ?q" using assms b(1) by simp
    then have "round_pos ?q < 1" "0 < ?q" using round_pos_less_one q by blast+
    moreover from this have "\<not> 2 ^ 1024 \<le> round_pos ?q" by simp
    ultimately show ?thesis using False nz assms b(1) by (auto simp: round64_def Let_def fge_def)
  qed
qed

end
