(* ===== verification/Version_Set.thy ===== *)
theory Version_Set
  imports Manifest Internal_Key Go_Float "HOL-Library.Multiset"
begin

text \<open>
  Package \<^verbatim>\<open>engine\<close>, \<^verbatim>\<open>version_set.go\<close> and \<^verbatim>\<open>manifest_replay.go\<close>: which tables make up the database, and its
  reconstruction from the manifest.  The levels are a list of seven table lists; a 64-bit file size is kept as
  its word and read signed where the code compares it.  The lock is not modelled: every method holds it from its
  first to its last statement.
\<close>

section \<open>version_set.go\<close>

definition NumLevels :: nat where
  "NumLevels = 7"

record SSTableMeta =
  FileNum :: u64
  Level :: u32
  SmallestSeq :: u64
  LargestSeq :: u64
  SmallestKey :: bytes
  LargestKey :: bytes
  FileSize :: u64

record VersionSet =
  Levels :: "SSTableMeta list list"
  Obsolete :: "u64 set"
  WALCutoffSeq :: u64

definition NewVersionSet :: VersionSet where
  "NewVersionSet = \<lparr>Levels = replicate NumLevels [], Obsolete = {}, WALCutoffSeq = 0\<rparr>"

text \<open>\<^verbatim>\<open>sort.Slice\<close> leaves the order of tables with the same smallest key open; the model keeps it, as the insertion sort does
  that it runs on short slices.\<close>

definition AddTable :: "SSTableMeta \<Rightarrow> VersionSet \<Rightarrow> VersionSet \<times> go_err option" where
  "AddTable meta v =
     (if unat (Level meta) \<ge> NumLevels then (v, Some (Err ''invalid level''))
      else
        let l = unat (Level meta);
            files = Levels v ! l @ [meta];
            files = (if Level meta > 0 then sort_key SmallestKey files else files)
        in (v\<lparr>Levels := (Levels v)[l := files]\<rparr>, None))"

fun remove_file :: "u64 \<Rightarrow> SSTableMeta list \<Rightarrow> SSTableMeta list option" where
  "remove_file n [] = None"
| "remove_file n (t # files) = (if FileNum t = n then Some files else map_option ((#) t) (remove_file n files))"

fun remove_level :: "u64 \<Rightarrow> SSTableMeta list list \<Rightarrow> SSTableMeta list list" where
  "remove_level n [] = []"
| "remove_level n (files # ls) = (case remove_file n files of Some files' \<Rightarrow> files' # ls | None \<Rightarrow> files # remove_level n ls)"

definition RemoveTable :: "u64 \<Rightarrow> VersionSet \<Rightarrow> VersionSet" where
  "RemoveTable fileNum v = v\<lparr>Obsolete := insert fileNum (Obsolete v), Levels := remove_level fileNum (Levels v)\<rparr>"

definition SetWALCutoff :: "u64 \<Rightarrow> VersionSet \<Rightarrow> VersionSet" where
  "SetWALCutoff seq v = (if seq > WALCutoffSeq v then v\<lparr>WALCutoffSeq := seq\<rparr> else v)"

definition GetAllTables :: "VersionSet \<Rightarrow> SSTableMeta list" where
  "GetAllTables v = concat (Levels v)"

text \<open>The scores are \<^verbatim>\<open>float64\<close> values: every conversion, sum, product and quotient is rounded.\<close>

definition table_size :: "SSTableMeta \<Rightarrow> float64" where
  "table_size t = (if sint (FileSize t) > 0 then float_of_int (sint (FileSize t)) else float_of_int (2 * 1024 * 1024))"

definition level_size :: "SSTableMeta list \<Rightarrow> float64" where
  "level_size files = fold (\<lambda>t currentSize. fadd currentSize (table_size t)) files (Fin 0)"

definition level_score :: "int \<Rightarrow> int \<Rightarrow> VersionSet \<Rightarrow> nat \<Rightarrow> float64" where
  "level_score l0Trigger l1MaxBytes v l =
     (if l = 0 then fdiv (float_of_int (int (length (Levels v ! 0)))) (float_of_int l0Trigger)
      else let targetSize = fmul (float_of_int l1MaxBytes) (float_of_int (2 ^ (l - 1)))
           in fdiv (level_size (Levels v ! l)) targetSize)"

definition better :: "int \<Rightarrow> int \<Rightarrow> VersionSet \<Rightarrow> nat \<Rightarrow> float64 \<times> int \<Rightarrow> float64 \<times> int" where
  "better l0Trigger l1MaxBytes v l best =
     (let s = level_score l0Trigger l1MaxBytes v l in if fgt s (fst best) then (s, int l) else best)"

definition PickCompaction :: "int \<Rightarrow> int \<Rightarrow> VersionSet \<Rightarrow> int \<times> bool" where
  "PickCompaction l0Trigger l1MaxBytes v =
     (case fold (better l0Trigger l1MaxBytes v) [0 ..< NumLevels - 1] (Fin 0, -1) of
        (bestScore, bestLevel) \<Rightarrow> if fge bestScore (Fin 1) then (bestLevel, True) else (-1, False))"

definition GetOverlappingInputs :: "nat \<Rightarrow> bytes \<Rightarrow> bytes \<Rightarrow> VersionSet \<Rightarrow> SSTableMeta list" where
  "GetOverlappingInputs level start end v =
     filter (\<lambda>t. \<not> (bytes_Compare (LargestKey t) start < 0 \<or> bytes_Compare (SmallestKey t) end > 0)) (Levels v ! level)"

section \<open>manifest_replay.go\<close>

definition meta_of_add :: "AddSSTable \<Rightarrow> SSTableMeta" where
  "meta_of_add r = \<lparr>FileNum = add_FileNum r, Level = add_Level r, SmallestSeq = add_SmallestSeq r, LargestSeq = add_LargestSeq r,
     SmallestKey = add_SmallestKey r, LargestKey = add_LargestKey r, FileSize = add_FileSize r\<rparr>"

definition apply_record :: "Record \<Rightarrow> VersionSet \<Rightarrow> VersionSet res" where
  "apply_record rec vs =
     (if rec_Type rec = RecordTypeAddSSTable then
        (case rec_Data rec of DataAddSSTable r \<Rightarrow> Inr (fst (AddTable (meta_of_add r) vs)) | _ \<Rightarrow> Inl bad_assertion)
      else if rec_Type rec = RecordTypeRemoveSSTable then
        (case rec_Data rec of DataRemoveSSTable n \<Rightarrow> Inr (RemoveTable n vs) | _ \<Rightarrow> Inl bad_assertion)
      else if rec_Type rec = RecordTypeSetWALCutoff then
        (case rec_Data rec of DataSetWALCutoff seq \<Rightarrow> Inr (SetWALCutoff seq vs) | _ \<Rightarrow> Inl bad_assertion)
      else Inr vs)"

fun apply_records :: "Record list \<Rightarrow> VersionSet \<Rightarrow> VersionSet res" where
  "apply_records [] vs = Inr vs"
| "apply_records (rec # recs) vs = bindr (apply_record rec vs) (apply_records recs)"

definition ReplayManifest :: "os_env \<Rightarrow> string \<Rightarrow> dir \<Rightarrow> VersionSet res" where
  "ReplayManifest env path d =
     (if \<not> read_ok env path \<or> file_at d path = None then Inl (Err ''read'')
      else case scan_manifest (data_at d path) 0 of
             (recs, Some (Panic m)) \<Rightarrow> Inl (Panic m)
           | (recs, _) \<Rightarrow> apply_records recs NewVersionSet)"

section \<open>The edits the engine logs\<close>

text \<open>The record that the flush, the recovery, the compaction and the rewrite log for a table, and the records a rewrite
  consists of (\<^verbatim>\<open>db.go\<close>, \<^verbatim>\<open>CompactManifest\<close>).\<close>

definition add_edit :: "SSTableMeta \<Rightarrow> Record" where
  "add_edit meta = \<lparr>rec_Type = RecordTypeAddSSTable, rec_Data = DataAddSSTable
     \<lparr>add_FileNum = FileNum meta, add_Level = Level meta, add_SmallestSeq = SmallestSeq meta, add_LargestSeq = LargestSeq meta,
      add_SmallestKey = SmallestKey meta, add_LargestKey = LargestKey meta, add_FileSize = FileSize meta\<rparr>\<rparr>"

definition cutoff_edit :: "u64 \<Rightarrow> Record" where
  "cutoff_edit seq = \<lparr>rec_Type = RecordTypeSetWALCutoff, rec_Data = DataSetWALCutoff seq\<rparr>"

definition remove_edit :: "u64 \<Rightarrow> Record" where
  "remove_edit n = \<lparr>rec_Type = RecordTypeRemoveSSTable, rec_Data = DataRemoveSSTable n\<rparr>"

definition manifest_records :: "VersionSet \<Rightarrow> Record list" where
  "manifest_records v = map add_edit (GetAllTables v) @ [cutoff_edit (WALCutoffSeq v)]"

lemma apply_edits [simp]:
  "apply_record (add_edit meta) v = Inr (fst (AddTable meta v))"
  "apply_record (remove_edit n) v = Inr (RemoveTable n v)"
  "apply_record (cutoff_edit seq) v = Inr (SetWALCutoff seq v)"
  by (cases meta) (simp_all add: apply_record_def add_edit_def remove_edit_def cutoff_edit_def meta_of_add_def)

lemma apply_records_append: "apply_records (rs @ ss) v = bindr (apply_records rs v) (apply_records ss)"
  by (induction rs arbitrary: v) (simp_all add: bindr_def split: sum.split)

section \<open>The invariant\<close>

text \<open>Seven levels; every table is in the level it names; the levels below the first are sorted by smallest key.\<close>

definition vs_inv :: "VersionSet \<Rightarrow> bool" where
  "vs_inv v \<longleftrightarrow> length (Levels v) = NumLevels \<and> (\<forall>l<NumLevels. \<forall>t\<in>set (Levels v ! l). unat (Level t) = l) \<and>
     (\<forall>l<NumLevels. 0 < l \<longrightarrow> sorted (map SmallestKey (Levels v ! l)))"

lemma vs_inv_New: "vs_inv NewVersionSet"
  by (simp add: vs_inv_def NewVersionSet_def)

lemma vs_inv_AddTable: "vs_inv v \<Longrightarrow> vs_inv (fst (AddTable meta v))"
  by (auto simp: vs_inv_def AddTable_def Let_def nth_list_update word_less_nat_alt)

lemma remove_file_Some:
  "remove_file n files = Some files' \<Longrightarrow> \<exists>xs t ys. files = xs @ t # ys \<and> files' = xs @ ys \<and> FileNum t = n \<and> n \<notin> FileNum ` set xs"
proof (induction files arbitrary: files')
  case (Cons t files)
  show ?case
  proof (cases "FileNum t = n")
    case True
    then show ?thesis using Cons.prems by (intro exI [of _ "[]"] exI [of _ t] exI [of _ files]) auto
  next
    case False
    then obtain fs where "remove_file n files = Some fs" "files' = t # fs" using Cons.prems by auto
    from Cons.IH [OF this(1)] obtain xs t' ys where "files = xs @ t' # ys" "fs = xs @ ys" "FileNum t' = n" "n \<notin> FileNum ` set xs" by blast
    then show ?thesis using False \<open>files' = t # fs\<close> by (intro exI [of _ "t # xs"] exI [of _ t'] exI [of _ ys]) auto
  qed
qed simp

lemma remove_file_None: "remove_file n files = None \<longleftrightarrow> n \<notin> FileNum ` set files"
  by (induction files) auto

lemma length_remove_level [simp]: "length (remove_level n ls) = length ls"
  by (induction n ls rule: remove_level.induct) (auto split: option.splits)

lemma remove_level_nth:
  "l < length ls \<Longrightarrow> remove_level n ls ! l = ls ! l \<or> remove_file n (ls ! l) = Some (remove_level n ls ! l)"
proof (induction ls arbitrary: l)
  case (Cons files ls)
  then show ?case by (cases l) (auto split: option.split)
qed simp

lemma vs_inv_RemoveTable: "vs_inv v \<Longrightarrow> vs_inv (RemoveTable n v)"
proof -
  assume inv: "vs_inv v"
  have sub: "\<exists>xs ts ys. Levels v ! l = xs @ ts @ ys \<and> remove_level n (Levels v) ! l = xs @ ys" if "l < NumLevels" for l
  proof -
    have "l < length (Levels v)" using that inv by (simp add: vs_inv_def)
    then consider (same) "remove_level n (Levels v) ! l = Levels v ! l" | (cut) "remove_file n (Levels v ! l) = Some (remove_level n (Levels v) ! l)"
      using remove_level_nth by blast
    then show ?thesis
    proof cases
      case same
      then show ?thesis by (intro exI [of _ "Levels v ! l"] exI [of _ "[]"]) simp
    next
      case cut
      from remove_file_Some [OF cut] obtain xs t ys where
        "Levels v ! l = xs @ t # ys" "remove_level n (Levels v) ! l = xs @ ys" by blast
      then show ?thesis by (intro exI [of _ xs] exI [of _ "[t]"] exI [of _ ys]) simp
    qed
  qed
  have "unat (Level t) = l" if "l < NumLevels" "t \<in> set (remove_level n (Levels v) ! l)" for l t
    using sub [OF that(1)] that(2) inv that(1) by (force simp: vs_inv_def)
  moreover have "sorted (map SmallestKey (remove_level n (Levels v) ! l))" if "l < NumLevels" "0 < l" for l
  proof -
    have "sorted (map SmallestKey (Levels v ! l))" using inv that by (simp add: vs_inv_def)
    then show ?thesis using sub [OF that(1)] by (auto simp: sorted_append)
  qed
  ultimately show ?thesis using inv by (simp add: vs_inv_def RemoveTable_def)
qed

lemma vs_inv_SetWALCutoff: "vs_inv v \<Longrightarrow> vs_inv (SetWALCutoff seq v)"
  by (simp add: vs_inv_def SetWALCutoff_def)

lemma vs_inv_apply: "vs_inv v \<Longrightarrow> apply_record rec v = Inr v' \<Longrightarrow> vs_inv v'"
  using vs_inv_AddTable vs_inv_RemoveTable vs_inv_SetWALCutoff
  by (auto simp: apply_record_def split: if_splits record_data.splits)

lemma vs_inv_applies: "vs_inv v \<Longrightarrow> apply_records recs v = Inr v' \<Longrightarrow> vs_inv v'"
proof (induction recs arbitrary: v)
  case (Cons rec recs)
  then show ?case using vs_inv_apply by fastforce
qed simp

section \<open>Rewriting and replaying\<close>

lemma add_sorted_level:
  assumes "l < NumLevels" and "length (Levels v) = NumLevels" and "Levels v ! l = xs" and "\<forall>t\<in>set ys. unat (Level t) = l"
    and "0 < l \<Longrightarrow> sorted (map SmallestKey (xs @ ys))"
  shows "apply_records (map add_edit ys) v = Inr (v\<lparr>Levels := (Levels v)[l := xs @ ys]\<rparr>)"
  using assms
proof (induction ys arbitrary: v xs)
  case (Cons y ys)
  have y: "unat (Level y) = l" "Level y > 0 \<longleftrightarrow> 0 < l" using Cons.prems(4) by (auto simp: word_less_nat_alt)
  have "sort_key SmallestKey (xs @ [y]) = xs @ [y]" if "0 < l"
    using Cons.prems(5) [OF that] by (intro sort_key_id_if_sorted) (simp add: sorted_append)
  then have a: "fst (AddTable y v) = v\<lparr>Levels := (Levels v)[l := xs @ [y]]\<rparr>"
    using y Cons.prems(1,3) by (cases "0 < l") (simp_all add: AddTable_def Let_def)
  let ?v = "v\<lparr>Levels := (Levels v)[l := xs @ [y]]\<rparr>"
  have "apply_records (map add_edit ys) ?v = Inr (?v\<lparr>Levels := (Levels ?v)[l := (xs @ [y]) @ ys]\<rparr>)"
    using Cons.prems by (intro Cons.IH) auto
  then show ?case using a by simp
next
  case Nil
  then have "(Levels v)[l := xs] = Levels v" by (metis list_update_id)
  then show ?case by simp
qed

lemma add_levels:
  assumes "length pre + length ls = NumLevels" and "Levels v = pre @ replicate (length ls) []"
    and "\<forall>i<length ls. \<forall>t\<in>set (ls ! i). unat (Level t) = length pre + i"
    and "\<forall>i<length ls. 0 < length pre + i \<longrightarrow> sorted (map SmallestKey (ls ! i))"
  shows "apply_records (map add_edit (concat ls)) v = Inr (v\<lparr>Levels := pre @ ls\<rparr>)"
  using assms
proof (induction ls arbitrary: pre v)
  case (Cons files ls)
  let ?v = "v\<lparr>Levels := (pre @ [files]) @ replicate (length ls) []\<rparr>"
  have "apply_records (map add_edit files) v = Inr (v\<lparr>Levels := (Levels v)[length pre := [] @ files]\<rparr>)"
    using Cons.prems(1,2) Cons.prems(3,4) [rule_format, of 0] by (intro add_sorted_level) (auto simp: nth_append)
  then have "apply_records (map add_edit files) v = Inr ?v" using Cons.prems(2) by simp
  moreover have "apply_records (map add_edit (concat ls)) ?v = Inr (?v\<lparr>Levels := (pre @ [files]) @ ls\<rparr>)"
    using Cons.prems(1) Cons.prems(3,4) [rule_format, of "Suc _"] by (intro Cons.IH) auto
  ultimately show ?case by (simp add: apply_records_append)
qed simp

lemma replay_rewritten:
  assumes "vs_inv v"
  shows "apply_records (manifest_records v) NewVersionSet = Inr (v\<lparr>Obsolete := {}\<rparr>)"
proof -
  have "apply_records (map add_edit (concat (Levels v))) NewVersionSet = Inr (NewVersionSet\<lparr>Levels := [] @ Levels v\<rparr>)"
    using assms by (intro add_levels) (auto simp: vs_inv_def NewVersionSet_def)
  then show ?thesis by (cases v) (auto simp: manifest_records_def GetAllTables_def apply_records_append NewVersionSet_def SetWALCutoff_def word_gt_0)
qed

lemma replay_log:
  assumes "file_at d path = Some f" and "fdata f = concat (map menc recs)" and "\<forall>r\<in>set recs. writable r" and "read_ok env path"
  shows "ReplayManifest env path d = apply_records recs NewVersionSet"
  using assms mlog.scan_log [of recs "[]"] by (simp add: ReplayManifest_def data_at_def)

lemma ReplayManifest_inv: "ReplayManifest env path d = Inr v \<Longrightarrow> vs_inv v"
  using vs_inv_applies [OF vs_inv_New] by (auto simp: ReplayManifest_def split: if_splits prod.splits option.splits go_err.splits)

section \<open>Choosing a level\<close>

lemma fgt_not_fge: "\<not> fgt a b \<Longrightarrow> fgt c b \<Longrightarrow> \<not> fge a c"
  by (cases a; cases b; cases c) (auto simp: fge_def)

lemma better_fold:
  fixes v t m
  defines "sc \<equiv> level_score t m v"
  shows "\<exists>s b. fold (better t m v) [0 ..< n] (Fin 0, -1) = (s, b) \<and> (\<forall>j<n. \<not> fgt (sc j) s) \<and>
    (b = -1 \<and> s = Fin 0 \<or> (\<exists>l<n. b = int l \<and> s = sc l \<and> fgt s (Fin 0) \<and> (\<forall>j<l. \<not> fge (sc j) s)))"
proof (induction n)
  case (Suc n)
  then obtain s b where IH: "fold (better t m v) [0 ..< n] (Fin 0, -1) = (s, b)" "\<forall>j<n. \<not> fgt (sc j) s"
    "b = -1 \<and> s = Fin 0 \<or> (\<exists>l<n. b = int l \<and> s = sc l \<and> fgt s (Fin 0) \<and> (\<forall>j<l. \<not> fge (sc j) s))" by blast
  have step: "fold (better t m v) [0 ..< Suc n] (Fin 0, -1) = better t m v n (s, b)" using IH(1) by simp
  show ?case
  proof (cases "fgt (sc n) s")
    case True
    have "\<not> fgt (sc j) (sc n)" if "j < Suc n" for j
      using that IH(2) fgt_trans [OF _ True] fgt_irrefl by (cases "j = n") auto
    moreover have "\<forall>j<n. \<not> fge (sc j) (sc n)" using IH(2) fgt_not_fge [OF _ True] by blast
    moreover have "fgt (sc n) (Fin 0)" using IH(3) True by (cases "sc n"; cases s) auto
    moreover have "better t m v n (s, b) = (sc n, int n)" using True by (simp add: better_def sc_def)
    ultimately show ?thesis unfolding step by auto
  next
    case False
    then have "better t m v n (s, b) = (s, b)" by (simp add: better_def sc_def)
    moreover have "\<forall>j<Suc n. \<not> fgt (sc j) s" using IH(2) False by (auto simp: less_Suc_eq)
    ultimately show ?thesis using IH(3) unfolding step by (metis less_Suc_eq)
  qed
qed simp

text \<open>What a level holds and what it may hold, in integers: tables at level zero, bytes at the others, where a table of unknown size counts as two
  megabytes.\<close>

definition level_load :: "VersionSet \<Rightarrow> nat \<Rightarrow> int" where
  "level_load v l =
     (if l = 0 then int (length (Levels v ! 0))
      else (\<Sum>t \<leftarrow> Levels v ! l. if sint (FileSize t) > 0 then sint (FileSize t) else 2 * 1024 * 1024))"

definition level_limit :: "int \<Rightarrow> int \<Rightarrow> nat \<Rightarrow> int" where
  "level_limit t m l = (if l = 0 then t else m * 2 ^ (l - 1))"

lemma level_size_exact:
  fixes files
  defines "load \<equiv> \<Sum>t \<leftarrow> files. if sint (FileSize t) > 0 then sint (FileSize t) else 2 * 1024 * 1024"
  assumes "0 \<le> a" and "a + load < 2 ^ 53"
  shows "0 \<le> load \<and> fold (\<lambda>t s. fadd s (table_size t)) files (Fin (of_int a)) = Fin (of_int (a + load))"
  using assms(2,3) unfolding load_def
proof (induction files arbitrary: a)
  case (Cons t files)
  define b where "b = (if sint (FileSize t) > 0 then sint (FileSize t) else 2 * 1024 * 1024)"
  define c where "c = (\<Sum>t \<leftarrow> files. if sint (FileSize t) > 0 then sint (FileSize t) else 2 * 1024 * 1024)"
  have c: "0 \<le> c" by (auto simp: c_def intro!: sum_list_nonneg)
  have b: "0 \<le> b" "a + b + c < 2 ^ 53" using Cons.prems by (simp_all add: b_def c_def algebra_simps)
  have "table_size t = float_of_int b" by (simp add: table_size_def b_def)
  then have "table_size t = Fin (of_int b)" using float_of_int_exact [of b] b c Cons.prems(1) by simp
  then have "fadd (Fin (of_int a)) (table_size t) = Fin (of_int (a + b))"
    using b c Cons.prems(1) round64_int [of "a + b"] by simp
  then show ?case using Cons.IH [of "a + b"] b Cons.prems(1) by (simp add: b_def [symmetric] c_def [symmetric] add.assoc)
qed simp

lemma level_score_integers:
  assumes "0 < t" "t < 2 ^ 53" "0 < m" "m < 2 ^ 49" "l < NumLevels - 1" "level_load v l < 2 ^ 53"
  shows "fge (level_score t m v l) (Fin 1) \<longleftrightarrow> level_limit t m l \<le> level_load v l"
proof (cases "l = 0")
  case True
  then show ?thesis using assms fdiv_ge_one [of "int (length (Levels v ! 0))" t] float_of_int_exact [of t] float_of_int_exact [of "int (length (Levels v ! 0))"]
    by (simp add: level_score_def level_limit_def level_load_def)
next
  case False
  have p: "(2 :: int) ^ (l - 1) \<le> 2 ^ 4" using assms(5) by (intro power_increasing) (auto simp: NumLevels_def)
  then have "m * 2 ^ (l - 1) \<le> m * 2 ^ 4" using assms(3) by (intro mult_left_mono) simp_all
  also have "\<dots> < 2 ^ 53" using assms(4) by simp
  finally have lim: "0 < m * 2 ^ (l - 1)" "m * 2 ^ (l - 1) < 2 ^ 53" using assms(3) by simp_all
  have "float_of_int m = Fin (of_int m)" using assms(3,4) by (simp add: float_of_int_def round64_int)
  moreover have "float_of_int (2 ^ (l - 1)) = Fin (of_int (2 ^ (l - 1)))" unfolding float_of_int_def using p by (intro round64_int) simp_all
  ultimately have target: "fmul (float_of_int m) (float_of_int (2 ^ (l - 1))) = Fin (of_int (m * 2 ^ (l - 1)))"
    using round64_int [OF less_imp_le [OF lim(1)] lim(2)] by simp
  have "0 \<le> level_load v l \<and> level_size (Levels v ! l) = Fin (of_int (level_load v l))"
    using level_size_exact [of 0 "Levels v ! l"] assms(6) False by (simp add: level_size_def level_load_def)
  then show ?thesis using fdiv_ge_one [OF _ lim, of "level_load v l"] target False by (simp add: level_score_def level_limit_def)
qed

section \<open>Adding a table\<close>

lemma AddTable_invalid: "NumLevels \<le> unat (Level meta) \<Longrightarrow> AddTable meta v = (v, Some (Err ''invalid level''))"
  by (simp add: AddTable_def)

lemma mset_concat_update: "l < length ls \<Longrightarrow> mset (concat (ls[l := xs])) + mset (ls ! l) = mset (concat ls) + mset xs"
proof (induction ls arbitrary: l)
  case (Cons y ls)
  then show ?case by (cases l) (auto simp: ac_simps)
qed simp

lemma AddTable_tables:
  assumes "vs_inv v" and "unat (Level meta) < NumLevels"
  shows "snd (AddTable meta v) = None \<and> mset (GetAllTables (fst (AddTable meta v))) = add_mset meta (mset (GetAllTables v))"
proof -
  let ?l = "unat (Level meta)"
  define xs where "xs = (if Level meta > 0 then sort_key SmallestKey (Levels v ! ?l @ [meta]) else Levels v ! ?l @ [meta])"
  have a: "AddTable meta v = (v\<lparr>Levels := (Levels v)[?l := xs]\<rparr>, None)" using assms(2) by (simp add: AddTable_def xs_def Let_def)
  have "mset xs = mset (Levels v ! ?l) + {#meta#}" by (simp add: xs_def)
  then show ?thesis using mset_concat_update [of ?l "Levels v" xs] assms by (simp add: a GetAllTables_def vs_inv_def)
qed

text \<open>Tables of one level with distinct smallest keys have one sorted order, so that any sorting algorithm, stable or not, gives the list of the model.\<close>

lemma AddTable_any_sort:
  assumes "mset files = mset (Levels v ! unat (Level meta) @ [meta])" and "sorted (map SmallestKey files)" and "distinct (map SmallestKey files)"
    and "unat (Level meta) < NumLevels" and "Level meta > 0"
  shows "fst (AddTable meta v) = v\<lparr>Levels := (Levels v)[unat (Level meta) := files]\<rparr>"
proof -
  let ?xs = "Levels v ! unat (Level meta) @ [meta]"
  have inj: "inj_on SmallestKey (set files)" and set: "set files = set ?xs" using assms(3) mset_eq_setD [OF assms(1)] by (auto simp: distinct_map)
  have "sort_key SmallestKey ?xs = files"
  proof (rule map_inj_on)
    have "sorted_list_of_multiset (image_mset SmallestKey (mset ?xs)) = map SmallestKey files"
      using assms(1,2) by (metis mset_map sorted_list_of_multiset_mset sorted_sort_id)
    then show "map SmallestKey (sort_key SmallestKey ?xs) = map SmallestKey files"
      by (metis mset_map mset_sort sorted_list_of_multiset_mset sorted_sort_id sorted_sort_key)
    show "inj_on SmallestKey (set (sort_key SmallestKey ?xs) \<union> set files)" using inj set by simp
  qed
  then show ?thesis using assms(4,5) by (simp add: AddTable_def Let_def)
qed

section \<open>A rewrite without faults\<close>

lemma write_records_all:
  "\<forall>i. short_write env i = None \<Longrightarrow> \<forall>r\<in>set recs. writable r \<Longrightarrow> snd (write_records env i recs p d) = None"
  by (induction env i recs p d rule: write_records.induct) (simp_all add: writable_menc)

lemma Rewrite_succeeds:
  assumes "\<forall>r\<in>set recs. writable r" and "\<forall>i. short_write env i = None" and "open_ok env (path @ ''.tmp'')" and "sync_ok env (path @ ''.tmp'')"
    and "map_of d (path @ ''.tmp'') \<noteq> Some DirE" and "file_at d path \<noteq> None"
  shows "snd (Rewrite env path recs d) = None \<longleftrightarrow> rename_ok env"
proof -
  let ?tmp = "path @ ''.tmp''"
  obtain d1 where w: "write_records env 0 recs ?tmp (file_truncate ?tmp d) = (d1, None)"
    using write_records_all [OF assms(2,1)] by (metis prod.collapse)
  have "file_at (file_sync ?tmp d1) path \<noteq> None"
    using write_records_other [of path ?tmp env 0 recs "file_truncate ?tmp d"] w assms(6) by (simp add: file_at_truncate file_at_sync)
  then have "map_of (file_sync ?tmp d1) path \<noteq> Some DirE" by (auto simp: file_at_def)
  then show ?thesis using assms(3-5) w by (simp add: Rewrite_def Let_def)
qed

section \<open>A small manifest\<close>

definition small_meta :: "u64 \<Rightarrow> u32 \<Rightarrow> bytes \<Rightarrow> SSTableMeta" where
  "small_meta n l k = \<lparr>FileNum = n, Level = l, SmallestSeq = 1, LargestSeq = 2, SmallestKey = k, LargestKey = k, FileSize = 0\<rparr>"

lemma small_writable: "writable (add_edit (small_meta n l [k]))" "writable (cutoff_edit s)"
  by (simp_all add: add_edit_def small_meta_def cutoff_edit_def writable_def Manifest_EncodeRecord_eq encode_data_def encode_add_def manifest_body_def)

lemma small_replay: "\<exists>d. distinct (map fst d) \<and> d = [(''M'', FileE \<lparr>fdata = menc (add_edit (small_meta 3 1 [5])), fsynced = 0\<rparr>)] \<and> ReplayManifest no_faults ''M'' d = Inr (fst (AddTable (small_meta 3 1 [5]) NewVersionSet))"
proof -
  let ?f = "\<lparr>fdata = menc (add_edit (small_meta 3 1 [5])), fsynced = 0\<rparr>"
  have "ReplayManifest no_faults ''M'' [(''M'', FileE ?f)] = apply_records [add_edit (small_meta 3 1 [5])] NewVersionSet"
    by (rule replay_log [of _ _ ?f]) (simp_all add: file_at_def small_writable)
  then show ?thesis by simp
qed

section \<open>Properties\<close>

text \<open>C17. The version set stays well formed: whatever bytes the manifest holds, a replay that returns gives seven levels in
  which every table sits at the level it names and all levels but the first are sorted by smallest key, and adding a
  table, removing any file number and moving the WAL cutoff keep it so.  A table with an invalid level is refused with an error and changes nothing; any
  other table is then listed beside the tables that were listed before, and a removed file number is recorded as obsolete.\<close>

theorem version_set_invariant:
  "(ReplayManifest env path d = Inr v \<longrightarrow> vs_inv v) \<and>
   (vs_inv v \<longrightarrow> vs_inv (fst (AddTable meta v)) \<and> vs_inv (RemoveTable n v) \<and> vs_inv (SetWALCutoff seq v) \<and>
      (if unat (Level meta) < 7 then snd (AddTable meta v) = None \<and> mset (GetAllTables (fst (AddTable meta v))) = add_mset meta (mset (GetAllTables v))
       else AddTable meta v = (v, Some (Err ''invalid level''))) \<and> n \<in> Obsolete (RemoveTable n v))"
  using ReplayManifest_inv vs_inv_AddTable vs_inv_RemoveTable vs_inv_SetWALCutoff AddTable_tables AddTable_invalid [of meta v]
  by (simp add: RemoveTable_def NumLevels_def not_less)

theorem version_set_invariant_witness:
  "\<exists>d v. ReplayManifest no_faults ''M'' d = Inr v \<and> Levels v ! 1 = [small_meta 3 1 [5]] \<and> vs_inv v \<and> vs_inv (fst (AddTable (small_meta 4 1 [2]) v)) \<and>
     mset (GetAllTables (fst (AddTable (small_meta 4 1 [2]) v))) = {#small_meta 3 1 [5], small_meta 4 1 [2]#} \<and>
     AddTable (small_meta 4 7 [2]) v = (v, Some (Err ''invalid level''))"
proof -
  let ?v = "fst (AddTable (small_meta 3 1 [5]) NewVersionSet)"
  obtain d where rep: "ReplayManifest no_faults ''M'' d = Inr ?v" using small_replay by blast
  have inv: "vs_inv ?v" using version_set_invariant [of no_faults "''M''" d ?v] rep by blast
  have L: "Levels ?v ! 1 = [small_meta 3 1 [5]]" "mset (GetAllTables ?v) = {#small_meta 3 1 [5]#}"
    by (simp_all add: AddTable_def NewVersionSet_def NumLevels_def eval_nat_numeral Let_def small_meta_def GetAllTables_def)
  have lv: "unat (Level (small_meta 4 1 [2])) < 7" "\<not> unat (Level (small_meta 4 7 [2])) < 7" by (simp_all add: small_meta_def)
  from version_set_invariant [of no_faults "''M''" d ?v "small_meta 4 1 [2]"] version_set_invariant [of no_faults "''M''" d ?v "small_meta 4 7 [2]"] rep inv L lv
  show ?thesis by (intro exI [of _ d] exI [of _ ?v]) (simp add: add_mset_commute)
qed

text \<open>C36. Rewriting the manifest keeps the version: when the manifest is rewritten from the version set it replays to,
  then, if the rewrite succeeds, the new manifest replays to the same levels and the same WAL cutoff (with no file
  left to delete), and if any system call fails it still replays to what it did before.\<close>

theorem CompactManifest_keeps_version:
  assumes "ReplayManifest env path d = Inr v" and "\<forall>r\<in>set (manifest_records v). writable r" and "read_ok env path"
  shows "case Rewrite env' path (manifest_records v) d of
      (d', None) \<Rightarrow> ReplayManifest env path d' = Inr (v\<lparr>Obsolete := {}\<rparr>)
    | (d', Some e) \<Rightarrow> ReplayManifest env path d' = Inr v"
proof -
  obtain d' e where rw: "Rewrite env' path (manifest_records v) d = (d', e)" by (cases "Rewrite env' path (manifest_records v) d")
  show ?thesis
  proof (cases e)
    case None
    then have "file_at d' path = Some \<lparr>fdata = concat (map menc (manifest_records v)), fsynced = length (concat (map menc (manifest_records v)))\<rparr>"
      using Rewrite_cases [of env' path "manifest_records v" d] rw by simp
    from replay_log [OF this _ assms(2,3)] replay_rewritten [OF ReplayManifest_inv [OF assms(1)]] rw None show ?thesis by simp
  next
    case (Some x)
    then have "file_at d' path = file_at d path" using Rewrite_cases [of env' path "manifest_records v" d] rw by simp
    then have "ReplayManifest env path d' = ReplayManifest env path d" by (simp add: ReplayManifest_def data_at_def)
    then show ?thesis using rw Some assms(1) by simp
  qed
qed

theorem CompactManifest_keeps_version_witness:
  "\<exists>d v. ReplayManifest no_faults ''M'' d = Inr v \<and> Levels v ! 1 = [small_meta 3 1 [5]] \<and>
     (\<exists>d'. Rewrite no_faults ''M'' (manifest_records v) d = (d', None) \<and> ReplayManifest no_faults ''M'' d' = Inr (v\<lparr>Obsolete := {}\<rparr>)) \<and>
     (\<exists>d' e. Rewrite (no_faults\<lparr>rename_ok := False\<rparr>) ''M'' (manifest_records v) d = (d', Some e) \<and> ReplayManifest no_faults ''M'' d' = Inr v)"
proof -
  let ?v = "fst (AddTable (small_meta 3 1 [5]) NewVersionSet)" and ?bad = "no_faults\<lparr>rename_ok := False\<rparr>"
  obtain d where d: "d = [(''M'', FileE \<lparr>fdata = menc (add_edit (small_meta 3 1 [5])), fsynced = 0\<rparr>)]" and rep: "ReplayManifest no_faults ''M'' d = Inr ?v"
    using small_replay by blast
  have L: "Levels ?v ! 1 = [small_meta 3 1 [5]]" and recs: "manifest_records ?v = [add_edit (small_meta 3 1 [5]), cutoff_edit 0]"
    by (simp_all add: AddTable_def NewVersionSet_def NumLevels_def eval_nat_numeral Let_def small_meta_def GetAllTables_def manifest_records_def)
  have w: "\<forall>r\<in>set (manifest_records ?v). writable r" unfolding recs using small_writable by simp
  have ok: "snd (Rewrite env ''M'' (manifest_records ?v) d) = None \<longleftrightarrow> rename_ok env" if "env = no_faults \<or> env = ?bad" for env
    using that by (intro Rewrite_succeeds w) (auto simp: d file_at_def)
  obtain d1 e1 where r1: "Rewrite no_faults ''M'' (manifest_records ?v) d = (d1, e1)" by (cases "Rewrite no_faults ''M'' (manifest_records ?v) d")
  obtain d2 e2 where r2: "Rewrite ?bad ''M'' (manifest_records ?v) d = (d2, e2)" by (cases "Rewrite ?bad ''M'' (manifest_records ?v) d")
  have e: "e1 = None" "\<exists>x. e2 = Some x" using ok [of no_faults] ok [of ?bad] r1 r2 by auto
  have "ReplayManifest no_faults ''M'' d1 = Inr (?v\<lparr>Obsolete := {}\<rparr>)" using CompactManifest_keeps_version [OF rep w, of no_faults] r1 e by simp
  moreover have "ReplayManifest no_faults ''M'' d2 = Inr ?v" using CompactManifest_keeps_version [OF rep w, of ?bad] r2 e by auto
  ultimately show ?thesis using rep L r1 r2 e by blast
qed

text \<open>C11. A crash during a logged edit loses at most that edit: after any edits that were appended without faults, one more append
  that may fail anywhere, and a crash, a replay returns the version set after all edits or after all but the last, and
  never panics.\<close>

theorem replay_after_crash:
  assumes "file_at d p = Some \<lparr>fdata = [], fsynced = 0\<rparr>" and "\<forall>r\<in>set (rs @ [r]). writable r"
    and "d1 = fold (\<lambda>r d. fst (Manifest_Append no_faults r p d)) rs d"
    and "crashed (fst (Manifest_Append env r p d1)) d2" and "file_at d2 p \<noteq> None"
  shows "ReplayManifest no_faults p d2 \<in> {apply_records rs NewVersionSet, apply_records (rs @ [r]) NewVersionSet}"
proof -
  obtain recs e where sc: "scan_manifest (data_at d2 p) 0 = (recs, e)" by (cases "scan_manifest (data_at d2 p) 0")
  from scan_after_crash [OF assms(1-4)] have "recs \<in> {rs, rs @ [r]}" "\<forall>m. e \<noteq> Some (Panic m)" by (simp_all add: sc)
  then show ?thesis using assms(5) by (auto simp: ReplayManifest_def sc split: option.split go_err.split)
qed

theorem replay_after_crash_witness:
  "\<exists>d2. crashed (fst (Manifest_Append (no_faults\<lparr>short_write := \<lambda>_. Some 5\<rparr>) (remove_edit 4) ''M''
        (fst (Manifest_Append no_faults (cutoff_edit 9) ''M'' [(''M'', FileE \<lparr>fdata = [], fsynced = 0\<rparr>)])))) d2 \<and>
     ReplayManifest no_faults ''M'' d2 \<in> {apply_records [cutoff_edit 9] NewVersionSet, apply_records [cutoff_edit 9, remove_edit 4] NewVersionSet}"
proof -
  let ?d = "[(''M'', FileE \<lparr>fdata = [], fsynced = 0\<rparr>)]"
  let ?d1 = "fst (Manifest_Append (no_faults\<lparr>short_write := \<lambda>_. Some 5\<rparr>) (remove_edit 4) ''M'' (fst (Manifest_Append no_faults (cutoff_edit 9) ''M'' ?d)))"
  have w: "writable (cutoff_edit 9)" "writable (remove_edit 4)"
    by (auto simp: cutoff_edit_def remove_edit_def writable_def Manifest_EncodeRecord_eq encode_data_def manifest_body_def)
  have d: "file_at ?d ''M'' = Some \<lparr>fdata = [], fsynced = 0\<rparr>" by (simp add: file_at_def)
  have "distinct (map fst ?d1)" and f: "file_at ?d1 ''M'' \<noteq> None"
    by (simp_all add: Manifest_Append_def writable_menc [OF w(1)] writable_menc [OF w(2)] file_at_write file_at_sync d)
  then obtain d2 where c: "crashed ?d1 d2" using crashed_exists by blast
  then have "file_at d2 ''M'' \<noteq> None" using f crashed_at [OF c, of "''M''"] by (auto simp: file_at_def split: option.splits dirent.splits)
  then have "ReplayManifest no_faults ''M'' d2 \<in> {apply_records [cutoff_edit 9] NewVersionSet, apply_records ([cutoff_edit 9] @ [remove_edit 4]) NewVersionSet}"
    using replay_after_crash [of ?d "''M''" "[cutoff_edit 9]" "remove_edit 4", OF d _ refl, of _ d2] c w by simp
  with c show ?thesis by (intro exI [of _ d2]) simp
qed

text \<open>C37. The compaction picker looks at the levels 0 to 5 and returns one if and only if the score of some level, a \<^verbatim>\<open>float64\<close>, is at least one; the level it
  returns has such a score, no level exceeds it and every level before it stays below it.  This holds for all limits, zero and negative ones included.  For
  limits that are positive, with less than 2^53 tables or bytes in the levels and a level-one limit below 2^49, rounding changes nothing: the score of level zero is
  at least one exactly when it holds at least \<^verbatim>\<open>l0Trigger\<close> tables, and that of level l exactly when its bytes are at least \<^verbatim>\<open>l1MaxBytes\<close> times
  2^(l-1), a table of unknown size counting as two megabytes.\<close>

theorem PickCompaction_correct:
  "(if \<exists>l<6. fge (level_score t m v l) (Fin 1)
    then \<exists>l<6. PickCompaction t m v = (int l, True) \<and> fge (level_score t m v l) (Fin 1) \<and>
           (\<forall>j<6. \<not> fgt (level_score t m v j) (level_score t m v l)) \<and> (\<forall>j<l. \<not> fge (level_score t m v j) (level_score t m v l))
    else PickCompaction t m v = (-1, False)) \<and>
   (0 < t \<and> t < 2 ^ 53 \<and> 0 < m \<and> m < 2 ^ 49 \<and> (\<forall>l<6. level_load v l < 2 ^ 53) \<longrightarrow>
    (\<forall>l<6. fge (level_score t m v l) (Fin 1) \<longleftrightarrow>
       (if l = 0 then t \<le> int (length (Levels v ! 0)) else m * 2 ^ (l - 1) \<le> level_load v l)))"
proof -
  have six: "NumLevels - 1 = 6" by (simp add: NumLevels_def)
  obtain s b where f: "fold (better t m v) [0 ..< 6] (Fin 0, -1) = (s, b)" "\<forall>j<6. \<not> fgt (level_score t m v j) s"
    "b = -1 \<and> s = Fin 0 \<or> (\<exists>l<6. b = int l \<and> s = level_score t m v l \<and> fgt s (Fin 0) \<and> (\<forall>j<l. \<not> fge (level_score t m v j) s))"
    using better_fold [of t m v 6] by blast
  have "fge s (Fin 1)" if "l < 6" "fge (level_score t m v l) (Fin 1)" for l
  proof -
    have "\<not> fgt (level_score t m v l) s" using f(2) that(1) by blast
    then show ?thesis using that(2) f(3) by (cases "level_score t m v l"; cases s) (auto simp: fge_def)
  qed
  then have "if \<exists>l<6. fge (level_score t m v l) (Fin 1)
    then \<exists>l<6. PickCompaction t m v = (int l, True) \<and> fge (level_score t m v l) (Fin 1) \<and>
           (\<forall>j<6. \<not> fgt (level_score t m v j) (level_score t m v l)) \<and> (\<forall>j<l. \<not> fge (level_score t m v j) (level_score t m v l))
    else PickCompaction t m v = (-1, False)"
    using f unfolding PickCompaction_def six by (auto simp: fge_def [of "Fin 0"])
  moreover have "fge (level_score t m v l) (Fin 1) \<longleftrightarrow> (if l = 0 then t \<le> int (length (Levels v ! 0)) else m * 2 ^ (l - 1) \<le> level_load v l)"
    if "0 < t" "t < 2 ^ 53" "0 < m" "m < 2 ^ 49" "\<forall>l<6. level_load v l < 2 ^ 53" "l < 6" for l
    using level_score_integers [of t m l v] that six by (simp add: level_limit_def level_load_def)
  ultimately show ?thesis by blast
qed

theorem PickCompaction_correct_witness:
  "\<exists>v. fge (level_score 4 (10 * 1024 * 1024) v 1) (Fin 1) \<and> \<not> fge (level_score 4 (10 * 1024 * 1024) v 0) (Fin 1) \<and>
       length (Levels v ! 1) = 6"
proof -
  let ?m = "\<lambda>n. \<lparr>FileNum = n, Level = 1, SmallestSeq = 1, LargestSeq = 2, SmallestKey = [5], LargestKey = [6], FileSize = 0\<rparr>"
  let ?v = "NewVersionSet\<lparr>Levels := [[], map ?m [1, 2, 3, 4, 5, 6], [], [], [], [], []]\<rparr>"
  have load: "level_load ?v 0 = 0" "level_load ?v 1 = 12582912" "level_load ?v (Suc (Suc 0)) = 0" "level_load ?v 3 = 0" "level_load ?v 4 = 0" "level_load ?v 5 = 0"
    by (simp_all add: level_load_def)
  have "l = 0 \<or> l = 1 \<or> l = Suc (Suc 0) \<or> l = 3 \<or> l = 4 \<or> l = 5" if "l < 6" for l :: nat using that by auto
  then have "\<forall>l<6. level_load ?v l < 2 ^ 53" using load by fastforce
  then have "\<forall>l<6. fge (level_score 4 (10 * 1024 * 1024) ?v l) (Fin 1) \<longleftrightarrow>
       (if l = 0 then 4 \<le> int (length (Levels ?v ! 0)) else 10 * 1024 * 1024 * 2 ^ (l - 1) \<le> level_load ?v l)"
    using PickCompaction_correct [of 4 "10 * 1024 * 1024" ?v] by simp
  from this [rule_format, of 0] this [rule_format, of 1] load(2) show ?thesis by (intro exI [of _ ?v]) simp
qed

text \<open>C38. The overlap test compares internal keys as byte strings and so misses tables that hold the same user key: a table that holds one version of
  a user key, and nothing else, is never among the tables that overlap the range of another version of that key, whatever the key, the two sequence numbers and
  types, the level and the rest of the version set are.\<close>

theorem overlap_misses_user_key:
  assumes "EncodeInternalKey u s t = Inr old" and "EncodeInternalKey u s' t' = Inr new" and "(s, t) \<noteq> (s', t')"
    and "SmallestKey meta = old" and "LargestKey meta = old"
  shows "ExtractUserKey old = ExtractUserKey new \<and> meta \<notin> set (GetOverlappingInputs l new new v)"
proof -
  have "old \<noteq> new" using assms(3) EncodeInternalKey_Inr(3,4) [OF assms(1)] EncodeInternalKey_Inr(3,4) [OF assms(2)] by auto
  then have "bytes_Compare old new < 0 \<or> bytes_Compare old new > 0" by (simp add: bytes_Compare_less bytes_Compare_greater neq_iff)
  then show ?thesis using assms(4,5) EncodeInternalKey_Inr(2) [OF assms(1)] EncodeInternalKey_Inr(2) [OF assms(2)]
    by (auto simp: GetOverlappingInputs_def)
qed

theorem overlap_misses_user_key_witness:
  "\<exists>old new meta v. EncodeInternalKey [107] 1 RecordTypeValue = Inr old \<and> EncodeInternalKey [107] 2 RecordTypeTombstone = Inr new \<and>
     Levels v ! 1 = [meta] \<and> SmallestKey meta = old \<and> ExtractUserKey old = ExtractUserKey new \<and> GetOverlappingInputs 1 new new v = []"
proof -
  have old: "EncodeInternalKey [107] 1 RecordTypeValue = Inr [107, 1, 1, 0, 0, 0, 0, 0, 0]" by code_simp
  have new: "EncodeInternalKey [107] 2 RecordTypeTombstone = Inr [107, 2, 2, 0, 0, 0, 0, 0, 0]" by code_simp
  let ?m = "\<lparr>FileNum = 1, Level = 1, SmallestSeq = 1, LargestSeq = 1, SmallestKey = [107, 1, 1, 0, 0, 0, 0, 0, 0],
    LargestKey = [107, 1, 1, 0, 0, 0, 0, 0, 0], FileSize = 0\<rparr>"
  let ?v = "fst (AddTable ?m NewVersionSet)"
  have v: "Levels ?v ! 1 = [?m]" by (simp add: AddTable_def NewVersionSet_def NumLevels_def eval_nat_numeral Let_def)
  have sub: "set (GetOverlappingInputs 1 [107, 2, 2, 0, 0, 0, 0, 0, 0] [107, 2, 2, 0, 0, 0, 0, 0, 0] ?v) \<subseteq> {?m}" using v by (auto simp: GetOverlappingInputs_def)
  have miss: "ExtractUserKey [107, 1, 1, 0, 0, 0, 0, 0, 0] = ExtractUserKey [107, 2, 2, 0, 0, 0, 0, 0, 0] \<and>
      ?m \<notin> set (GetOverlappingInputs 1 [107, 2, 2, 0, 0, 0, 0, 0, 0] [107, 2, 2, 0, 0, 0, 0, 0, 0] ?v)"
    by (rule overlap_misses_user_key [OF old new]) simp_all
  with sub have "GetOverlappingInputs 1 [107, 2, 2, 0, 0, 0, 0, 0, 0] [107, 2, 2, 0, 0, 0, 0, 0, 0] ?v = []" by (metis set_empty subset_singletonD insertI1)
  then show ?thesis using old new v miss
    by (intro exI [of _ "[107, 1, 1, 0, 0, 0, 0, 0, 0]"] exI [of _ "[107, 2, 2, 0, 0, 0, 0, 0, 0]"] exI [of _ ?m] exI [of _ ?v]) simp
qed

end
