(* ===== verification/Snapshots.thy ===== *)
theory Snapshots
  imports Prelude
begin

text \<open>
  Package \<^verbatim>\<open>engine\<close>, \<^verbatim>\<open>snapshot.go\<close> and the snapshot methods of \<^verbatim>\<open>db.go\<close>: a doubly linked list of live snapshots.  The nodes live
  in a store indexed by address, so that pointers, aliases and a snapshot released twice can be expressed; the head is
  the field \<^verbatim>\<open>snapshots\<close> of the database.
\<close>

section \<open>snapshot.go\<close>

record Snapshot =
  ReadSeq :: u64
  s_db :: bool
  s_prev :: "nat option"
  s_next :: "nat option"

record SnapshotList =
  snapshots :: "nat option"
  s_nodes :: "Snapshot list"

definition no_snapshots :: SnapshotList where
  "no_snapshots = \<lparr>snapshots = None, s_nodes = []\<rparr>"

section \<open>The snapshot methods of db.go\<close>

definition set_prev :: "nat option \<Rightarrow> nat option \<Rightarrow> Snapshot list \<Rightarrow> Snapshot list" where
  "set_prev p v ns = (case p of None \<Rightarrow> ns | Some a \<Rightarrow> ns[a := (ns ! a)\<lparr>s_prev := v\<rparr>])"

definition set_next :: "nat option \<Rightarrow> nat option \<Rightarrow> Snapshot list \<Rightarrow> Snapshot list" where
  "set_next p v ns = (case p of None \<Rightarrow> ns | Some a \<Rightarrow> ns[a := (ns ! a)\<lparr>s_next := v\<rparr>])"

definition GetSnapshot :: "u64 \<Rightarrow> SnapshotList \<Rightarrow> SnapshotList \<times> nat" where
  "GetSnapshot nextSeq st =
     (let s = length (s_nodes st);
          node = \<lparr>ReadSeq = nextSeq - 1, s_db = True, s_prev = None, s_next = snapshots st\<rparr>
      in (\<lparr>snapshots = Some s, s_nodes = set_prev (snapshots st) (Some s) (s_nodes st) @ [node]\<rparr>, s))"

definition ReleaseSnapshot :: "nat \<Rightarrow> SnapshotList \<Rightarrow> SnapshotList" where
  "ReleaseSnapshot s st =
     (let ns = s_nodes st; p = s_prev (ns ! s); n = s_next (ns ! s);
          head = (if p \<noteq> None then snapshots st else n);
          ns = set_next p n ns;
          ns = set_prev n p ns;
          ns = ns[s := (ns ! s)\<lparr>s_db := False, s_prev := None, s_next := None\<rparr>]
      in \<lparr>snapshots = head, s_nodes = ns\<rparr>)"

partial_function (option) oldest_from :: "Snapshot list \<Rightarrow> nat option \<Rightarrow> u64 \<Rightarrow> u64 option" where
  "oldest_from ns s oldest =
     (case s of
        None \<Rightarrow> Some oldest
      | Some a \<Rightarrow> oldest_from ns (s_next (ns ! a)) (if ReadSeq (ns ! a) < oldest then ReadSeq (ns ! a) else oldest))"

definition getOldestSnapshotSeq :: "u64 \<Rightarrow> SnapshotList \<Rightarrow> u64 option" where
  "getOldestSnapshotSeq nextSeq st = oldest_from (s_nodes st) (snapshots st) nextSeq"

section \<open>Lists of nodes\<close>

abbreviation first_of :: "nat list \<Rightarrow> nat option \<Rightarrow> nat option" where
  "first_of xs n \<equiv> (case xs of [] \<Rightarrow> n | b # _ \<Rightarrow> Some b)"

abbreviation last_of :: "nat option \<Rightarrow> nat list \<Rightarrow> nat option" where
  "last_of p xs \<equiv> (if xs = [] then p else Some (last xs))"

fun seg :: "Snapshot list \<Rightarrow> nat option \<Rightarrow> nat list \<Rightarrow> nat option \<Rightarrow> bool" where
  "seg ns p [] n \<longleftrightarrow> True"
| "seg ns p (a # xs) n \<longleftrightarrow> a < length ns \<and> s_prev (ns ! a) = p \<and> s_next (ns ! a) = first_of xs n \<and> seg ns (Some a) xs n"

lemma seg_append: "seg ns p (xs @ ys) n \<longleftrightarrow> seg ns p xs (first_of ys n) \<and> seg ns (last_of p xs) ys n"
  by (induction xs arbitrary: p) (auto split: list.splits)

lemma seg_frame: "(\<And>a. a \<in> set xs \<Longrightarrow> ms ! a = ns ! a) \<Longrightarrow> length ns \<le> length ms \<Longrightarrow> seg ns p xs n \<Longrightarrow> seg ms p xs n"
  by (induction xs arbitrary: p) auto

lemma seg_except:
  assumes "seg ns p xs n" and "a \<notin> set xs" and "\<And>b. b \<noteq> a \<Longrightarrow> ms ! b = ns ! b" and "length ms = length ns"
  shows "seg ms p xs n"
  by (rule seg_frame [OF _ _ assms(1)]) (use assms(2-4) in metis, simp add: assms(4))

lemma seg_bound: "seg ns p xs n \<Longrightarrow> a \<in> set xs \<Longrightarrow> a < length ns"
  by (induction xs arbitrary: p) auto

lemma length_set [simp]: "length (set_prev p v ns) = length ns" "length (set_next p v ns) = length ns"
  by (auto simp: set_prev_def set_next_def split: option.split)

lemma nth_set_prev: "a < length ns \<Longrightarrow> set_prev p v ns ! a = (if p = Some a then (ns ! a)\<lparr>s_prev := v\<rparr> else ns ! a)"
  by (auto simp: set_prev_def split: option.split)

lemma nth_set_next: "a < length ns \<Longrightarrow> set_next p v ns ! a = (if p = Some a then (ns ! a)\<lparr>s_next := v\<rparr> else ns ! a)"
  by (auto simp: set_next_def split: option.split)

lemma nth_set_other [simp]:
  "p \<noteq> Some a \<Longrightarrow> set_prev p v ns ! a = ns ! a" "p \<noteq> Some a \<Longrightarrow> set_next p v ns ! a = ns ! a"
  by (cases p; simp add: set_prev_def set_next_def nth_list_update_neq)+

lemma ReadSeq_update: "ReadSeq x = ReadSeq (ns ! b) \<Longrightarrow> ReadSeq (ns[b := x] ! a) = ReadSeq (ns ! a)"
  by (cases "b < length ns"; cases "a = b") (simp_all add: list_update_beyond nth_list_update_neq)

lemma ReadSeq_set [simp]: "ReadSeq (set_prev p v ns ! a) = ReadSeq (ns ! a)" "ReadSeq (set_next p v ns ! a) = ReadSeq (ns ! a)"
  by (cases p; simp add: set_prev_def set_next_def ReadSeq_update)+

text \<open>Relinking the ends of a segment.\<close>

lemma seg_set_prev:
  assumes "seg ns p xs n" and "distinct xs"
  shows "seg (set_prev (first_of xs None) q ns) q xs n"
proof (cases xs)
  case (Cons a ys)
  then have "seg (set_prev (Some a) q ns) (Some a) ys n"
    using assms by - (rule seg_except [of ns "Some a" ys n a], auto)
  then show ?thesis using assms Cons by (simp add: nth_set_prev)
qed simp

lemma seg_set_next:
  assumes "seg ns p xs n" and "distinct xs"
  shows "seg (set_next (last_of None xs) m ns) p xs m"
proof (cases xs rule: rev_cases)
  case (snoc ys a)
  then have "seg (set_next (Some a) m ns) p ys (Some a)"
    using assms by - (rule seg_except [of ns p ys "Some a" a], auto simp: seg_append)
  then show ?thesis using assms snoc by (simp add: seg_append nth_set_next)
qed simp

definition snap_rep :: "SnapshotList \<Rightarrow> nat list \<Rightarrow> bool" where
  "snap_rep st xs \<longleftrightarrow> distinct xs \<and> snapshots st = first_of xs None \<and> seg (s_nodes st) None xs None"

lemma snap_rep_empty: "snap_rep no_snapshots []"
  by (simp add: snap_rep_def no_snapshots_def)

lemma GetSnapshot_rep:
  assumes "snap_rep st xs" and "GetSnapshot nextSeq st = (st', s)"
  shows "snap_rep st' (s # xs)" and "s = length (s_nodes st)" and "ReadSeq (s_nodes st' ! s) = nextSeq - 1"
    and "length (s_nodes st') = Suc (length (s_nodes st))"
    and "a < length (s_nodes st) \<Longrightarrow> ReadSeq (s_nodes st' ! a) = ReadSeq (s_nodes st ! a)"
proof -
  let ?s = "length (s_nodes st)"
  let ?node = "\<lparr>ReadSeq = nextSeq - 1, s_db = True, s_prev = None, s_next = snapshots st\<rparr>"
  let ?ns = "set_prev (snapshots st) (Some ?s) (s_nodes st)"
  have st': "s = ?s" "s_nodes st' = ?ns @ [?node]" "snapshots st' = Some ?s" using assms(2) by (auto simp: GetSnapshot_def Let_def)
  have "seg ?ns (Some ?s) xs None" using assms(1) seg_set_prev [of "s_nodes st" None xs None] by (simp add: snap_rep_def)
  then have "seg (?ns @ [?node]) (Some ?s) xs None"
    by (rule seg_frame [rotated 2]) (auto simp: nth_append dest: seg_bound [OF \<open>seg ?ns (Some ?s) xs None\<close>])
  moreover have "?s \<notin> set xs" using assms(1) seg_bound by (fastforce simp: snap_rep_def)
  ultimately show "snap_rep st' (s # xs)" using assms(1) st' by (simp add: snap_rep_def nth_append)
  show "s = ?s" "ReadSeq (s_nodes st' ! s) = nextSeq - 1" "length (s_nodes st') = Suc ?s" using st' by (simp_all add: nth_append)
  show "ReadSeq (s_nodes st' ! a) = ReadSeq (s_nodes st ! a)" if "a < ?s" using st' that by (simp add: nth_append nth_set_prev)
qed

lemma ReleaseSnapshot_rep:
  assumes rep: "snap_rep st (xs @ s # ys)"
  shows "snap_rep (ReleaseSnapshot s st) (xs @ ys)"
proof -
  let ?ns = "s_nodes st" and ?p = "last_of None xs" and ?n = "first_of ys None"
  have d: "distinct xs" "distinct ys" "s \<notin> set xs" "s \<notin> set ys" "set xs \<inter> set ys = {}" using rep by (auto simp: snap_rep_def)
  have sg: "seg ?ns None xs (Some s)" "s < length ?ns" "s_prev (?ns ! s) = ?p" "s_next (?ns ! s) = ?n" "seg ?ns (Some s) ys None"
    using rep by (auto simp: snap_rep_def seg_append)
  let ?n1 = "set_next ?p ?n ?ns" and ?n2 = "set_prev ?n ?p (set_next ?p ?n ?ns)"
  let ?n3 = "?n2[s := (?n2 ! s)\<lparr>s_db := False, s_prev := None, s_next := None\<rparr>]"
  have st': "s_nodes (ReleaseSnapshot s st) = ?n3"
    "snapshots (ReleaseSnapshot s st) = (if ?p \<noteq> None then snapshots st else ?n)"
    using sg by (simp_all add: ReleaseSnapshot_def Let_def)
  have pn: "?p = Some a \<Longrightarrow> a \<in> set xs" "?n = Some b \<Longrightarrow> b \<in> set ys" for a b by (auto split: if_splits list.splits)
  have x: "seg ?n1 None xs ?n" using seg_set_next [OF sg(1) d(1)] .
  have "seg ?n3 None xs ?n"
  proof (rule seg_frame [OF _ _ x])
    fix a assume a: "a \<in> set xs"
    then have "a \<noteq> s" "?n \<noteq> Some a" using d pn(2) by auto
    then show "?n3 ! a = ?n1 ! a" by simp
  qed simp
  moreover have "seg ?n1 (Some s) ys None"
  proof (rule seg_frame [OF _ _ sg(5)])
    fix a assume "a \<in> set ys"
    then have "?p \<noteq> Some a" using d(5) pn(1) by blast
    then show "?n1 ! a = ?ns ! a" by simp
  qed simp
  then have y: "seg ?n2 ?p ys None" using seg_set_prev d(2) by blast
  then have "seg ?n3 ?p ys None"
    by (rule seg_except [of _ _ _ _ s]) (simp_all add: d(4) nth_list_update_neq)
  moreover have "snapshots (ReleaseSnapshot s st) = first_of (xs @ ys) None"
    using st'(2) rep by (cases xs) (auto simp: snap_rep_def)
  ultimately show ?thesis using st'(1) d by (simp add: snap_rep_def seg_append)
qed

lemma ReleaseSnapshot_ReadSeq: "ReadSeq (s_nodes (ReleaseSnapshot s st) ! a) = ReadSeq (s_nodes st ! a)"
  by (simp add: ReleaseSnapshot_def Let_def ReadSeq_update)

lemma length_ReleaseSnapshot [simp]: "length (s_nodes (ReleaseSnapshot s st)) = length (s_nodes st)"
  by (simp add: ReleaseSnapshot_def Let_def)

lemma oldest_from_seg:
  "seg ns p xs None \<Longrightarrow> oldest_from ns (first_of xs None) oldest = Some (fold min (map (\<lambda>a. ReadSeq (ns ! a)) xs) oldest)"
proof (induction xs arbitrary: p oldest)
  case (Cons a xs)
  have "(if ReadSeq (ns ! a) < oldest then ReadSeq (ns ! a) else oldest) = min (ReadSeq (ns ! a)) oldest" by (simp add: min_def order_less_imp_le)
  moreover have "s_next (ns ! a) = first_of xs None" "seg ns (Some a) xs None" using Cons.prems by simp_all
  ultimately show ?case using Cons.IH by (subst oldest_from.simps) (simp only: option.case list.case list.map fold_simps)
qed (simp add: oldest_from.simps)

section \<open>Runs of snapshot operations\<close>

text \<open>A run takes and releases snapshots; a client releases a snapshot it holds, once.  \<open>live\<close> is the abstract state: the read
  sequence numbers of the snapshots held, newest first, with their addresses.\<close>

datatype snap_op = is_Take: Take u64 | Release nat

fun run_snap :: "snap_op list \<Rightarrow> SnapshotList \<Rightarrow> SnapshotList" where
  "run_snap [] st = st"
| "run_snap (Take nextSeq # os) st = run_snap os (fst (GetSnapshot nextSeq st))"
| "run_snap (Release a # os) st = run_snap os (ReleaseSnapshot a st)"

fun live :: "snap_op list \<Rightarrow> nat \<Rightarrow> (nat \<times> u64) list \<Rightarrow> (nat \<times> u64) list" where
  "live [] n ls = ls"
| "live (Take nextSeq # os) n ls = live os (Suc n) ((n, nextSeq - 1) # ls)"
| "live (Release a # os) n ls = live os n (filter (\<lambda>x. fst x \<noteq> a) ls)"

fun proper :: "snap_op list \<Rightarrow> nat \<Rightarrow> nat list \<Rightarrow> bool" where
  "proper [] n held \<longleftrightarrow> True"
| "proper (Take nextSeq # os) n held \<longleftrightarrow> proper os (Suc n) (n # held)"
| "proper (Release a # os) n held \<longleftrightarrow> a \<in> set held \<and> proper os n (filter (\<lambda>x. x \<noteq> a) held)"

lemma filter_address:
  "distinct (xs @ a # ys) \<Longrightarrow> filter (\<lambda>x. x \<noteq> a) (xs @ a # ys) = xs @ ys"
  using filter_True [of xs "\<lambda>x. x \<noteq> a"] filter_True [of ys "\<lambda>x. x \<noteq> a"] by fastforce

lemma run_snap_rep:
  assumes "snap_rep st (map fst ls)" and "\<forall>(a, q)\<in>set ls. ReadSeq (s_nodes st ! a) = q" and "length (s_nodes st) = n"
    and "proper os n (map fst ls)"
  shows "snap_rep (run_snap os st) (map fst (live os n ls)) \<and> (\<forall>(a, q)\<in>set (live os n ls). ReadSeq (s_nodes (run_snap os st) ! a) = q)"
  using assms
proof (induction os arbitrary: st n ls)
  case (Cons o' os)
  have bound: "a < length (s_nodes st)" if "(a, q) \<in> set ls" for a q
    using Cons.prems(1) seg_bound that by (force simp: snap_rep_def)
  show ?case
  proof (cases o')
    case (Take nextSeq)
    obtain st' s where g: "GetSnapshot nextSeq st = (st', s)" by (cases "GetSnapshot nextSeq st")
    note gs = GetSnapshot_rep [OF Cons.prems(1) g]
    have "\<forall>(a, q)\<in>set ((n, nextSeq - 1) # ls). ReadSeq (s_nodes st' ! a) = q"
      using gs Cons.prems(2,3) bound by auto
    then show ?thesis using Take g gs Cons.prems(3,4) Cons.IH [of st' "(n, nextSeq - 1) # ls" "Suc n"] by simp
  next
    case (Release a)
    then obtain xs ys where xy: "map fst ls = xs @ a # ys" using Cons.prems(4) by (auto simp: in_set_conv_decomp)
    have f: "map fst (filter (\<lambda>x. fst x \<noteq> a) ls) = filter (\<lambda>x. x \<noteq> a) (map fst ls)" by (simp add: filter_map comp_def)
    also have "\<dots> = xs @ ys" unfolding xy using Cons.prems(1) unfolding snap_rep_def xy by (intro filter_address) blast
    finally have fs: "map fst (filter (\<lambda>x. fst x \<noteq> a) ls) = xs @ ys" .
    have "snap_rep (ReleaseSnapshot a st) (map fst (filter (\<lambda>x. fst x \<noteq> a) ls))"
      using ReleaseSnapshot_rep Cons.prems(1) unfolding xy fs by blast
    moreover have "\<forall>(b, q)\<in>set (filter (\<lambda>x. fst x \<noteq> a) ls). ReadSeq (s_nodes (ReleaseSnapshot a st) ! b) = q"
      using Cons.prems(2) bound ReleaseSnapshot_ReadSeq by fastforce
    ultimately show ?thesis using Release Cons.prems(3,4) f Cons.IH [of "ReleaseSnapshot a st" "filter (\<lambda>x. fst x \<noteq> a) ls" n] by simp
  qed
qed simp

lemma getOldest_rep:
  assumes "proper os 0 []"
  shows "snap_rep (run_snap os no_snapshots) (map fst (live os 0 []))"
    and "getOldestSnapshotSeq nextSeq (run_snap os no_snapshots) = Some (fold min (map snd (live os 0 [])) nextSeq)"
proof -
  have r: "snap_rep (run_snap os no_snapshots) (map fst (live os 0 []))"
    "\<forall>(a, q)\<in>set (live os 0 []). ReadSeq (s_nodes (run_snap os no_snapshots) ! a) = q"
    using run_snap_rep [of no_snapshots "[]" 0 os] snap_rep_empty assms by (auto simp: no_snapshots_def)
  then show "snap_rep (run_snap os no_snapshots) (map fst (live os 0 []))" by simp
  have "map (\<lambda>a. ReadSeq (s_nodes (run_snap os no_snapshots) ! a)) (map fst (live os 0 [])) = map snd (live os 0 [])" using r(2) by auto
  moreover have "getOldestSnapshotSeq nextSeq (run_snap os no_snapshots) =
      Some (fold min (map (\<lambda>a. ReadSeq (s_nodes (run_snap os no_snapshots) ! a)) (map fst (live os 0 []))) nextSeq)"
    using r(1) oldest_from_seg [of "s_nodes (run_snap os no_snapshots)" None "map fst (live os 0 [])" nextSeq]
    unfolding getOldestSnapshotSeq_def snap_rep_def by simp
  ultimately show "getOldestSnapshotSeq nextSeq (run_snap os no_snapshots) = Some (fold min (map snd (live os 0 [])) nextSeq)" by (simp only:)
qed

text \<open>A snapshot that was released keeps empty links, since only nodes of the list are relinked.\<close>

definition dead_unlinked :: "SnapshotList \<Rightarrow> nat list \<Rightarrow> bool" where
  "dead_unlinked st xs \<longleftrightarrow> (\<forall>a<length (s_nodes st). a \<notin> set xs \<longrightarrow> s_prev (s_nodes st ! a) = None \<and> s_next (s_nodes st ! a) = None)"

lemma GetSnapshot_dead:
  assumes "snap_rep st xs" and "dead_unlinked st xs"
  shows "dead_unlinked (fst (GetSnapshot nextSeq st)) (length (s_nodes st) # xs)"
proof -
  have "snapshots st \<noteq> Some a" if "a \<notin> set xs" for a using assms(1) that by (auto simp: snap_rep_def split: list.splits)
  then show ?thesis using assms(2) by (auto simp: dead_unlinked_def GetSnapshot_def Let_def nth_append nth_set_prev less_Suc_eq)
qed

lemma ReleaseSnapshot_dead:
  assumes rep: "snap_rep st (xs @ s # ys)" and "dead_unlinked st (xs @ s # ys)"
  shows "dead_unlinked (ReleaseSnapshot s st) (xs @ ys)"
proof -
  let ?ns = "s_nodes st"
  have sg: "s < length ?ns" "s_prev (?ns ! s) = last_of None xs" "s_next (?ns ! s) = first_of ys None"
    using rep by (auto simp: snap_rep_def seg_append)
  have pn: "s_prev (?ns ! s) = Some a \<Longrightarrow> a \<in> set xs" "s_next (?ns ! s) = Some a \<Longrightarrow> a \<in> set ys" for a
    unfolding sg by (auto split: if_splits list.splits)
  have "s_prev (s_nodes (ReleaseSnapshot s st) ! a) = None \<and> s_next (s_nodes (ReleaseSnapshot s st) ! a) = None"
    if "a < length ?ns" "a \<notin> set (xs @ ys)" for a
  proof (cases "a = s")
    case True
    then show ?thesis using sg(1) by (simp add: ReleaseSnapshot_def Let_def)
  next
    case False
    have "s_prev (?ns ! s) \<noteq> Some a" "s_next (?ns ! s) \<noteq> Some a" using pn that(2) by auto
    then have "s_nodes (ReleaseSnapshot s st) ! a = ?ns ! a" using False by (simp add: ReleaseSnapshot_def Let_def nth_list_update_neq)
    then show ?thesis using assms(2) that False by (simp add: dead_unlinked_def)
  qed
  then show ?thesis by (simp add: dead_unlinked_def)
qed

lemma run_snap_dead:
  assumes "snap_rep st xs" and "dead_unlinked st xs" and "proper os (length (s_nodes st)) xs"
  shows "\<exists>ys. snap_rep (run_snap os st) ys \<and> dead_unlinked (run_snap os st) ys \<and>
     length (s_nodes (run_snap os st)) = length (s_nodes st) + length (filter is_Take os)"
  using assms
proof (induction os arbitrary: st xs)
  case (Cons o' os)
  show ?case
  proof (cases o')
    case (Take nextSeq)
    obtain st' s where g: "GetSnapshot nextSeq st = (st', s)" by (cases "GetSnapshot nextSeq st")
    note gs = GetSnapshot_rep [OF Cons.prems(1) g]
    show ?thesis using Take g gs Cons.prems(3) GetSnapshot_dead [OF Cons.prems(1,2), of nextSeq] Cons.IH [of st' "s # xs"] by simp
  next
    case (Release a)
    then obtain us vs where xs: "xs = us @ a # vs" using Cons.prems(3) by (auto simp: in_set_conv_decomp)
    have "filter (\<lambda>x. x \<noteq> a) xs = us @ vs" unfolding xs using Cons.prems(1) unfolding snap_rep_def xs by (intro filter_address) blast
    then show ?thesis
      using Release xs Cons.prems ReleaseSnapshot_rep [of st us a vs] ReleaseSnapshot_dead [of st us a vs] Cons.IH [of "ReleaseSnapshot a st" "us @ vs"] by simp
  qed
qed auto

lemma snap_rep_unique: "snap_rep st xs \<Longrightarrow> snap_rep st ys \<Longrightarrow> xs = ys"
proof -
  have "seg ns p as None \<Longrightarrow> seg ns q bs None \<Longrightarrow> first_of as None = first_of bs None \<Longrightarrow> as = bs" for ns p q as bs
  proof (induction as arbitrary: p q bs)
    case (Cons a as)
    then show ?case by (cases bs) auto
  qed (simp split: list.splits)
  then show "snap_rep st xs \<Longrightarrow> snap_rep st ys \<Longrightarrow> xs = ys" unfolding snap_rep_def by metis
qed

lemma run_snap_append: "run_snap (os @ os') st = run_snap os' (run_snap os st)"
  by (induction os st rule: run_snap.induct) simp_all

section \<open>Properties\<close>

text \<open>C39. The linked list of snapshots implements the set of live snapshots: after any run in which snapshots are taken and
  each is released at most once, the walk over the list ends, and what it computes is the minimum of the next sequence number
  and the read sequence numbers of exactly the snapshots still held.\<close>

theorem oldest_snapshot_correct:
  assumes "proper os 0 []"
  shows "getOldestSnapshotSeq nextSeq (run_snap os no_snapshots) = Some (fold min (map snd (live os 0 [])) nextSeq)"
  using assms by (rule getOldest_rep(2))

theorem oldest_snapshot_correct_witness:
  "getOldestSnapshotSeq 9 (run_snap [Take 4, Take 6, Take 8, Release 1] no_snapshots) = Some 3"
proof -
  have "proper [Take 4, Take 6, Take 8, Release 1] 0 []" by simp
  from oldest_snapshot_correct [OF this, of 9] show ?thesis by simp
qed

text \<open>C40. Releasing any snapshot a second time drops every snapshot from the list: after any run in which each snapshot is released at most
  once, releasing one more time a snapshot that was taken and is no longer held makes the oldest snapshot the next sequence number, whatever snapshots
  are still held; before that release it was the minimum over them.  A compaction may then discard the versions they read.\<close>

theorem double_release_forgets:
  assumes "proper os 0 []" and "a < length (filter is_Take os)" and "a \<notin> fst ` set (live os 0 [])"
  shows "getOldestSnapshotSeq nextSeq (run_snap os no_snapshots) = Some (fold min (map snd (live os 0 [])) nextSeq) \<and>
    getOldestSnapshotSeq nextSeq (run_snap (os @ [Release a]) no_snapshots) = Some nextSeq"
proof -
  let ?st = "run_snap os no_snapshots"
  obtain ys where ys: "snap_rep ?st ys" "dead_unlinked ?st ys" "length (s_nodes ?st) = length (filter is_Take os)"
    using run_snap_dead [OF snap_rep_empty _, of os] assms(1) by (auto simp: dead_unlinked_def no_snapshots_def)
  have "ys = map fst (live os 0 [])" using snap_rep_unique [OF ys(1) getOldest_rep(1) [OF assms(1)]] .
  then have "s_prev (s_nodes ?st ! a) = None \<and> s_next (s_nodes ?st ! a) = None" using ys(2,3) assms(2,3) by (simp add: dead_unlinked_def)
  then have "snapshots (ReleaseSnapshot a ?st) = None" by (simp add: ReleaseSnapshot_def Let_def)
  then show ?thesis using getOldest_rep(2) [OF assms(1)] by (simp add: run_snap_append getOldestSnapshotSeq_def oldest_from.simps)
qed

theorem double_release_forgets_witness:
  "getOldestSnapshotSeq 9 (run_snap [Take 4, Take 6, Release 1] no_snapshots) = Some 3 \<and>
   getOldestSnapshotSeq 9 (run_snap [Take 4, Take 6, Release 1, Release 1] no_snapshots) = Some 9"
  using double_release_forgets [of "[Take 4, Take 6, Release 1]" 1 9] by simp

end
