(* ===== verification/User_Iterators.thy ===== *)
theory User_Iterators
  imports Iterators
begin

text \<open>
  Package \<^verbatim>\<open>engine\<close>, \<^verbatim>\<open>iterator.go\<close> and \<^verbatim>\<open>scan_iterator.go\<close>: the iterators a user of the database sees.  They have the methods of the
  internal iterators and hold another iterator behind its interface, so they are again records of operations
  over those of the inner iterator; \<open>None\<close> is a panic or a loop that does not end.
\<close>

section \<open>iterator.go\<close>

definition is_tombstone :: "bytes \<Rightarrow> bool" where
  "is_tombstone k \<longleftrightarrow> trailer_type k = RecordTypeTombstone"

partial_function (option) skipTombstones :: "'it iter_ops \<Rightarrow> 'it \<Rightarrow> 'it option" where
  "skipTombstones ops it =
     (if op_Valid ops it \<and> is_tombstone (op_Key ops it)
      then Option.bind (op_Next ops it) (skipTombstones ops)
      else Some it)"

definition db_SeekToFirst :: "'it iter_ops \<Rightarrow> 'it \<Rightarrow> 'it option" where
  "db_SeekToFirst ops it = Option.bind (op_SeekToFirst ops it) (skipTombstones ops)"

definition db_Next :: "'it iter_ops \<Rightarrow> 'it \<Rightarrow> 'it option" where
  "db_Next ops it = Option.bind (op_Next ops it) (skipTombstones ops)"

definition db_Key :: "'it iter_ops \<Rightarrow> 'it \<Rightarrow> bytes" where
  "db_Key ops it = ExtractUserKey (op_Key ops it)"

definition db_ops :: "'it iter_ops \<Rightarrow> 'it iter_ops" where
  "db_ops ops = \<lparr>op_SeekToFirst = db_SeekToFirst ops, op_Next = db_Next ops, op_Valid = op_Valid ops,
     op_Key = db_Key ops, op_Value = op_Value ops\<rparr>"

section \<open>scan\_iterator.go\<close>

record 'it scanIterator =
  sc_inner :: 'it
  sc_start :: "bytes option"
  sc_end :: "bytes option"
  sc_prefix :: "bytes option"
  sc_stop :: bool

definition bytes_HasPrefix :: "bytes \<Rightarrow> bytes \<Rightarrow> bool" where
  "bytes_HasPrefix k p \<longleftrightarrow> length k \<ge> length p \<and> take (length p) k = p"

partial_function (option) sc_advance :: "'it iter_ops \<Rightarrow> 'it scanIterator \<Rightarrow> 'it scanIterator option" where
  "sc_advance ops it =
     (if op_Valid ops (sc_inner it) then
        let k = op_Key ops (sc_inner it)
        in if sc_prefix it \<noteq> None \<and> \<not> bytes_HasPrefix k (the (sc_prefix it))
           then Option.bind (op_Next ops (sc_inner it)) (\<lambda>i. sc_advance ops (it\<lparr>sc_inner := i\<rparr>))
           else if sc_start it \<noteq> None \<and> bytes_Compare k (the (sc_start it)) < 0
           then Option.bind (op_Next ops (sc_inner it)) (\<lambda>i. sc_advance ops (it\<lparr>sc_inner := i\<rparr>))
           else if sc_end it \<noteq> None \<and> bytes_Compare k (the (sc_end it)) \<ge> 0
           then Some (it\<lparr>sc_stop := True\<rparr>)
           else Some it
      else Some it)"

definition sc_SeekToFirst :: "'it iter_ops \<Rightarrow> 'it scanIterator \<Rightarrow> 'it scanIterator option" where
  "sc_SeekToFirst ops it =
     Option.bind (op_SeekToFirst ops (sc_inner it)) (\<lambda>i. sc_advance ops (it\<lparr>sc_stop := False, sc_inner := i\<rparr>))"

definition sc_Next :: "'it iter_ops \<Rightarrow> 'it scanIterator \<Rightarrow> 'it scanIterator option" where
  "sc_Next ops it = Option.bind (op_Next ops (sc_inner it)) (\<lambda>i. sc_advance ops (it\<lparr>sc_inner := i\<rparr>))"

definition sc_Valid :: "'it iter_ops \<Rightarrow> 'it scanIterator \<Rightarrow> bool" where
  "sc_Valid ops it \<longleftrightarrow> \<not> sc_stop it \<and> op_Valid ops (sc_inner it)"

definition sc_ops :: "'it iter_ops \<Rightarrow> 'it scanIterator iter_ops" where
  "sc_ops ops = \<lparr>op_SeekToFirst = sc_SeekToFirst ops, op_Next = sc_Next ops, op_Valid = sc_Valid ops,
     op_Key = (\<lambda>it. op_Key ops (sc_inner it)), op_Value = (\<lambda>it. op_Value ops (sc_inner it))\<rparr>"

section \<open>What the iterators show\<close>

definition user_entries :: "entries \<Rightarrow> entries" where
  "user_entries es = map (\<lambda>(k, v). (ExtractUserKey k, v)) (filter (\<lambda>e. \<not> is_tombstone (fst e)) es)"

lemma user_entries_simps [simp]:
  "user_entries [] = []"
  "user_entries (e # es) = (if is_tombstone (fst e) then user_entries es else (ExtractUserKey (fst e), snd e) # user_entries es)"
  by (auto simp: user_entries_def split: prod.splits)

definition in_range :: "bytes option \<Rightarrow> bytes option \<Rightarrow> bytes option \<Rightarrow> bytes \<Rightarrow> bool" where
  "in_range start end prefix k \<longleftrightarrow> (case prefix of None \<Rightarrow> True | Some p \<Rightarrow> bytes_HasPrefix k p) \<and>
     (case start of None \<Rightarrow> True | Some s \<Rightarrow> s \<le> k) \<and> (case end of None \<Rightarrow> True | Some e \<Rightarrow> k < e)"

definition db_rep :: "('it \<Rightarrow> entries \<Rightarrow> entries \<Rightarrow> bool) \<Rightarrow> 'it \<Rightarrow> entries \<Rightarrow> entries \<Rightarrow> bool" where
  "db_rep R it all rest \<longleftrightarrow> (\<exists>es r. R it es r \<and> all = user_entries es \<and> rest = user_entries r \<and> (r = [] \<or> \<not> is_tombstone (fst (hd r))))"

definition sc_rep :: "('it \<Rightarrow> entries \<Rightarrow> entries \<Rightarrow> bool) \<Rightarrow> 'it scanIterator \<Rightarrow> entries \<Rightarrow> entries \<Rightarrow> bool" where
  "sc_rep R it all rest \<longleftrightarrow> (\<exists>es r. R (sc_inner it) es r \<and> sorted_wrt (<) (map fst es) \<and> sorted_wrt (<) (map fst r) \<and>
     all = filter (\<lambda>e. in_range (sc_start it) (sc_end it) (sc_prefix it) (fst e)) es \<and>
     (if sc_stop it then rest = []
      else rest = filter (\<lambda>e. in_range (sc_start it) (sc_end it) (sc_prefix it) (fst e)) r \<and>
        (r = [] \<or> in_range (sc_start it) (sc_end it) (sc_prefix it) (fst (hd r)))))"

context internal_iterator
begin

lemma skipTombstones_rep: "R it es r \<Longrightarrow> \<exists>it'. skipTombstones ops it = Some it' \<and> db_rep R it' (user_entries es) (user_entries r)"
proof (induction r arbitrary: it)
  case Nil
  then have "skipTombstones ops it = Some it" using valid [OF Nil] by (subst skipTombstones.simps) simp
  moreover have "db_rep R it (user_entries es) (user_entries [])" unfolding db_rep_def
    by (intro exI [of _ es] exI [of _ "[]"]) (simp add: Nil)
  ultimately show ?case by blast
next
  case (Cons e r)
  note v = valid [OF Cons.prems] key [OF Cons.prems]
  obtain it' where it': "op_Next ops it = Some it'" "R it' es r" using next_ok [OF Cons.prems] by blast
  show ?case
  proof (cases "is_tombstone (fst e)")
    case True
    then show ?thesis using v it' Cons.IH [OF it'(2)] by (subst skipTombstones.simps) simp
  next
    case False
    have "skipTombstones ops it = Some it" using v False by (subst skipTombstones.simps) simp
    moreover have "db_rep R it (user_entries es) (user_entries (e # r))" 
      unfolding db_rep_def by (intro exI [of _ es] exI [of _ "e # r"]) (simp add: Cons.prems False)
    ultimately show ?thesis by blast
  qed
qed

lemma db_iterator: "internal_iterator (db_ops ops) (db_rep R)"
proof
  fix it all rest
  assume "db_rep R it all rest"
  then obtain es r where r: "R it es r" "all = user_entries es" "rest = user_entries r" "r = [] \<or> \<not> is_tombstone (fst (hd r))"
    by (auto simp: db_rep_def)
  obtain it1 where it1: "op_SeekToFirst ops it = Some it1" "R it1 es es" using seek [OF r(1)] by blast
  show "\<exists>it'. op_SeekToFirst (db_ops ops) it = Some it' \<and> db_rep R it' all all"
    using skipTombstones_rep [OF it1(2)] it1(1) r(2) by (simp add: db_ops_def db_SeekToFirst_def)
  show "op_Valid (db_ops ops) it \<longleftrightarrow> rest \<noteq> []" using valid [OF r(1)] r(3,4) by (cases r) (auto simp: db_ops_def)
next
  fix it all e rest
  assume "db_rep R it all (e # rest)"
  then obtain es r where r: "R it es r" "all = user_entries es" "e # rest = user_entries r" "r = [] \<or> \<not> is_tombstone (fst (hd r))"
    by (auto simp: db_rep_def)
  then obtain e' r' where r': "r = e' # r'" "e = (ExtractUserKey (fst e'), snd e')" "rest = user_entries r'" by (cases r) auto
  obtain it1 where it1: "op_Next ops it = Some it1" "R it1 es r'" using next_ok r(1) r'(1) by blast
  show "\<exists>it'. op_Next (db_ops ops) it = Some it' \<and> db_rep R it' all rest"
    using skipTombstones_rep [OF it1(2)] it1(1) r(2) r'(3) by (simp add: db_ops_def db_Next_def)
  show "op_Key (db_ops ops) it = fst e" "op_Value (db_ops ops) it = snd e"
    using key [of it es e' r'] val [of it es e' r'] r(1) r' by (simp_all add: db_ops_def db_Key_def)
qed

lemma db_New: "R it es [] \<Longrightarrow> db_rep R it (user_entries es) []"
  unfolding db_rep_def by (intro exI [of _ es] exI [of _ "[]"]) simp

lemma sc_New: "R it es [] \<Longrightarrow> sorted_wrt (<) (map fst es) \<Longrightarrow>
    sc_rep R \<lparr>sc_inner = it, sc_start = s, sc_end = e, sc_prefix = p, sc_stop = False\<rparr> (filter (\<lambda>x. in_range s e p (fst x)) es) []"
  unfolding sc_rep_def by (intro exI [of _ es] exI [of _ "[]"]) simp

lemma sc_advance_rep:
  assumes "R (sc_inner it) es r" and "sorted_wrt (<) (map fst es)" and "sorted_wrt (<) (map fst r)" and "\<not> sc_stop it"
    and "P = in_range (sc_start it) (sc_end it) (sc_prefix it)"
  shows "\<exists>it'. sc_advance ops it = Some it' \<and> sc_rep R it' (filter (\<lambda>e. P (fst e)) es) (filter (\<lambda>e. P (fst e)) r) \<and>
    sc_start it' = sc_start it \<and> sc_end it' = sc_end it \<and> sc_prefix it' = sc_prefix it"
  using assms
proof (induction r arbitrary: it)
  case Nil
  then have "sc_advance ops it = Some it" using valid [OF Nil(1)] by (subst sc_advance.simps) simp
  moreover have "sc_rep R it (filter (\<lambda>e. P (fst e)) es) (filter (\<lambda>e. P (fst e)) [])" unfolding sc_rep_def
    by (intro exI [of _ es] exI [of _ "[]"]) (simp add: Nil)
  ultimately show ?case by blast
next
  case (Cons e r)
  note v = valid [OF Cons.prems(1)] key [OF Cons.prems(1)]
  obtain i where i: "op_Next ops (sc_inner it) = Some i" "R i es r" using next_ok [OF Cons.prems(1)] by blast
  let ?skip = "sc_prefix it \<noteq> None \<and> \<not> bytes_HasPrefix (fst e) (the (sc_prefix it)) \<or> sc_start it \<noteq> None \<and> fst e < the (sc_start it)"
  let ?past = "sc_end it \<noteq> None \<and> \<not> fst e < the (sc_end it)"
  have P: "P (fst e) \<longleftrightarrow> \<not> ?skip \<and> \<not> ?past"
    unfolding Cons.prems(5) in_range_def by (auto split: option.splits)
  have step: "sc_advance ops it = (if ?skip then sc_advance ops (it\<lparr>sc_inner := i\<rparr>) else if ?past then Some (it\<lparr>sc_stop := True\<rparr>) else Some it)"
  proof -
    have ge: "bytes_Compare a b \<ge> 0 \<longleftrightarrow> \<not> a < b" for a b by (simp add: not_less flip: bytes_Compare_less)
    have vk: "op_Valid ops (sc_inner it)" "op_Key ops (sc_inner it) = fst e" using v by simp_all
    show ?thesis by (subst sc_advance.simps, simp only: vk Let_def bytes_Compare_less ge i(1) bind.bind_lunit if_True, argo)
  qed
  consider (skip) ?skip | (past) "\<not> ?skip" ?past | (here) "\<not> ?skip" "\<not> ?past" by blast
  then show ?case
  proof cases
    case skip
    have "\<exists>it'. sc_advance ops (it\<lparr>sc_inner := i\<rparr>) = Some it' \<and> sc_rep R it' (filter (\<lambda>e. P (fst e)) es) (filter (\<lambda>e. P (fst e)) r) \<and>
        sc_start it' = sc_start (it\<lparr>sc_inner := i\<rparr>) \<and> sc_end it' = sc_end (it\<lparr>sc_inner := i\<rparr>) \<and> sc_prefix it' = sc_prefix (it\<lparr>sc_inner := i\<rparr>)"
      using Cons.prems i(2) by (intro Cons.IH) simp_all
    then show ?thesis using step skip P by simp
  next
    case past
    have "\<not> P (fst x)" if "x \<in> set (e # r)" for x
    proof -
      have "fst e \<le> fst x" using Cons.prems(3) that by (auto simp: order_less_le)
      then have "\<not> fst x < the (sc_end it)" using past(2) by (meson order_le_less_trans)
      then show ?thesis using past(2) unfolding Cons.prems(5) in_range_def by (auto split: option.splits)
    qed
    then have none: "filter (\<lambda>e. P (fst e)) (e # r) = []" by (simp add: filter_empty_conv)
    have "sc_advance ops it = Some (it\<lparr>sc_stop := True\<rparr>)" using step past by argo
    moreover have "sc_rep R (it\<lparr>sc_stop := True\<rparr>) (filter (\<lambda>e. P (fst e)) es) (filter (\<lambda>e. P (fst e)) (e # r))"
      unfolding sc_rep_def none using Cons.prems by (intro exI [of _ es] exI [of _ "e # r"]) simp
    ultimately show ?thesis by simp
  next
    case here
    have "sc_advance ops it = Some it" using step here by argo
    moreover have "P (fst e)" using P here by blast
    then have "sc_rep R it (filter (\<lambda>e. P (fst e)) es) (filter (\<lambda>e. P (fst e)) (e # r))"
      using Cons.prems unfolding sc_rep_def by (intro exI [of _ es] exI [of _ "e # r"]) simp
    ultimately show ?thesis by blast
  qed
qed

lemma sc_iterator: "internal_iterator (sc_ops ops) (sc_rep R)"
proof
  fix it :: "'it scanIterator" and all rest
  assume "sc_rep R it all rest"
  then obtain es r where r: "R (sc_inner it) es r" "sorted_wrt (<) (map fst es)"
    "all = filter (\<lambda>e. in_range (sc_start it) (sc_end it) (sc_prefix it) (fst e)) es"
    and rest: "if sc_stop it then rest = []
      else rest = filter (\<lambda>e. in_range (sc_start it) (sc_end it) (sc_prefix it) (fst e)) r \<and>
        (r = [] \<or> in_range (sc_start it) (sc_end it) (sc_prefix it) (fst (hd r)))"
    by (auto simp: sc_rep_def)
  obtain i where i: "op_SeekToFirst ops (sc_inner it) = Some i" "R i es es" using seek [OF r(1)] by blast
  let ?it = "it\<lparr>sc_stop := False, sc_inner := i\<rparr>"
  show "\<exists>it'. op_SeekToFirst (sc_ops ops) it = Some it' \<and> sc_rep R it' all all"
    using sc_advance_rep [of ?it es es, OF _ _ _ _ refl] i r by (auto simp: sc_ops_def sc_SeekToFirst_def)
  show "op_Valid (sc_ops ops) it \<longleftrightarrow> rest \<noteq> []"
    using valid [OF r(1)] rest by (cases r) (auto simp: sc_ops_def sc_Valid_def split: if_splits)
next
  fix it :: "'it scanIterator" and all e rest
  assume "sc_rep R it all (e # rest)"
  then obtain es r where r: "R (sc_inner it) es r" "sorted_wrt (<) (map fst es)" "sorted_wrt (<) (map fst r)" "\<not> sc_stop it"
    "all = filter (\<lambda>e. in_range (sc_start it) (sc_end it) (sc_prefix it) (fst e)) es"
    "e # rest = filter (\<lambda>e. in_range (sc_start it) (sc_end it) (sc_prefix it) (fst e)) r"
    "r = [] \<or> in_range (sc_start it) (sc_end it) (sc_prefix it) (fst (hd r))"
    by (auto simp: sc_rep_def split: if_splits)
  then obtain r' where r': "r = e # r'" "rest = filter (\<lambda>e. in_range (sc_start it) (sc_end it) (sc_prefix it) (fst e)) r'"
    by (cases r) auto
  obtain i where i: "op_Next ops (sc_inner it) = Some i" "R i es r'" using next_ok r(1) r'(1) by blast
  show "\<exists>it'. op_Next (sc_ops ops) it = Some it' \<and> sc_rep R it' all rest"
    using sc_advance_rep [of "it\<lparr>sc_inner := i\<rparr>" es r', OF _ _ _ _ refl] i r r' by (auto simp: sc_ops_def sc_Next_def)
  show "op_Key (sc_ops ops) it = fst e" "op_Value (sc_ops ops) it = snd e"
    using key [of "sc_inner it" es e r'] val [of "sc_inner it" es e r'] r(1) r' by (simp_all add: sc_ops_def)
qed

end

interpretation user_iter: internal_iterator "db_ops (mg_ops (vf_ops mi_ops))" "db_rep (mg_rep (vf_rep mi_rep))"
  by (rule mem_merge.db_iterator)

interpretation user_scan: internal_iterator "sc_ops (db_ops (mg_ops (vf_ops mi_ops)))" "sc_rep (db_rep (mg_rep (vf_rep mi_rep)))"
  by (rule user_iter.sc_iterator)

end
