(* ===== verification/Version_Map.thy ===== *)
theory Version_Map
  imports User_Iterators
begin

text \<open>
  The abstract state of the database: a sorted list of versions, each an internal key with its value, and the
  user-level map that a read sequence number selects from it.  \<open>kv_at r M\<close> is what readers with read sequence number \<open>r\<close> see:
  of every user key the newest version that is not above \<open>r\<close>, unless that is a tombstone.  The memtables, tables and
  logs of the engine are shown to implement this one map.
\<close>

section \<open>What readers see\<close>

definition kv_at :: "u64 \<Rightarrow> entries \<Rightarrow> bytes \<rightharpoonup> bytes" where
  "kv_at r M = map_of (user_entries (newest (filter (visible r) M)))"

definition kv :: "entries \<Rightarrow> bytes \<rightharpoonup> bytes" where
  "kv M = map_of (user_entries (newest M))"

lemma kv_kv_at: "kv M = kv_at (- 1) M"
  by (simp add: kv_def kv_at_def visible_def [abs_def])

lemma sorted_filter: "sorted_entries M \<Longrightarrow> sorted_entries (filter P M)"
  by (simp add: sorted_wrt_map sorted_wrt_filter)

lemma map_of_user_entries:
  assumes "sorted_wrt (<) (map (\<lambda>e. ExtractUserKey (fst e)) es)"
  shows "map_of (user_entries es) u = Some v \<longleftrightarrow> (\<exists>k. (k, v) \<in> set es \<and> ExtractUserKey k = u \<and> \<not> is_tombstone k)"
  using assms
proof (induction es)
  case (Cons e es)
  have "ExtractUserKey (fst x) \<noteq> ExtractUserKey (fst e)" if "x \<in> set es" for x using Cons.prems that by auto
  then have here: "x \<in> set es \<Longrightarrow> ExtractUserKey (fst x) = u \<Longrightarrow> ExtractUserKey (fst e) \<noteq> u" for x by metis
  show ?case
  proof (cases "ExtractUserKey (fst e) = u \<and> \<not> is_tombstone (fst e)")
    case True
    then show ?thesis using here [of "(_, v)"] by (cases e) auto
  next
    case False
    then have "map_of (user_entries (e # es)) u = map_of (user_entries es) u" by auto
    then show ?thesis using Cons False by (cases e) auto
  qed
qed simp

lemma kv_at_iff:
  assumes "sorted_entries M"
  shows "kv_at r M u = Some v \<longleftrightarrow> (\<exists>k. (k, v) \<in> set M \<and> ExtractUserKey k = u \<and> trailer_seq k \<le> r \<and> \<not> is_tombstone k \<and>
    (\<forall>e\<in>set M. ExtractUserKey (fst e) = u \<and> visible r e \<longrightarrow> \<not> ikey_less (fst e) k))"
proof -
  note s = sorted_filter [OF assms, of "visible r"]
  show ?thesis unfolding kv_at_def map_of_user_entries [OF newest_users [OF s]] newest_iff [OF s]
    by (intro ex_cong1) (auto simp: visible_def)
qed

text \<open>Only the visible versions of a key matter for it.\<close>

lemma kv_at_local:
  assumes "sorted_entries M" and "sorted_entries N"
    and same: "\<And>e. ExtractUserKey (fst e) = u \<Longrightarrow> visible r e \<Longrightarrow> e \<in> set M \<longleftrightarrow> e \<in> set N"
  shows "kv_at r M u = kv_at r N u"
proof -
  have "kv_at r M u = Some v \<longleftrightarrow> kv_at r N u = Some v" for v
    unfolding kv_at_iff [OF assms(1)] kv_at_iff [OF assms(2)]
    using same by (metis fst_conv visible_def)
  then show ?thesis by (metis option.exhaust)
qed

section \<open>New versions\<close>

definition fresh :: "bytes \<Rightarrow> entries \<Rightarrow> bool" where
  "fresh k M \<longleftrightarrow> wf_ikey k \<and> (\<forall>e\<in>set M. trailer_seq (fst e) < trailer_seq k)"

lemma set_upd_entry:
  assumes "wf_entries M" and "wf_ikey k" and "k \<notin> fst ` set M"
  shows "set (upd_entry k v M) = insert (k, v) (set M)"
  using assms
proof (induction k v M rule: upd_entry.induct)
  case (2 k v k' v' es)
  then show ?case using Compare_eq_0_iff [of k' k] by auto
qed simp

lemma fresh_notin: "fresh k M \<Longrightarrow> k \<notin> fst ` set M"
  by (auto simp: fresh_def)

lemma newer_less: "ExtractUserKey a = ExtractUserKey b \<Longrightarrow> trailer_seq b < trailer_seq a \<Longrightarrow> ikey_less a b"
  by (simp add: ikey.cmp_less vkey_of_def less_vkey_def)

lemma kv_at_new:
  assumes "sorted_entries M" "wf_entries M" "fresh k M"
  shows "kv_at r (upd_entry k v M) = (if trailer_seq k \<le> r
    then (kv_at r M)(ExtractUserKey k := if is_tombstone k then None else Some v) else kv_at r M)"
proof
  fix u
  let ?M = "upd_entry k v M"
  have s: "sorted_entries ?M" using assms(1) by (rule sorted_upd_entry)
  have set: "set ?M = insert (k, v) (set M)" using set_upd_entry assms fresh_notin by (simp add: fresh_def)
  show "kv_at r ?M u = (if trailer_seq k \<le> r
    then (kv_at r M)(ExtractUserKey k := if is_tombstone k then None else Some v) else kv_at r M) u"
  proof (cases "trailer_seq k \<le> r \<and> u = ExtractUserKey k")
    case False
    then have "kv_at r ?M u = kv_at r M u"
      using s assms(1) set by (intro kv_at_local) (auto simp: visible_def)
    then show ?thesis using False by auto
  next
    case True
    have old: "ikey_less k (fst e)" if "e \<in> set M" "ExtractUserKey (fst e) = u" for e
      using assms(3) that True newer_less [of k "fst e"] by (simp add: fresh_def)
    have "kv_at r ?M u = Some w \<longleftrightarrow> \<not> is_tombstone k \<and> w = v" for w
    proof -
      have "(\<forall>e\<in>set ?M. ExtractUserKey (fst e) = u \<and> visible r e \<longrightarrow> \<not> ikey_less (fst e) x) \<longleftrightarrow> x = k"
        if "(x, w) \<in> set ?M" "ExtractUserKey x = u" for x
        using that old True ikey.cmp_refl ikey.cmp_swap_less [of _ k] unfolding set by (fastforce simp: visible_def)
      then show ?thesis unfolding kv_at_iff [OF s] using True set fresh_notin [OF assms(3)] by (metis Pair_inject image_eqI insertE fst_conv insertI1)
    qed
    then show ?thesis using True by (cases "kv_at r ?M u") auto
  qed
qed

end
