(* ===== verification/Engine.thy ===== *)
theory Engine
  imports SST_Reader WAL_Log Version_Set Snapshots Version_Map
begin

text \<open>
  Package \<^verbatim>\<open>engine\<close>: the database (\<^verbatim>\<open>db.go\<close>, \<^verbatim>\<open>config.go\<close>), its write path, its read path and its snapshots.

  \<^item> The state is the record \<open>DB\<close> and the two directories the database owns.  An operation gets the faults of its system
    calls as an \<open>os_env\<close> and returns the state also when it fails.
  \<^item> The locks are not modelled: every operation here runs under \<^verbatim>\<open>db.mu\<close> in the code, or is the part of a longer operation
    that does.  \<^verbatim>\<open>go db.MaybeScheduleFlush()\<close> only makes the flush run at some later time; the flush is an operation of its own.
  \<^item> The coin flips of the skip list are arguments.
  \<^item> Table iterators read without the block cache; that a cache changes nothing they read is shown where the
    reader is modelled.
\<close>

section \<open>config.go\<close>

record Config =
  WalDir :: string
  MemtableSizeLimit :: int
  CompressionType :: int
  BlockSize :: int
  L0CompactionTrigger :: int
  L1MaxBytes :: int
  SyncWrites :: bool

definition DefaultConfig :: Config where
  "DefaultConfig = \<lparr>WalDir = ''wal'', MemtableSizeLimit = 4 * 1024 * 1024, CompressionType = 0, BlockSize = 4 * 1024,
     L0CompactionTrigger = 4, L1MaxBytes = 64 * 1024 * 1024, SyncWrites = True\<rparr>"

section \<open>db.go: state\<close>

definition ErrNotFound :: go_err where
  "ErrNotFound = Err ''key not found''"

record DB =
  db_wal :: WAL
  db_memtable :: Memtable
  db_immutables :: "Memtable list"
  db_version :: VersionSet
  db_nextSeq :: u64
  db_opts :: Config
  db_nextFileNum :: u64
  db_snapshots :: SnapshotList
  db_bgErr :: "go_err option"

record Files =
  dbdir :: dir
  waldir :: dir

definition setBackgroundError :: "go_err \<Rightarrow> DB \<Rightarrow> DB" where
  "setBackgroundError e db = (if db_bgErr db = None then db\<lparr>db_bgErr := Some e\<rparr> else db)"

definition checkBackgroundError :: "DB \<Rightarrow> go_err option" where
  "checkBackgroundError db = db_bgErr db"

definition rotateMemtableLocked :: "DB \<Rightarrow> DB" where
  "rotateMemtableLocked db = db\<lparr>db_immutables := db_immutables db @ [db_memtable db], db_memtable := Memtable_New\<rparr>"

section \<open>db.go: writing\<close>

text \<open>The part \<^verbatim>\<open>Put\<close>, \<^verbatim>\<open>Write\<close> and \<^verbatim>\<open>Delete\<close> share: append to the log, and sync it when configured.\<close>

definition log_batch :: "os_env \<Rightarrow> Batch \<Rightarrow> DB \<Rightarrow> Files \<Rightarrow> DB \<times> Files \<times> go_err option" where
  "log_batch env batch db fs =
     (case WAL_Append env batch (db_wal db) (waldir fs) of
        (w, wd, Some e) \<Rightarrow> (db\<lparr>db_wal := w\<rparr>, fs\<lparr>waldir := wd\<rparr>, Some e)
      | (w, wd, None) \<Rightarrow>
          if SyncWrites (db_opts db)
          then case WAL_Sync env w wd of (wd, e) \<Rightarrow> (db\<lparr>db_wal := w\<rparr>, fs\<lparr>waldir := wd\<rparr>, e)
          else (db\<lparr>db_wal := w\<rparr>, fs\<lparr>waldir := wd\<rparr>, None))"

definition insert_version :: "bytes \<Rightarrow> u64 \<Rightarrow> byte \<Rightarrow> bytes \<Rightarrow> (nat \<Rightarrow> bool) \<Rightarrow> Memtable \<Rightarrow> Memtable res" where
  "insert_version key seq typ value coins m =
     bindr (EncodeInternalKey key seq typ) (\<lambda>ikey.
       case Memtable_Insert m ikey value coins of None \<Rightarrow> Inl (Panic ''skiplist'') | Some m' \<Rightarrow> Inr m')"

definition maybe_rotate :: "DB \<Rightarrow> DB" where
  "maybe_rotate db =
     (if Memtable_ApproximateSize (db_memtable db) \<ge> MemtableSizeLimit (db_opts db) then rotateMemtableLocked db else db)"

definition Put :: "os_env \<Rightarrow> (nat \<Rightarrow> bool) \<Rightarrow> bytes \<Rightarrow> bytes \<Rightarrow> DB \<Rightarrow> Files \<Rightarrow> DB \<times> Files \<times> go_err option" where
  "Put env coins key value db fs =
     (if checkBackgroundError db \<noteq> None then (db, fs, checkBackgroundError db)
      else
        let seq = db_nextSeq db;
            batch = \<lparr>SeqStart = seq, Records = [\<lparr>LKey = key, LValue = value, LType = logicalTypePut\<rparr>]\<rparr>
        in and_then (log_batch env batch db fs) (\<lambda>db fs.
             case insert_version key seq RecordTypeValue value coins (db_memtable db) of
               Inl e \<Rightarrow> (db, fs, Some e)
             | Inr m \<Rightarrow>
                 let db = maybe_rotate (db\<lparr>db_memtable := m\<rparr>)
                 in (db\<lparr>db_nextSeq := db_nextSeq db + 1\<rparr>, fs, None)))"

fun apply_batch :: "(nat \<Rightarrow> nat \<Rightarrow> bool) \<Rightarrow> u64 \<Rightarrow> LogicalRecord list \<Rightarrow> Memtable \<Rightarrow> u64 \<times> Memtable \<times> go_err option" where
  "apply_batch coins seq [] m = (seq, m, None)"
| "apply_batch coins seq (r # rs) m =
     (let typ = (if LType r = logicalTypeDelete then RecordTypeTombstone else RecordTypeValue)
      in case insert_version (LKey r) seq typ (LValue r) (coins (length rs)) m of
           Inl e \<Rightarrow> (seq, m, Some e)
         | Inr m' \<Rightarrow> apply_batch coins (seq + 1) rs m')"

definition Write :: "os_env \<Rightarrow> (nat \<Rightarrow> nat \<Rightarrow> bool) \<Rightarrow> LogicalRecord list \<Rightarrow> DB \<Rightarrow> Files \<Rightarrow> DB \<times> Files \<times> go_err option" where
  "Write env coins records db fs =
     (if checkBackgroundError db \<noteq> None then (db, fs, checkBackgroundError db)
      else
        let batch = \<lparr>SeqStart = db_nextSeq db, Records = records\<rparr>
        in and_then (log_batch env batch db fs) (\<lambda>db fs.
             case apply_batch coins (SeqStart batch) (Records batch) (db_memtable db) of
               (seq, m, Some e) \<Rightarrow> (db\<lparr>db_memtable := m\<rparr>, fs, Some e)
             | (seq, m, None) \<Rightarrow> ((maybe_rotate (db\<lparr>db_memtable := m\<rparr>))\<lparr>db_nextSeq := seq\<rparr>, fs, None)))"

definition Delete :: "os_env \<Rightarrow> (nat \<Rightarrow> bool) \<Rightarrow> bytes \<Rightarrow> DB \<Rightarrow> Files \<Rightarrow> DB \<times> Files \<times> go_err option" where
  "Delete env coins key db fs =
     (if checkBackgroundError db \<noteq> None then (db, fs, checkBackgroundError db)
      else
        let seq = db_nextSeq db;
            batch = \<lparr>SeqStart = seq, Records = [\<lparr>LKey = key, LValue = [], LType = logicalTypeDelete\<rparr>]\<rparr>
        in and_then (log_batch env batch db fs) (\<lambda>db fs.
             case insert_version key seq RecordTypeTombstone [] coins (db_memtable db) of
               Inl e \<Rightarrow> (db, fs, Some e)
             | Inr m \<Rightarrow> (db\<lparr>db_memtable := m, db_nextSeq := db_nextSeq db + 1\<rparr>, fs, None)))"

section \<open>db.go: reading\<close>

text \<open>An iterator over a memtable or a table, as the slice \<^verbatim>\<open>iters\<close> of \<^verbatim>\<open>InternalIterator\<close> values holds them.\<close>

type_synonym source_it = "MemtableIterator + TableIterator"

definition source_ops :: "os_env \<Rightarrow> zlib \<Rightarrow> source_it iter_ops" where
  "source_ops env z = sum_ops mi_ops (ti_ops env z)"

definition sstName :: "u64 \<Rightarrow> string" where
  "sstName n = Sprintf_06d (unat n) @ ''.sst''"

definition getSortedCandidatedTables :: "VersionSet \<Rightarrow> SSTableMeta list" where
  "getSortedCandidatedTables v = sort_key (\<lambda>m. - int (unat (FileNum m))) (GetAllTables v)"

definition out_of_range :: "bytes \<Rightarrow> SSTableMeta \<Rightarrow> bool" where
  "out_of_range key meta \<longleftrightarrow> length (SmallestKey meta) > 0 \<and> length (LargestKey meta) > 0 \<and>
     (bytes_Compare key (ExtractUserKey (SmallestKey meta)) < 0 \<or> bytes_Compare key (ExtractUserKey (LargestKey meta)) > 0)"

fun open_tables :: "os_env \<Rightarrow> zlib \<Rightarrow> dir \<Rightarrow> SSTableMeta list \<Rightarrow> TableIterator list res" where
  "open_tables env z d [] = Inr []"
| "open_tables env z d (meta # metas) =
     (case sstable_NewIterator env z (sstName (FileNum meta)) None d of
        (_, Inl e) \<Rightarrow> Inl e
      | (_, Inr it) \<Rightarrow> bindr (open_tables env z d metas) (\<lambda>its. Inr (it # its)))"

definition memtable_sources :: "DB \<Rightarrow> source_it list" where
  "memtable_sources db = map (Inl \<circ> NewMemtableIterator) (db_memtable db # db_immutables db)"

partial_function (option) get_loop :: "'it iter_ops \<Rightarrow> bytes \<Rightarrow> 'it \<Rightarrow> bytes res option" where
  "get_loop ops key m =
     (if op_Valid ops m then
        let c = bytes_Compare (ExtractUserKey (op_Key ops m)) key
        in if c = 0 then
             (if is_tombstone (op_Key ops m) then Some (Inl ErrNotFound) else Some (Inr (op_Value ops m)))
           else if c > 0 then Some (Inl ErrNotFound)
           else Option.bind (op_Next ops m) (get_loop ops key)
      else Some (Inl ErrNotFound))"

definition get_from :: "'it iter_ops \<Rightarrow> 'it list \<Rightarrow> bytes \<Rightarrow> bytes res" where
  "get_from ops iters key =
     (case Option.bind (mg_SeekToFirst ops (NewMergeIterator iters True)) (get_loop (mg_ops ops) key) of
        None \<Rightarrow> Inl (Panic ''iterator'') | Some r \<Rightarrow> r)"

definition GetWithOptions :: "os_env \<Rightarrow> zlib \<Rightarrow> bytes \<Rightarrow> u64 option \<Rightarrow> DB \<Rightarrow> Files \<Rightarrow> bytes res" where
  "GetWithOptions env z key snapshot db fs =
     (if checkBackgroundError db \<noteq> None then Inl (the (checkBackgroundError db))
      else
        bindr (open_tables env z (dbdir fs) (filter (\<lambda>m. \<not> out_of_range key m) (getSortedCandidatedTables (db_version db)))) (\<lambda>tabs.
          let iters = memtable_sources db @ map Inr tabs
          in case snapshot of
               None \<Rightarrow> get_from (source_ops env z) iters key
             | Some readSeq \<Rightarrow>
                 get_from (vf_ops (source_ops env z)) (map (\<lambda>it. NewVersionFilterIterator it readSeq) iters) key))"

definition Get :: "os_env \<Rightarrow> zlib \<Rightarrow> bytes \<Rightarrow> DB \<Rightarrow> Files \<Rightarrow> bytes res" where
  "Get env z key db fs = GetWithOptions env z key None db fs"

text \<open>\<^verbatim>\<open>NewIterator\<close> panics when a table cannot be opened.  The iterator it returns is the merge; its methods are those of \<open>db_ops\<close>.\<close>

definition NewIterator :: "os_env \<Rightarrow> zlib \<Rightarrow> u64 \<Rightarrow> DB \<Rightarrow> Files \<Rightarrow> source_it VersionFilterIterator MergeIterator res" where
  "NewIterator env z readSeq db fs =
     (case open_tables env z (dbdir fs) (getSortedCandidatedTables (db_version db)) of
        Inl e \<Rightarrow> Inl (Panic ''failed to open sstable'')
      | Inr tabs \<Rightarrow>
          Inr (NewMergeIterator (map (\<lambda>it. NewVersionFilterIterator it readSeq) (memtable_sources db @ map Inr tabs)) True))"

definition NewIterator_latest :: "os_env \<Rightarrow> zlib \<Rightarrow> DB \<Rightarrow> Files \<Rightarrow> source_it MergeIterator res" where
  "NewIterator_latest env z db fs =
     (case open_tables env z (dbdir fs) (getSortedCandidatedTables (db_version db)) of
        Inl e \<Rightarrow> Inl (Panic ''failed to open sstable'')
      | Inr tabs \<Rightarrow> Inr (NewMergeIterator (memtable_sources db @ map Inr tabs) True))"

definition NewRangeIterator :: "bytes option \<Rightarrow> bytes option \<Rightarrow> 'it res \<Rightarrow> 'it scanIterator res" where
  "NewRangeIterator start end base =
     bindr base (\<lambda>it. Inr \<lparr>sc_inner = it, sc_start = start, sc_end = end, sc_prefix = None, sc_stop = False\<rparr>)"

definition NewPrefixIterator :: "bytes option \<Rightarrow> 'it res \<Rightarrow> 'it scanIterator res" where
  "NewPrefixIterator prefix base =
     bindr base (\<lambda>it. Inr \<lparr>sc_inner = it, sc_start = None, sc_end = None, sc_prefix = prefix, sc_stop = False\<rparr>)"

section \<open>The sources of a read\<close>

definition tab_rep :: "os_env \<Rightarrow> zlib \<Rightarrow> TableIterator \<Rightarrow> entries \<Rightarrow> entries \<Rightarrow> bool" where
  "tab_rep env z it es rest \<longleftrightarrow> (\<exists>src. ti_rep env z src it es rest)"

interpretation tab_iter: internal_iterator "ti_ops env z" "tab_rep env z"
proof
  fix it es rest
  assume "tab_rep env z it es rest"
  then obtain src where r: "ti_rep env z src it es rest" by (auto simp: tab_rep_def)
  show "\<exists>it'. op_SeekToFirst (ti_ops env z) it = Some it' \<and> tab_rep env z it' es es"
    using table_iter.seek [OF r] by (auto simp: tab_rep_def)
  show "op_Valid (ti_ops env z) it \<longleftrightarrow> rest \<noteq> []" using r by (rule table_iter.valid)
next
  fix it es e rest
  assume "tab_rep env z it es (e # rest)"
  then obtain src where r: "ti_rep env z src it es (e # rest)" by (auto simp: tab_rep_def)
  show "\<exists>it'. op_Next (ti_ops env z) it = Some it' \<and> tab_rep env z it' es rest"
    using table_iter.next_ok [OF r] by (auto simp: tab_rep_def)
  show "op_Key (ti_ops env z) it = fst e" "op_Value (ti_ops env z) it = snd e"
    using r by (rule table_iter.key, rule table_iter.val)
qed

abbreviation source_rep :: "os_env \<Rightarrow> zlib \<Rightarrow> source_it \<Rightarrow> entries \<Rightarrow> entries \<Rightarrow> bool" where
  "source_rep env z \<equiv> sum_rep mi_rep (tab_rep env z)"

interpretation source_iter: internal_iterator "source_ops env z" "source_rep env z"
  unfolding source_ops_def using mem_iter.internal_iterator_axioms tab_iter.internal_iterator_axioms by (rule sum_iterator)

interpretation source_vf: internal_iterator "vf_ops (source_ops env z)" "vf_rep (source_rep env z)"
  by (rule source_iter.vf_iterator)

interpretation read_latest: internal_iterator "mg_ops (source_ops env z)" "mg_rep (source_rep env z)"
  by (rule source_iter.mg_iterator)

interpretation read_at: internal_iterator "mg_ops (vf_ops (source_ops env z))" "mg_rep (vf_rep (source_rep env z))"
  by (rule source_vf.mg_iterator)

interpretation scan_latest: internal_iterator "db_ops (mg_ops (source_ops env z))" "db_rep (mg_rep (source_rep env z))"
  by (rule read_latest.db_iterator)

interpretation scan_at: internal_iterator "db_ops (mg_ops (vf_ops (source_ops env z)))" "db_rep (mg_rep (vf_rep (source_rep env z)))"
  by (rule read_at.db_iterator)

interpretation range_latest: internal_iterator "sc_ops (db_ops (mg_ops (source_ops env z)))" "sc_rep (db_rep (mg_rep (source_rep env z)))"
  by (rule scan_latest.sc_iterator)

interpretation range_at: internal_iterator "sc_ops (db_ops (mg_ops (vf_ops (source_ops env z))))"
  "sc_rep (db_rep (mg_rep (vf_rep (source_rep env z))))"
  by (rule scan_at.sc_iterator)

section \<open>The representation of a set of versions\<close>

text \<open>A table file that holds given entries, with metadata that covers their user keys and sequence numbers.\<close>

definition table_holds :: "zlib \<Rightarrow> dir \<Rightarrow> SSTableMeta \<Rightarrow> entries \<Rightarrow> bool" where
  "table_holds z d meta es \<longleftrightarrow>
     (\<exists>bs flt f. file_at d (sstName (FileNum meta)) = Some f \<and> fdata f = table_bytes z bs flt \<and> blocks_ok z bs flt \<and> concat bs = es) \<and>
     sorted_entries es \<and> wf_entries es \<and> (\<forall>e\<in>set es. \<not> out_of_range (ExtractUserKey (fst e)) meta) \<and>
     (\<forall>e\<in>set es. trailer_seq (fst e) \<le> LargestSeq meta)"

definition mem_holds :: "Memtable \<Rightarrow> entries \<Rightarrow> bool" where
  "mem_holds m es \<longleftrightarrow> mem_rep m es \<and> wf_entries es"

text \<open>The memtables and tables together hold exactly the versions \<open>M\<close>.\<close>

definition db_holds :: "zlib \<Rightarrow> DB \<Rightarrow> Files \<Rightarrow> entries \<Rightarrow> bool" where
  "db_holds z db fs M \<longleftrightarrow> sorted_entries M \<and> wf_entries M \<and>
     (\<exists>mss tss. list_all2 mem_holds (db_memtable db # db_immutables db) mss \<and>
        list_all2 (table_holds z (dbdir fs)) (GetAllTables (db_version db)) tss \<and> set (concat (mss @ tss)) = set M)"

definition reads_ok :: "os_env \<Rightarrow> bool" where
  "reads_ok env \<longleftrightarrow> (\<forall>p. open_ok env p \<and> stat_ok env p \<and> read_ok env p)"

section \<open>Reading\<close>

lemma merge_entries_eq:
  assumes "sorted_entries M" and "wf_entries M" and "set (concat ess) = set M"
  shows "merge_entries ess = M"
proof -
  have wf: "\<forall>es\<in>set ess. wf_entries es" using assms(2,3) by auto
  note m = merge_entries_facts [OF wf]
  have "map_of (concat ess) k = map_of M k" for k
  proof (cases "map_of (concat ess) k")
    case None
    then show ?thesis using assms(3) by (metis map_of_eq_None_iff)
  next
    case (Some v)
    then have "(k, v) \<in> set M" using assms(3) map_of_SomeD by metis
    then show ?thesis using Some sorted_entries_distinct [OF assms(1)] by simp
  qed
  then show ?thesis using m assms(1) by (intro sorted_entries_unique) auto
qed

lemma sorted_set_unique:
  assumes "sorted_entries M" "sorted_entries N" "wf_entries M" "set M = set N"
  shows "M = N"
proof -
  have "wf_entries N" using assms(3,4) by metis
  then have "merge_entries [N] = N" using assms(2) by (intro merge_entries_eq) auto
  moreover have "merge_entries [N] = M" using assms(1,3) by (rule merge_entries_eq) (simp add: assms(4))
  ultimately show ?thesis by simp
qed

lemma open_tables_ok:
  assumes "reads_ok env" and "list_all2 (table_holds z d) metas ess"
  shows "\<exists>its. open_tables env z d metas = Inr its \<and> list_all2 (\<lambda>it es. tab_rep env z it es [] \<and> sorted_entries es \<and> wf_entries es) its ess"
  using assms(2)
proof (induction metas ess rule: list_all2_induct)
  case (Cons meta metas es ess)
  let ?p = "sstName (FileNum meta)"
  obtain bs flt f where f: "file_at d ?p = Some f" "fdata f = table_bytes z bs flt" "blocks_ok z bs flt" "concat bs = es"
    and es: "sorted_entries es" "wf_entries es"
    using Cons(1) unfolding table_holds_def by blast
  let ?src = "table_source z ?p bs flt"
  have env: "open_ok env ?p" "stat_ok env ?p" "read_ok env ?p" using assms(1) by (simp_all add: reads_ok_def)
  obtain c r where r: "NewReader env z ?p None d = (c, Inr r)" "coherent ?src c" "table_ok env z ?src r bs flt"
    using NewReader_ok [OF f(1-3) env table_source_ok [OF f(3)] coherent_None] by blast
  obtain c' it where it: "Reader_NewIterator env z r c = (c', Inr it)" "ti_rep env z ?src it (concat bs) []"
    using Reader_NewIterator_ok [OF r(3,2)] by blast
  obtain its where its: "open_tables env z d metas = Inr its" "list_all2 (\<lambda>it es. tab_rep env z it es [] \<and> sorted_entries es \<and> wf_entries es) its ess"
    using Cons(3) by blast
  have "tab_rep env z it es []" using it(2) f(4) by (auto simp: tab_rep_def)
  moreover have "sstable_NewIterator env z ?p None d = (c', Inr it)" using r(1) it(1) by (simp add: sstable_NewIterator_def)
  ultimately show ?case using its es by (intro exI [of _ "it # its"]) simp
qed simp

context internal_iterator
begin

lemma get_loop_rest:
  assumes "R it es rest" and "sorted_wrt (<) (map (\<lambda>e. ExtractUserKey (fst e)) rest)"
  shows "get_loop ops u it = Some (case map_of (user_entries rest) u of None \<Rightarrow> Inl ErrNotFound | Some v \<Rightarrow> Inr v)"
  using assms
proof (induction rest arbitrary: it)
  case Nil
  then show ?case using valid by (subst get_loop.simps) auto
next
  case (Cons e rest)
  note v = valid [OF Cons.prems(1)] key [OF Cons.prems(1)] val [OF Cons.prems(1)]
  let ?k = "ExtractUserKey (fst e)"
  obtain it' where it': "op_Next ops it = Some it'" "R it' es rest" using next_ok [OF Cons.prems(1)] by blast
  have later: "map_of (user_entries rest) u = None" if "u \<le> ?k"
  proof -
    have "u < ExtractUserKey (fst x)" if "x \<in> set rest" for x
      using Cons.prems(2) that \<open>u \<le> ?k\<close> by (auto intro: order_le_less_trans)
    then show ?thesis by (fastforce simp: map_of_eq_None_iff user_entries_def)
  qed
  consider "?k = u" | "u < ?k" | "?k < u" using linorder_less_linear by blast
  then show ?case
  proof cases
    case 1
    then show ?thesis using v later by (subst get_loop.simps) (simp add: Let_def)
  next
    case 2
    then show ?thesis using v later by (subst get_loop.simps) (auto simp: Let_def bytes_Compare_greater)
  next
    case 3
    then have "get_loop ops u it = get_loop ops u it'"
      using v it'(1) bytes_Compare_less [of ?k u] by (subst get_loop.simps) (auto simp: Let_def)
    then show ?thesis using Cons.IH [OF it'(2)] Cons.prems(2) 3 by auto
  qed
qed

lemma get_from_ok:
  assumes "list_all2 (\<lambda>c es. R c es [] \<and> sorted_entries es \<and> wf_entries es) iters ess"
  shows "get_from ops iters u = (case map_of (user_entries (newest (merge_entries ess))) u of None \<Rightarrow> Inl ErrNotFound | Some v \<Rightarrow> Inr v)"
proof -
  have r: "mg_rep R (NewMergeIterator iters True) (newest (merge_entries ess)) []"
    using mg_New [OF assms, of True] by (simp add: shown_def)
  obtain m where m: "mg_SeekToFirst ops (NewMergeIterator iters True) = Some m" "mg_rep R m (newest (merge_entries ess)) (newest (merge_entries ess))"
    using internal_iterator.seek [OF mg_iterator r] by (auto simp: mg_ops_def)
  have "\<forall>es\<in>set ess. wf_entries es" using assms by (rule list_all2_wf)
  from newest_users [OF merge_entries_facts(1) [OF this]]
  show ?thesis using m(1) internal_iterator.get_loop_rest [OF mg_iterator m(2)] by (simp add: get_from_def)
qed

end

lemma map_sort_key: "map g (sort_key (\<lambda>x. f (g x)) xs) = sort_key f (map g xs)"
proof (induction xs)
  case (Cons x xs)
  have "map g (insort_key (\<lambda>x. f (g x)) x ys) = insort_key f (g x) (map g ys)" for ys by (induction ys) auto
  with Cons show ?case by simp
qed simp

lemma list_all2_candidates:
  assumes "list_all2 P xs ys"
  shows "\<exists>ys'. list_all2 P (filter Q (sort_key f xs)) ys' \<and> set ys' \<subseteq> set ys \<and>
    (\<forall>y\<in>set ys. y \<in> set ys' \<or> (\<exists>x\<in>set xs. P x y \<and> \<not> Q x))"
proof -
  define zs where "zs = filter (Q \<circ> fst) (sort_key (\<lambda>p. f (fst p)) (zip xs ys))"
  have len: "length xs = length ys" and P: "\<forall>p\<in>set (zip xs ys). P (fst p) (snd p)"
    using assms by (auto simp: list_all2_iff)
  have "map fst zs = filter Q (sort_key f xs)"
    unfolding zs_def by (simp add: map_sort_key len flip: filter_map)
  moreover have "list_all2 P (map fst zs) (map snd zs)"
    using P by (auto simp: list_all2_iff zs_def zip_map_fst_snd)
  moreover have "set (map snd zs) \<subseteq> set ys" unfolding zs_def by (auto dest: set_zip_rightD)
  moreover have "y \<in> set (map snd zs) \<or> (\<exists>x\<in>set xs. P x y \<and> \<not> Q x)" if y: "y \<in> set ys" for y
  proof -
    obtain x where x: "(x, y) \<in> set (zip xs ys)" by (rule in_set_impl_in_set_zip2 [OF len y])
    then have "P x y" "x \<in> set xs" using P by (auto dest: set_zip_leftD)
    then show ?thesis using x by (cases "Q x") (force simp: zs_def)+
  qed
  ultimately show ?thesis by metis
qed

text \<open>The sources of a read that leaves out the tables for which \<open>Q\<close> fails.\<close>

lemma read_sources:
  assumes "db_holds z db fs M" and "reads_ok env"
  shows "\<exists>tabs ess N. open_tables env z (dbdir fs) (filter Q (getSortedCandidatedTables (db_version db))) = Inr tabs \<and>
    list_all2 (\<lambda>c es. source_rep env z c es [] \<and> sorted_entries es \<and> wf_entries es) (memtable_sources db @ map Inr tabs) ess \<and>
    merge_entries ess = N \<and> sorted_entries N \<and> wf_entries N \<and> set N \<subseteq> set M \<and>
    (\<forall>e\<in>set M. e \<in> set N \<or> (\<exists>meta. \<not> Q meta \<and> \<not> out_of_range (ExtractUserKey (fst e)) meta))"
proof -
  have M: "sorted_entries M" "wf_entries M" using assms(1) by (simp_all add: db_holds_def)
  obtain mss tss where h: "list_all2 mem_holds (db_memtable db # db_immutables db) mss"
    "list_all2 (table_holds z (dbdir fs)) (GetAllTables (db_version db)) tss" "set (concat (mss @ tss)) = set M"
    using assms(1) unfolding db_holds_def by blast
  obtain tss' where t: "list_all2 (table_holds z (dbdir fs)) (filter Q (getSortedCandidatedTables (db_version db))) tss'"
    "set tss' \<subseteq> set tss" "\<forall>es\<in>set tss. es \<in> set tss' \<or> (\<exists>meta\<in>set (GetAllTables (db_version db)). table_holds z (dbdir fs) meta es \<and> \<not> Q meta)"
    using list_all2_candidates [OF h(2)] unfolding getSortedCandidatedTables_def by blast
  obtain tabs where tabs: "open_tables env z (dbdir fs) (filter Q (getSortedCandidatedTables (db_version db))) = Inr tabs"
    "list_all2 (\<lambda>it es. tab_rep env z it es [] \<and> sorted_entries es \<and> wf_entries es) tabs tss'"
    using open_tables_ok [OF assms(2) t(1)] by blast
  define N where "N = filter (\<lambda>e. e \<in> set (concat (mss @ tss'))) M"
  have N: "sorted_entries N" "wf_entries N" "set N \<subseteq> set M" using M sorted_filter [of M] by (auto simp: N_def)
  have "set (concat (mss @ tss')) = set N" using h(3) t(2) by (auto simp: N_def)
  then have "merge_entries (mss @ tss') = N" using merge_entries_eq [OF N(1,2)] by blast
  moreover have "list_all2 (\<lambda>c es. source_rep env z c es [] \<and> sorted_entries es \<and> wf_entries es) (memtable_sources db) mss"
    unfolding memtable_sources_def list_all2_map1 using h(1)
    by (elim list.rel_mono_strong) (auto simp: sum_rep_def mem_holds_def dest: NewMemtableIterator_rep mem_rep_sorted)
  moreover have "list_all2 (\<lambda>c es. source_rep env z c es [] \<and> sorted_entries es \<and> wf_entries es) (map Inr tabs) tss'"
    using tabs(2) by (simp add: list_all2_map1 sum_rep_def)
  moreover have "e \<in> set N \<or> (\<exists>meta. \<not> Q meta \<and> \<not> out_of_range (ExtractUserKey (fst e)) meta)" if e: "e \<in> set M" for e
  proof (cases "e \<in> set N")
    case False
    have "e \<in> set (concat (mss @ tss))" using e h(3) by simp
    moreover have "e \<notin> set (concat (mss @ tss'))" using e False by (simp add: N_def)
    ultimately obtain es where "es \<in> set tss" "es \<notin> set tss'" "e \<in> set es" by auto
    then show ?thesis using t(3) unfolding table_holds_def by blast
  qed simp
  ultimately show ?thesis using tabs(1) N
    by (intro exI [of _ tabs] exI [of _ "mss @ tss'"] exI [of _ N] conjI list_all2_appendI) blast+
qed

definition found :: "bytes option \<Rightarrow> bytes res" where
  "found v = (case v of None \<Rightarrow> Inl ErrNotFound | Some v \<Rightarrow> Inr v)"

lemma vf_sources:
  assumes "list_all2 (\<lambda>c es. source_rep env z c es [] \<and> sorted_entries es \<and> wf_entries es) iters ess"
  shows "list_all2 (\<lambda>c es. vf_rep (source_rep env z) c es [] \<and> sorted_entries es \<and> wf_entries es)
    (map (\<lambda>it. NewVersionFilterIterator it r) iters) (map (filter (visible r)) ess)"
    and "merge_entries (map (filter (visible r)) ess) = filter (visible r) (merge_entries ess)"
proof -
  show "list_all2 (\<lambda>c es. vf_rep (source_rep env z) c es [] \<and> sorted_entries es \<and> wf_entries es)
    (map (\<lambda>it. NewVersionFilterIterator it r) iters) (map (filter (visible r)) ess)"
    unfolding list_all2_map1 list_all2_map2 using assms
    by (elim list.rel_mono_strong) (auto intro: source_iter.vf_New sorted_filter)
  show "merge_entries (map (filter (visible r)) ess) = filter (visible r) (merge_entries ess)"
    using merge_filter [OF list_all2_wf [OF assms], of "\<lambda>k. trailer_seq k \<le> r"] by (simp add: visible_def [abs_def])
qed

lemma GetWithOptions_ok:
  assumes "db_holds z db fs M" and "reads_ok env" and "db_bgErr db = None"
  shows "GetWithOptions env z key (Some r) db fs = found (kv_at r M key)" and "Get env z key db fs = found (kv M key)"
proof -
  let ?Q = "\<lambda>m. \<not> out_of_range key m"
  obtain tabs ess N where n: "open_tables env z (dbdir fs) (filter ?Q (getSortedCandidatedTables (db_version db))) = Inr tabs"
    "list_all2 (\<lambda>c es. source_rep env z c es [] \<and> sorted_entries es \<and> wf_entries es) (memtable_sources db @ map Inr tabs) ess"
    "merge_entries ess = N" "sorted_entries N" "set N \<subseteq> set M"
    "\<forall>e\<in>set M. e \<in> set N \<or> (\<exists>meta. \<not> ?Q meta \<and> \<not> out_of_range (ExtractUserKey (fst e)) meta)"
    using read_sources [OF assms(1,2), of ?Q] by blast
  have M: "sorted_entries M" using assms(1) by (simp add: db_holds_def)
  have same: "kv_at r N key = kv_at r M key" for r
    using n(5,6) by (intro kv_at_local n(4) M) blast
  show "GetWithOptions env z key (Some r) db fs = found (kv_at r M key)"
    using source_vf.get_from_ok [OF vf_sources(1) [OF n(2), of r], of key] vf_sources(2) [OF n(2), of r] n(1,3) assms(3) same [of r]
    by (simp add: GetWithOptions_def checkBackgroundError_def found_def kv_at_def)
  show "Get env z key db fs = found (kv M key)"
    using source_iter.get_from_ok [OF n(2), of key] n(1,3) assms(3) same [of "- 1"]
    by (simp add: Get_def GetWithOptions_def checkBackgroundError_def found_def kv_kv_at flip: kv_def)
qed

lemma iterator_sources:
  assumes "db_holds z db fs M" and "reads_ok env"
  shows "\<exists>tabs ess. open_tables env z (dbdir fs) (getSortedCandidatedTables (db_version db)) = Inr tabs \<and>
    list_all2 (\<lambda>c es. source_rep env z c es [] \<and> sorted_entries es \<and> wf_entries es) (memtable_sources db @ map Inr tabs) ess \<and>
    merge_entries ess = M"
proof -
  obtain tabs ess N where n: "open_tables env z (dbdir fs) (filter (\<lambda>_. True) (getSortedCandidatedTables (db_version db))) = Inr tabs"
    "list_all2 (\<lambda>c es. source_rep env z c es [] \<and> sorted_entries es \<and> wf_entries es) (memtable_sources db @ map Inr tabs) ess"
    "merge_entries ess = N" "sorted_entries N" "set N \<subseteq> set M" "set M \<subseteq> set N"
    using read_sources [OF assms, of "\<lambda>_. True"] by blast
  have "sorted_entries M" "wf_entries M" using assms(1) by (simp_all add: db_holds_def)
  then have "N = M" using n(4-6) by (intro sorted_set_unique) auto
  then show ?thesis using n by auto
qed

lemma NewIterator_ok:
  assumes "db_holds z db fs M" and "reads_ok env"
  shows "\<exists>m. NewIterator env z r db fs = Inr m \<and> mg_rep (vf_rep (source_rep env z)) m (newest (filter (visible r) M)) []"
    and "\<exists>m. NewIterator_latest env z db fs = Inr m \<and> mg_rep (source_rep env z) m (newest M) []"
proof -
  obtain tabs ess where n: "open_tables env z (dbdir fs) (getSortedCandidatedTables (db_version db)) = Inr tabs"
    "list_all2 (\<lambda>c es. source_rep env z c es [] \<and> sorted_entries es \<and> wf_entries es) (memtable_sources db @ map Inr tabs) ess"
    "merge_entries ess = M" using iterator_sources [OF assms] by blast
  show "\<exists>m. NewIterator env z r db fs = Inr m \<and> mg_rep (vf_rep (source_rep env z)) m (newest (filter (visible r) M)) []"
    using source_vf.mg_New [OF vf_sources(1) [OF n(2), of r], of True] vf_sources(2) [OF n(2), of r] n(1,3)
    by (simp add: NewIterator_def shown_def)
  show "\<exists>m. NewIterator_latest env z db fs = Inr m \<and> mg_rep (source_rep env z) m (newest M) []"
    using source_iter.mg_New [OF n(2), of True] n(1,3) by (simp add: NewIterator_latest_def shown_def)
qed

section \<open>Writing\<close>

lemma log_batch_fields:
  assumes "log_batch env batch db fs = (db', fs', e)"
  shows "\<exists>w wd. db' = db\<lparr>db_wal := w\<rparr> \<and> fs' = fs\<lparr>waldir := wd\<rparr>"
  using assms by (auto simp: log_batch_def split: prod.splits option.splits if_splits)

lemma insert_version_ok:
  assumes "mem_holds m es" and "insert_version key seq typ v coins m = Inr m'"
  shows "\<exists>ik. EncodeInternalKey key seq typ = Inr ik \<and> mem_holds m' (upd_entry ik v es)"
proof -
  obtain ik where ik: "EncodeInternalKey key seq typ = Inr ik" using assms(2) by (auto simp: insert_version_def bindr_eq_Inr)
  have "mem_rep m es" using assms(1) by (simp add: mem_holds_def)
  from mem_rep_Insert [OF this, of ik v coins] obtain m1 where "Memtable_Insert m ik v coins = Some m1" "mem_rep m1 (upd_entry ik v es)"
    by blast
  then show ?thesis using ik assms wf_upd_entry [of ik es v] EncodeInternalKey_Inr(6) [OF ik]
    by (auto simp: insert_version_def mem_holds_def)
qed

text \<open>The versions of a database whose sequence numbers are all below the next one.\<close>

definition db_versions :: "zlib \<Rightarrow> DB \<Rightarrow> Files \<Rightarrow> entries \<Rightarrow> bool" where
  "db_versions z db fs M \<longleftrightarrow> db_holds z db fs M \<and> (\<forall>e\<in>set M. trailer_seq (fst e) < db_nextSeq db)"

lemma db_holds_frame:
  "db_holds z (db\<lparr>db_wal := w\<rparr>) (fs\<lparr>waldir := wd\<rparr>) M = db_holds z db fs M"
  "db_holds z (db\<lparr>db_nextSeq := n\<rparr>) fs M = db_holds z db fs M"
  by (simp_all add: db_holds_def)

lemma db_holds_rotate: "db_holds z db fs M \<Longrightarrow> db_holds z (rotateMemtableLocked db) fs M"
proof -
  assume "db_holds z db fs M"
  then obtain es mss tss where h: "sorted_entries M" "wf_entries M" "mem_holds (db_memtable db) es"
    "list_all2 mem_holds (db_immutables db) mss"
    "list_all2 (table_holds z (dbdir fs)) (GetAllTables (db_version db)) tss" "set (concat ((es # mss) @ tss)) = set M"
    unfolding db_holds_def by (fastforce simp: list_all2_Cons1)
  have "list_all2 mem_holds (Memtable_New # db_immutables db @ [db_memtable db]) ([] # mss @ [es])"
    using h(3,4) mem_rep_New by (simp add: mem_holds_def list_all2_appendI)
  moreover have "set (concat (([] # mss @ [es]) @ tss)) = set M" using h(6) by auto
  ultimately show ?thesis using h(1,2,5) unfolding db_holds_def rotateMemtableLocked_def
    by (intro conjI exI [of _ "[] # mss @ [es]"] exI [of _ tss]) simp_all
qed

lemma db_holds_maybe_rotate: "db_holds z db fs M \<Longrightarrow> db_holds z (maybe_rotate db) fs M"
  by (simp add: maybe_rotate_def db_holds_rotate)

lemma nextSeq_maybe_rotate [simp]: "db_nextSeq (maybe_rotate db) = db_nextSeq db"
  by (simp add: maybe_rotate_def rotateMemtableLocked_def)

lemma db_holds_insert:
  assumes "db_holds z db fs M" and "fresh k M" and m: "\<And>es. mem_holds (db_memtable db) es \<Longrightarrow> mem_holds m (upd_entry k v es)"
  shows "db_holds z (db\<lparr>db_memtable := m\<rparr>) fs (upd_entry k v M)"
proof -
  obtain es mss tss where h: "sorted_entries M" "wf_entries M" "mem_holds (db_memtable db) es"
    "list_all2 mem_holds (db_immutables db) mss"
    "list_all2 (table_holds z (dbdir fs)) (GetAllTables (db_version db)) tss" "set (concat ((es # mss) @ tss)) = set M"
    using assms(1) unfolding db_holds_def by (fastforce simp: list_all2_Cons1)
  have k: "wf_ikey k" "k \<notin> fst ` set M" using assms(2) fresh_notin by (auto simp: fresh_def)
  then have "k \<notin> fst ` set es" using h(6) by auto
  moreover have "wf_entries es" using h(3) by (simp add: mem_holds_def)
  ultimately have "set (upd_entry k v es) = insert (k, v) (set es)" "set (upd_entry k v M) = insert (k, v) (set M)"
    using set_upd_entry k h(2) by blast+
  then have "set (concat ((upd_entry k v es # mss) @ tss)) = set (upd_entry k v M)" using h(6) by auto
  then show ?thesis
    using h sorted_upd_entry [OF h(1)] wf_upd_entry [OF k(1) h(2)] m [OF h(3)] unfolding db_holds_def
    by (intro conjI exI [of _ "upd_entry k v es # mss"] exI [of _ tss]) simp_all
qed

text \<open>The effect of logged records on what readers see.\<close>

fun apply_logical :: "LogicalRecord list \<Rightarrow> (bytes \<rightharpoonup> bytes) \<Rightarrow> (bytes \<rightharpoonup> bytes)" where
  "apply_logical [] m = m"
| "apply_logical (r # rs) m = apply_logical rs (m(LKey r := if LType r = logicalTypeDelete then None else Some (LValue r)))"

lemma apply_logical_append: "apply_logical (rs @ rs') m = apply_logical rs' (apply_logical rs m)"
  by (induction rs arbitrary: m) auto

lemma is_tombstone_Encode: "EncodeInternalKey k seq typ = Inr ik \<Longrightarrow> is_tombstone ik \<longleftrightarrow> typ = RecordTypeTombstone"
  by (simp add: is_tombstone_def EncodeInternalKey_Inr)

lemma seq_plus_1: "drop_bit 56 (seq :: u64) = 0 \<Longrightarrow> seq < seq + 1"
  by (simp add: word_less_nat_alt unat_word_ariths seq_56_iff)

lemma insert_new:
  assumes "db_versions z db fs M" and "insert_version key (db_nextSeq db) typ v coins (db_memtable db) = Inr m"
    and "r = \<lparr>LKey = key, LValue = v, LType = lt\<rparr>" and "typ = (if lt = logicalTypeDelete then RecordTypeTombstone else RecordTypeValue)"
  shows "\<exists>M'. db_versions z (db\<lparr>db_memtable := m, db_nextSeq := db_nextSeq db + 1\<rparr>) fs M' \<and> kv M' = apply_logical [r] (kv M) \<and>
    (\<forall>r<db_nextSeq db. kv_at r M' = kv_at r M) \<and> db_nextSeq db < db_nextSeq db + 1"
proof -
  let ?seq = "db_nextSeq db"
  have h: "db_holds z db fs M" "\<forall>e\<in>set M. trailer_seq (fst e) < ?seq" using assms(1) by (auto simp: db_versions_def)
  then have M: "sorted_entries M" "wf_entries M" by (auto simp: db_holds_def)
  obtain ik where ik: "EncodeInternalKey key ?seq typ = Inr ik" using assms(2) by (auto simp: insert_version_def bindr_eq_Inr)
  note ik' = EncodeInternalKey_Inr [OF ik]
  have f: "fresh ik M" using h(2) ik' by (simp add: fresh_def)
  have "mem_holds m (upd_entry ik v es)" if "mem_holds (db_memtable db) es" for es
    using insert_version_ok [OF that assms(2)] ik by auto
  from db_holds_insert [OF h(1) f this]
  have "db_holds z (db\<lparr>db_memtable := m, db_nextSeq := ?seq + 1\<rparr>) fs (upd_entry ik v M)" by (simp add: db_holds_def)
  moreover have lt: "?seq < ?seq + 1" using ik'(1) by (rule seq_plus_1)
  moreover have "\<forall>e\<in>set (upd_entry ik v M). trailer_seq (fst e) < ?seq + 1"
    using set_upd_entry [OF M(2) ik'(6) fresh_notin [OF f], of v] h(2) lt ik'(3) by (auto intro: order_less_trans)
  moreover have "kv (upd_entry ik v M) = apply_logical [r] (kv M)"
    using kv_at_new [OF M f, of "- 1" v] ik' is_tombstone_Encode [OF ik] assms(3,4)
    by (simp add: kv_kv_at RecordTypeValue_def RecordTypeTombstone_def)
  moreover have "\<forall>r<?seq. kv_at r (upd_entry ik v M) = kv_at r M" using kv_at_new [OF M f] ik'(3) by (auto simp: not_less)
  ultimately show ?thesis by (auto simp: db_versions_def)
qed

lemma apply_batch_ok:
  assumes "db_versions z db fs M" and "apply_batch coins (db_nextSeq db) rs (db_memtable db) = (seq', m', None)"
  shows "\<exists>M'. db_versions z (db\<lparr>db_memtable := m', db_nextSeq := seq'\<rparr>) fs M' \<and> kv M' = apply_logical rs (kv M) \<and>
    (\<forall>r<db_nextSeq db. kv_at r M' = kv_at r M) \<and> db_nextSeq db \<le> seq'"
  using assms
proof (induction rs arbitrary: db M)
  case Nil
  then show ?case by auto
next
  case (Cons r rs)
  let ?rt = "if LType r = logicalTypeDelete then RecordTypeTombstone else RecordTypeValue"
  obtain m where m: "insert_version (LKey r) (db_nextSeq db) ?rt (LValue r) (coins (length rs)) (db_memtable db) = Inr m"
    and rest: "apply_batch coins (db_nextSeq db + 1) rs m = (seq', m', None)"
    using Cons.prems(2) by (auto simp: Let_def split: sum.splits)
  let ?db = "db\<lparr>db_memtable := m, db_nextSeq := db_nextSeq db + 1\<rparr>"
  obtain M1 where M1: "db_versions z ?db fs M1" "kv M1 = apply_logical [r] (kv M)" "\<forall>r<db_nextSeq db. kv_at r M1 = kv_at r M"
    "db_nextSeq db < db_nextSeq db + 1"
    using insert_new [OF Cons.prems(1) m, of r "LType r"] by auto
  obtain M2 where M2: "db_versions z (?db\<lparr>db_memtable := m', db_nextSeq := seq'\<rparr>) fs M2" "kv M2 = apply_logical rs (kv M1)"
    "\<forall>r<db_nextSeq db + 1. kv_at r M2 = kv_at r M1" "db_nextSeq db + 1 \<le> seq'"
    using Cons.IH [OF M1(1)] rest by auto
  have "\<forall>r<db_nextSeq db. kv_at r M2 = kv_at r M" using M1(3,4) M2(3) by (auto dest: order_less_trans)
  then show ?case using M1(2,4) M2(1,2,4) by (auto intro: order_trans less_imp_le)
qed

section \<open>A write as one step\<close>

datatype write_op = DoPut bytes bytes | DoDelete bytes | DoWrite "LogicalRecord list"

definition run_write :: "os_env \<Rightarrow> (nat \<Rightarrow> nat \<Rightarrow> bool) \<Rightarrow> write_op \<Rightarrow> DB \<Rightarrow> Files \<Rightarrow> DB \<times> Files \<times> go_err option" where
  "run_write env coins op db fs =
     (case op of DoPut k v \<Rightarrow> Put env (coins 0) k v db fs | DoDelete k \<Rightarrow> Delete env (coins 0) k db fs | DoWrite rs \<Rightarrow> Write env coins rs db fs)"

definition op_records :: "write_op \<Rightarrow> LogicalRecord list" where
  "op_records op =
     (case op of DoPut k v \<Rightarrow> [\<lparr>LKey = k, LValue = v, LType = logicalTypePut\<rparr>]
      | DoDelete k \<Rightarrow> [\<lparr>LKey = k, LValue = [], LType = logicalTypeDelete\<rparr>] | DoWrite rs \<Rightarrow> rs)"

text \<open>The part of a database that writing leaves alone.\<close>

definition same_rest :: "DB \<Rightarrow> DB \<Rightarrow> bool" where
  "same_rest db db' \<longleftrightarrow> db_version db' = db_version db \<and> db_opts db' = db_opts db \<and> db_nextFileNum db' = db_nextFileNum db \<and>
     db_snapshots db' = db_snapshots db \<and> db_bgErr db' = db_bgErr db"

lemma log_batch_ok:
  assumes "log_batch env batch db fs = (db1, fs1, e)"
  shows "db_versions z db1 fs1 M \<longleftrightarrow> db_versions z db fs M" and "db_nextSeq db1 = db_nextSeq db" and "db_memtable db1 = db_memtable db"
    and "same_rest db db1" and "dbdir fs1 = dbdir fs" and "db_immutables db1 = db_immutables db"
  using log_batch_fields [OF assms] by (auto simp: db_versions_def db_holds_frame same_rest_def)

lemma same_rest_trans: "same_rest a b \<Longrightarrow> same_rest b c \<Longrightarrow> same_rest a c"
  by (simp add: same_rest_def)

lemma same_rest_upd [simp]:
  "same_rest db (db\<lparr>db_memtable := m, db_nextSeq := n\<rparr>)" "same_rest db ((maybe_rotate (db\<lparr>db_memtable := m\<rparr>))\<lparr>db_nextSeq := n\<rparr>)"
  by (simp_all add: same_rest_def maybe_rotate_def rotateMemtableLocked_def)

lemma db_versions_rotate:
  "db_versions z (db\<lparr>db_memtable := m, db_nextSeq := n\<rparr>) fs M \<Longrightarrow> db_versions z ((maybe_rotate (db\<lparr>db_memtable := m\<rparr>))\<lparr>db_nextSeq := n\<rparr>) fs M"
  using db_holds_maybe_rotate [of z "db\<lparr>db_memtable := m\<rparr>" fs M] by (simp add: db_versions_def db_holds_frame)

definition stepped :: "zlib \<Rightarrow> DB \<Rightarrow> entries \<Rightarrow> LogicalRecord list \<Rightarrow> DB \<Rightarrow> Files \<Rightarrow> bool" where
  "stepped z db M rs db' fs' \<longleftrightarrow> same_rest db db' \<and> (\<exists>ims. db_immutables db' = db_immutables db @ ims) \<and> (\<exists>M'. db_versions z db' fs' M' \<and> kv M' = apply_logical rs (kv M) \<and>
     (\<forall>r<db_nextSeq db. kv_at r M' = kv_at r M) \<and> db_nextSeq db \<le> db_nextSeq db')"

lemma insert_version_Panic: "insert_version key seq typ v coins m = Inl x \<Longrightarrow> \<exists>msg. x = Panic msg"
  by (auto simp: insert_version_def bindr_eq_Inl EncodeInternalKey_def Let_def split: if_splits option.splits)

lemma apply_batch_Panic: "apply_batch coins seq rs m = (seq', m', Some x) \<Longrightarrow> \<exists>msg. x = Panic msg"
  by (induction rs arbitrary: seq m) (auto simp: Let_def dest: insert_version_Panic split: sum.splits)

lemma run_write_apply:
  assumes run: "run_write env coins op db fs = (db', fs', e)" and bg: "checkBackgroundError db = None"
    and l: "log_batch env \<lparr>SeqStart = db_nextSeq db, Records = op_records op\<rparr> db fs = (db1, fs1, None)"
    and b: "apply_batch coins (db_nextSeq db1) (op_records op) (db_memtable db1) = (seq, m, e2)"
  shows "e = e2 \<and> fs' = fs1 \<and> (e2 = None \<longrightarrow>
    db' = db1\<lparr>db_memtable := m, db_nextSeq := seq\<rparr> \<or> db' = (maybe_rotate (db1\<lparr>db_memtable := m\<rparr>))\<lparr>db_nextSeq := seq\<rparr>)"
proof (cases op)
  case (DoPut k v)
  then show ?thesis using run bg l b log_batch_ok(2) [OF l]
    by (auto simp: run_write_def op_records_def Put_def logicalTypePut_def logicalTypeDelete_def Let_def split: sum.splits)
next
  case (DoDelete k)
  then show ?thesis using run bg l b log_batch_ok(2) [OF l]
    by (auto simp: run_write_def op_records_def Delete_def Let_def split: sum.splits)
next
  case (DoWrite rs)
  then show ?thesis using run bg l b log_batch_ok(2) [OF l]
    by (auto simp: run_write_def op_records_def Write_def Let_def split: option.splits)
qed

lemma run_write_ok:
  assumes v: "db_versions z db fs M" and run: "run_write env coins op db fs = (db', fs', e)" and e: "\<And>m. e \<noteq> Some (Panic m)"
  shows "stepped z db M (if e = None then op_records op else []) db' fs' \<and> dbdir fs' = dbdir fs"
proof (cases "checkBackgroundError db")
  case (Some err)
  then have "db' = db" "fs' = fs" "e = Some err" using run by (auto simp: run_write_def Put_def Delete_def Write_def split: write_op.splits)
  then show ?thesis using v by (auto simp: stepped_def same_rest_def)
next
  case None
  let ?batch = "\<lparr>SeqStart = db_nextSeq db, Records = op_records op\<rparr>"
  obtain db1 fs1 e1 where l: "log_batch env ?batch db fs = (db1, fs1, e1)" by (cases "log_batch env ?batch db fs") auto
  note l' = log_batch_ok [OF l]
  show ?thesis
  proof (cases e1)
    case (Some err)
    then have "db' = db1" "fs' = fs1" "e = Some err" using run None l
      by (auto simp: run_write_def op_records_def Put_def Delete_def Write_def split: write_op.splits)
    then show ?thesis using v l' by (auto simp: stepped_def)
  next
    case ok: None
    have v1: "db_versions z db1 fs1 M" using v l'(1) by simp
    obtain seq m e2 where b: "apply_batch coins (db_nextSeq db1) (op_records op) (db_memtable db1) = (seq, m, e2)"
      by (cases "apply_batch coins (db_nextSeq db1) (op_records op) (db_memtable db1)") auto
    note res = run_write_apply [OF run None l [unfolded ok] b]
    then have "e2 = None" using apply_batch_Panic b e by (metis option.exhaust)
    with apply_batch_ok [OF v1] b obtain M' where M': "db_versions z (db1\<lparr>db_memtable := m, db_nextSeq := seq\<rparr>) fs1 M'"
      "kv M' = apply_logical (op_records op) (kv M)" "\<forall>r<db_nextSeq db1. kv_at r M' = kv_at r M" "db_nextSeq db1 \<le> seq" by blast
    have "db_versions z db' fs1 M'" using res \<open>e2 = None\<close> M'(1) db_versions_rotate by auto
    moreover have "same_rest db db'" using res \<open>e2 = None\<close> l'(4) by (auto intro: same_rest_trans)
    moreover have "\<exists>ims. db_immutables db' = db_immutables db @ ims"
      using res \<open>e2 = None\<close> l'(6) by (auto simp: maybe_rotate_def rotateMemtableLocked_def)
    ultimately show ?thesis using res \<open>e2 = None\<close> M'(2-4) l'(2,5) by (auto simp: stepped_def)
  qed
qed

end
