(* ===== verification/Flush.thy ===== *)
theory Flush
  imports Engine "HOL-Library.Multiset"
begin

text \<open>
  Package \<^verbatim>\<open>engine\<close>, \<^verbatim>\<open>flush.go\<close> and the flush of \<^verbatim>\<open>db.go\<close>: writing a frozen memtable to a table of level 0 and committing
  it to the version set and the manifest.

  A flush runs in four parts: it takes the oldest frozen memtable and a file number under the lock of the
  database, writes the table without the lock, commits under the lock, and shortens the log after releasing it.  Each part is a definition, so that writes can
  run between them.
\<close>

section \<open>flush.go\<close>

record TableStats =
  st_smallest :: bytes
  st_largest :: bytes
  st_smallestSeq :: u64
  st_largestSeq :: u64
  st_count :: u64
  st_first :: bool

definition no_stats :: TableStats where
  "no_stats = \<lparr>st_smallest = [], st_largest = [], st_smallestSeq = - 1, st_largestSeq = 0, st_count = 0, st_first = True\<rparr>"

definition update_stats :: "bytes \<Rightarrow> TableStats \<Rightarrow> TableStats" where
  "update_stats key st =
     (let seq = trailer_seq key
      in \<lparr>st_smallest = (if st_first st then key else st_smallest st), st_largest = key,
          st_smallestSeq = (if seq < st_smallestSeq st then seq else st_smallestSeq st),
          st_largestSeq = (if seq > st_largestSeq st then seq else st_largestSeq st),
          st_count = st_count st + 1, st_first = False\<rparr>)"

partial_function (option) flush_loop ::
  "'it iter_ops \<Rightarrow> os_env \<Rightarrow> zlib \<Rightarrow> 'it \<Rightarrow> TableStats \<Rightarrow> Builder \<Rightarrow> dir \<Rightarrow> (TableStats \<times> Builder \<times> dir \<times> go_err option) option" where
  "flush_loop ops env z it st b d =
     (if op_Valid ops it then
        (case Builder_Add env z (op_Key ops it) (op_Value ops it) b d of
           (b, d, Some e) \<Rightarrow> Some (st, b, d, Some e)
         | (b, d, None) \<Rightarrow>
             Option.bind (op_Next ops it) (\<lambda>it'. flush_loop ops env z it' (update_stats (op_Key ops it) st) b d))
      else Some (st, b, d, None))"

definition iterator_panic :: go_err where
  "iterator_panic = Panic ''iterator''"

definition flushMemtable :: "os_env \<Rightarrow> zlib \<Rightarrow> Memtable \<Rightarrow> u64 \<Rightarrow> dir \<Rightarrow> dir \<times> SSTableMeta res" where
  "flushMemtable env z mt fileNum d =
     (let filename = sstName fileNum
      in case NewBuilder env filename d of
           (d, Inl e) \<Rightarrow> (d, Inl e)
         | (d, Inr b) \<Rightarrow>
             (case Option.bind (mi_SeekToFirst (NewMemtableIterator mt)) (\<lambda>it. flush_loop mi_ops env z it no_stats b d) of
                None \<Rightarrow> (d, Inl iterator_panic)
              | Some (st, b, d, Some e) \<Rightarrow> (d, Inl e)
              | Some (st, b, d, None) \<Rightarrow>
                  (case Builder_Close env z b d of
                     (b, d, Some e) \<Rightarrow> (d, Inl e)
                   | (b, d, None) \<Rightarrow>
                       (d, Inr \<lparr>FileNum = fileNum, Level = 0,
                          SmallestSeq = (if st_count st = 0 then 0 else st_smallestSeq st), LargestSeq = st_largestSeq st,
                          SmallestKey = st_smallest st, LargestKey = st_largest st,
                          FileSize = (if stat_ok env filename then of_nat (length (data_at d filename)) else 0)\<rparr>))))"

section \<open>db.go: the flush\<close>

definition manifestName :: string where
  "manifestName = ''MANIFEST''"

definition flush_begin :: "DB \<Rightarrow> DB \<times> (Memtable \<times> u64) option" where
  "flush_begin db =
     (case db_immutables db of
        [] \<Rightarrow> (db, None)
      | im # _ \<Rightarrow> (db\<lparr>db_nextFileNum := db_nextFileNum db + 1\<rparr>, Some (im, db_nextFileNum db)))"

text \<open>Shortening the log after a flush: its error is dropped, but a panic of the decoder is caught by the deferred function of \<^verbatim>\<open>MaybeScheduleFlush\<close>, which
  records it as the background error.\<close>

definition truncate_log :: "os_env \<Rightarrow> u64 \<Rightarrow> dir \<Rightarrow> dir \<times> go_err option" where
  "truncate_log env seq wd = (if seq > 0 then Truncate env seq wd else (wd, None))"

definition panicked :: "go_err option \<Rightarrow> go_err option" where
  "panicked e = (case e of Some (Panic m) \<Rightarrow> Some (Panic m) | _ \<Rightarrow> None)"

definition record_panic :: "go_err option \<Rightarrow> DB \<Rightarrow> DB" where
  "record_panic e db = (case panicked e of None \<Rightarrow> db | Some x \<Rightarrow> setBackgroundError x db)"

definition flush_commit :: "(nat \<Rightarrow> os_env) \<Rightarrow> SSTableMeta \<Rightarrow> DB \<Rightarrow> Files \<Rightarrow> DB \<times> Files \<times> go_err option" where
  "flush_commit envs meta db fs =
     (case AddTable meta (db_version db) of
        (v, Some e) \<Rightarrow> (setBackgroundError e (db\<lparr>db_version := v\<rparr>), fs, Some e)
      | (v, None) \<Rightarrow>
          (case Manifest_Append (envs 0) (add_edit meta) manifestName (dbdir fs) of
             (d, Some e) \<Rightarrow> (setBackgroundError e (db\<lparr>db_version := v\<rparr>), fs\<lparr>dbdir := d\<rparr>, Some e)
           | (d, None) \<Rightarrow>
               (case Manifest_Append (envs 1) (cutoff_edit (LargestSeq meta)) manifestName d of
                  (d, Some e) \<Rightarrow> (setBackgroundError e (db\<lparr>db_version := v\<rparr>), fs\<lparr>dbdir := d\<rparr>, Some e)
                | (d, None) \<Rightarrow>
                    (db\<lparr>db_version := SetWALCutoff (LargestSeq meta) v, db_immutables := tl (db_immutables db)\<rparr>, fs\<lparr>dbdir := d\<rparr>, None))))"

definition flush_truncate :: "os_env \<Rightarrow> u64 \<Rightarrow> DB \<Rightarrow> Files \<Rightarrow> DB \<times> Files \<times> go_err option" where
  "flush_truncate env seq db fs =
     (case truncate_log env seq (waldir fs) of (wd, e) \<Rightarrow> (record_panic e db, fs\<lparr>waldir := wd\<rparr>, panicked e))"

text \<open>One turn of the loop in \<^verbatim>\<open>MaybeScheduleFlush\<close>, and the loop when nothing else runs; every turn gets its own faults.\<close>

definition flush_one :: "(nat \<Rightarrow> os_env) \<Rightarrow> zlib \<Rightarrow> DB \<Rightarrow> Files \<Rightarrow> DB \<times> Files \<times> go_err option" where
  "flush_one envs z db fs =
     (case flush_begin db of
        (db, None) \<Rightarrow> (db, fs, None)
      | (db, Some (im, fileNum)) \<Rightarrow>
          (case flushMemtable (envs 3) z im fileNum (dbdir fs) of
             (d, Inl e) \<Rightarrow> (setBackgroundError e db, fs\<lparr>dbdir := d\<rparr>, Some e)
           | (d, Inr meta) \<Rightarrow>
               and_then (flush_commit envs meta db (fs\<lparr>dbdir := d\<rparr>)) (flush_truncate (envs 2) (LargestSeq meta))))"

fun flush_all :: "(nat \<Rightarrow> nat \<Rightarrow> os_env) \<Rightarrow> zlib \<Rightarrow> nat \<Rightarrow> DB \<Rightarrow> Files \<Rightarrow> DB \<times> Files \<times> go_err option" where
  "flush_all envss z 0 db fs = (db, fs, None)"
| "flush_all envss z (Suc n) db fs = and_then (flush_one (envss n) z db fs) (flush_all envss z n)"

section \<open>The table a flush writes\<close>

context internal_iterator
begin

lemma flush_loop_rest:
  assumes "R it es rest"
  shows "\<exists>st'. flush_loop ops env z it st b d = Some (st', add_all env z rest b d) \<and>
    (snd (snd (add_all env z rest b d)) = None \<longrightarrow> st' = fold update_stats (map fst rest) st)"
  using assms
proof (induction rest arbitrary: it st b d)
  case Nil
  then show ?case using valid [OF Nil] by (subst flush_loop.simps) simp
next
  case (Cons e rest)
  note v = valid [OF Cons.prems] key [OF Cons.prems] val [OF Cons.prems]
  obtain it' where it': "op_Next ops it = Some it'" "R it' es rest" using next_ok [OF Cons.prems] by blast
  obtain b1 d1 e1 where a: "Builder_Add env z (fst e) (snd e) b d = (b1, d1, e1)" by (cases "Builder_Add env z (fst e) (snd e) b d") auto
  show ?case
  proof (cases e1)
    case None
    then have "flush_loop ops env z it st b d = flush_loop ops env z it' (update_stats (fst e) st) b1 d1"
      using v it'(1) a by (subst flush_loop.simps) simp
    then show ?thesis using Cons.IH [OF it'(2), of "update_stats (fst e) st" b1 d1] a None by (cases e) auto
  next
    case (Some x)
    then show ?thesis using v a by (subst flush_loop.simps) (cases e, simp)
  qed
qed

end

lemma flushMemtable_table:
  assumes "mem_holds mt es" and "flushMemtable env z mt n d = (d', Inr meta)"
  shows "build_table env z (sstName n) es d = (d', None)"
    and "FileNum meta = n" and "Level meta = 0" and "SmallestKey meta = st_smallest (fold update_stats (map fst es) no_stats)"
    and "LargestKey meta = st_largest (fold update_stats (map fst es) no_stats)"
    and "LargestSeq meta = st_largestSeq (fold update_stats (map fst es) no_stats)"
proof -
  let ?st = "fold update_stats (map fst es) no_stats"
  have "mi_rep (NewMemtableIterator mt) es []" using assms(1) NewMemtableIterator_rep by (auto simp: mem_holds_def)
  from mem_iter.seek [OF this] obtain it where it: "mi_SeekToFirst (NewMemtableIterator mt) = Some it" "mi_rep it es es"
    by (auto simp: mi_ops_def)
  obtain d1 b where n: "NewBuilder env (sstName n) d = (d1, Inr b)"
    using assms(2) by (cases "NewBuilder env (sstName n) d") (auto simp: flushMemtable_def Let_def split: sum.splits)
  obtain b2 d2 e2 where a: "add_all env z es b d1 = (b2, d2, e2)" by (cases "add_all env z es b d1") auto
  from mem_iter.flush_loop_rest [OF it(2), of env z no_stats b d1]
  obtain st where st: "flush_loop mi_ops env z it no_stats b d1 = Some (st, b2, d2, e2)" "e2 = None \<longrightarrow> st = ?st" by (auto simp: a)
  have e2: "e2 = None" using assms(2) n it(1) st(1) by (cases e2) (auto simp: flushMemtable_def Let_def)
  obtain b3 d3 e3 where c: "Builder_Close env z b2 d2 = (b3, d3, e3)" by (cases "Builder_Close env z b2 d2") auto
  have e3: "e3 = None" using assms(2) n it(1) st(1) e2 c by (cases e3) (auto simp: flushMemtable_def Let_def)
  show "build_table env z (sstName n) es d = (d', None)"
    "FileNum meta = n" "Level meta = 0" "SmallestKey meta = st_smallest ?st" "LargestKey meta = st_largest ?st" "LargestSeq meta = st_largestSeq ?st"
    using assms(2) n it(1) st e2 c e3 a by (auto simp: flushMemtable_def Let_def build_table_def)
qed

lemma flushMemtable_dir:
  assumes "mem_holds mt es" and "flushMemtable env z mt n d = (d', r)"
  shows "(q \<noteq> sstName n \<longrightarrow> map_of d' q = map_of d q) \<and> (map_of d' q = Some DirE \<longrightarrow> map_of d q = Some DirE)"
proof (cases "NewBuilder env (sstName n) d")
  case (Pair d1 r1)
  show ?thesis
  proof (cases r1)
    case (Inl x)
    then have "d' = d" using Pair assms(2) by (auto simp: flushMemtable_def NewBuilder_def Let_def split: if_splits)
    then show ?thesis by simp
  next
    case (Inr b)
    have d1: "b_file b = sstName n" "d1 = file_truncate (sstName n) d" using NewBuilder_rep Pair Inr by auto
    have "mi_rep (NewMemtableIterator mt) es []" using assms(1) NewMemtableIterator_rep by (auto simp: mem_holds_def)
    from mem_iter.seek [OF this] obtain it where it: "mi_SeekToFirst (NewMemtableIterator mt) = Some it" "mi_rep it es es"
      by (auto simp: mi_ops_def)
    obtain b2 d2 e2 where a: "add_all env z es b d1 = (b2, d2, e2)" by (cases "add_all env z es b d1")
    obtain st where st: "flush_loop mi_ops env z it no_stats b d1 = Some (st, b2, d2, e2)"
      using mem_iter.flush_loop_rest [OF it(2), of env z no_stats b d1] by (auto simp: a)
    obtain b3 d3 e3 where c: "Builder_Close env z b2 d2 = (b3, d3, e3)" by (cases "Builder_Close env z b2 d2")
    have "touches b d1 b2 d2" "touches b d1 b3 d3" using touches_add_all [OF a] touches_Close [OF c] touches_trans by blast+
    moreover have "d' = d2 \<or> d' = d3"
      using assms(2) Pair Inr it(1) st c by (cases e2; cases e3) (auto simp: flushMemtable_def Let_def)
    ultimately show ?thesis using d1 by (auto simp: touches_def map_of_truncate split: if_splits)
  qed
qed

lemma flushMemtable_other: "mem_holds mt es \<Longrightarrow> flushMemtable env z mt n d = (d', r) \<Longrightarrow> q \<noteq> sstName n \<Longrightarrow> map_of d' q = map_of d q"
  using flushMemtable_dir by blast

lemma stats_facts:
  "ks \<noteq> [] \<Longrightarrow> st_smallest (fold update_stats ks no_stats) = hd ks \<and> st_largest (fold update_stats ks no_stats) = last ks \<and>
    \<not> st_first (fold update_stats ks no_stats)"
proof (induction ks rule: rev_induct)
  case (snoc k ks)
  then show ?case by (cases "ks = []") (auto simp: update_stats_def no_stats_def Let_def)
qed simp

lemma stats_seq:
  "k \<in> set ks \<Longrightarrow> trailer_seq k \<le> st_largestSeq (fold update_stats ks no_stats)"
  by (induction ks rule: rev_induct) (auto simp: update_stats_def Let_def)

lemma stats_seq_least:
  "\<forall>k\<in>set ks. trailer_seq k < n \<Longrightarrow> 0 < n \<Longrightarrow> st_largestSeq (fold update_stats ks no_stats) < n"
  by (induction ks rule: rev_induct) (auto simp: update_stats_def no_stats_def Let_def)

lemma sorted_user_range:
  assumes "sorted_entries es" and "e \<in> set es"
  shows "ExtractUserKey (fst (hd es)) \<le> ExtractUserKey (fst e)" and "ExtractUserKey (fst e) \<le> ExtractUserKey (fst (last es))"
proof -
  have le: "ExtractUserKey (fst a) \<le> ExtractUserKey (fst b)" if "a = b \<or> ikey_less (fst a) (fst b)" for a b
    using that user_le by auto
  obtain xs ys where es: "es = xs @ e # ys" using assms(2) by (metis split_list)
  show "ExtractUserKey (fst (hd es)) \<le> ExtractUserKey (fst e)" using assms(1) es by (cases xs) (auto intro!: le)
  show "ExtractUserKey (fst e) \<le> ExtractUserKey (fst (last es))"
    using assms(1) es by (cases ys rule: rev_cases) (auto simp: sorted_wrt_append intro!: le)
qed

lemma built_table_holds:
  assumes es: "sorted_entries es" "wf_entries es" and b: "build_table env z (sstName (FileNum meta)) es d = (d', None)" and z: "zlib_inverse z" and c: "cost es < 2 ^ 31"
    and m: "SmallestKey meta = st_smallest (fold update_stats (map fst es) no_stats)" "LargestKey meta = st_largest (fold update_stats (map fst es) no_stats)"
      "LargestSeq meta = st_largestSeq (fold update_stats (map fst es) no_stats)"
  shows "table_holds z d' meta es"
proof -
  obtain bs flt x where b: "blocks_ok z bs flt" "concat bs = es" "file_at d' (sstName (FileNum meta)) = Some x" "fdata x = table_bytes z bs flt"
    using built_blocks_ok [OF b z c] by blast
  have "\<not> out_of_range (ExtractUserKey (fst e)) meta" if "e \<in> set es" for e
  proof -
    have ne: "es \<noteq> []" using that by auto
    then have "SmallestKey meta = fst (hd es)" "LargestKey meta = fst (last es)"
      using m(1,2) stats_facts [of "map fst es"] by (simp_all add: hd_map last_map)
    then show ?thesis using sorted_user_range [OF es(1) that] by (simp add: out_of_range_def bytes_Compare_less bytes_Compare_greater not_less)
  qed
  moreover have "\<forall>e\<in>set es. trailer_seq (fst e) \<le> LargestSeq meta" using stats_seq [of _ "map fst es"] m(3) by simp
  ultimately show ?thesis using b es unfolding table_holds_def by blast
qed

lemma flushMemtable_holds:
  assumes m: "mem_holds mt es" and f: "flushMemtable env z mt n d = (d', Inr meta)" and z: "zlib_inverse z" and c: "cost es < 2 ^ 31"
  shows "table_holds z d' meta es" and "\<forall>q. q \<noteq> sstName n \<longrightarrow> file_at d' q = file_at d q"
proof -
  note t = flushMemtable_table [OF m f]
  have "sorted_entries es" "wf_entries es" using m mem_rep_sorted by (auto simp: mem_holds_def)
  then show "table_holds z d' meta es" using t by (intro built_table_holds [OF _ _ _ z c]) auto
  show "\<forall>q. q \<noteq> sstName n \<longrightarrow> file_at d' q = file_at d q" using build_table_bytes [OF t(1)] by blast
qed

section \<open>A flush keeps the versions\<close>

lemma num_of_digits_zeros: "num_of_digits 0 (replicate n (CHR ''0'') @ ds) = num_of_digits 0 ds"
  by (induction n) simp_all

lemma Sprintf_06d_num: "num_of_digits 0 (Sprintf_06d n) = n"
  by (simp add: Sprintf_06d_def num_of_digits_zeros num_of_decimal)

lemma sstName_inj: "sstName m = sstName n \<longleftrightarrow> m = n"
  by (metis Sprintf_06d_num append_same_eq sstName_def unsigned_word_eqI)

lemma sstName_manifest: "sstName n \<noteq> manifestName"
proof
  assume "sstName n = manifestName"
  then have "last (sstName n) = last manifestName" by simp
  then show False by (simp add: sstName_def manifestName_def)
qed

lemma table_holds_frame:
  "file_at d' (sstName (FileNum meta)) = file_at d (sstName (FileNum meta)) \<Longrightarrow> table_holds z d' meta es = table_holds z d meta es"
  by (simp add: table_holds_def)

lemma tables_frame:
  assumes "list_all2 (table_holds z d) metas tss"
    and "\<forall>t\<in>set metas. file_at d' (sstName (FileNum t)) = file_at d (sstName (FileNum t))"
  shows "list_all2 (table_holds z d') metas tss"
  using assms(1) by (elim list.rel_mono_strong) (use assms(2) in \<open>simp add: table_holds_def\<close>)

lemma Manifest_Append_other: "q \<noteq> p \<Longrightarrow> map_of (fst (Manifest_Append env rec p d)) q = map_of d q"
  by (simp add: Manifest_Append_def map_of_write map_of_sync split: sum.splits option.splits)

lemma mset_AddTable:
  assumes "length (Levels v) = NumLevels" and "AddTable meta v = (v', None)"
  shows "mset (GetAllTables v') = add_mset meta (mset (GetAllTables v))" and "length (Levels v') = NumLevels"
proof -
  let ?l = "unat (Level meta)"
  have l: "?l < length (Levels v)" using assms by (auto simp: AddTable_def split: if_splits)
  then obtain fs where v': "v' = v\<lparr>Levels := (Levels v)[?l := fs]\<rparr>" and fs: "mset fs = add_mset meta (mset (Levels v ! ?l))"
    using assms(2) by (auto simp: AddTable_def Let_def split: if_splits)
  have ls: "Levels v = take ?l (Levels v) @ Levels v ! ?l # drop (Suc ?l) (Levels v)" using l by (rule id_take_nth_drop)
  have "mset (GetAllTables v') = mset (concat (take ?l (Levels v) @ fs # drop (Suc ?l) (Levels v)))"
    using l v' by (simp add: GetAllTables_def upd_conv_take_nth_drop)
  also have "\<dots> = add_mset meta (mset (concat (take ?l (Levels v) @ Levels v ! ?l # drop (Suc ?l) (Levels v))))"
    using fs by simp
  also have "\<dots> = add_mset meta (mset (GetAllTables v))" unfolding GetAllTables_def by (metis ls)
  finally show "mset (GetAllTables v') = add_mset meta (mset (GetAllTables v))" .
  show "length (Levels v') = NumLevels" using assms(1) v' by simp
qed

lemma db_holds_flushed:
  assumes h: "db_holds z db fs M" and im: "db_immutables db = im # ims"
    and t: "\<And>es. mem_holds im es \<Longrightarrow> table_holds z (dbdir fs) meta es"
    and v': "mset (GetAllTables v') = add_mset meta (mset (GetAllTables (db_version db)))"
  shows "db_holds z (db\<lparr>db_version := v'\<rparr>) fs M" and "db_holds z (db\<lparr>db_version := v', db_immutables := ims\<rparr>) fs M"
proof -
  obtain es0 es mss tss where m: "sorted_entries M" "wf_entries M" "mem_holds (db_memtable db) es0" "mem_holds im es"
    "list_all2 mem_holds ims mss" "list_all2 (table_holds z (dbdir fs)) (GetAllTables (db_version db)) tss"
    "set (concat ((es0 # es # mss) @ tss)) = set M"
    using h im unfolding db_holds_def by (fastforce simp: list_all2_Cons1)
  have "list_all2 (table_holds z (dbdir fs)) (meta # GetAllTables (db_version db)) (es # tss)" using t m(4,6) by simp
  moreover have "mset (GetAllTables v') = mset (meta # GetAllTables (db_version db))" using v' by simp
  ultimately obtain tss' where t': "list_all2 (table_holds z (dbdir fs)) (GetAllTables v') tss'" "mset tss' = mset (es # tss)"
    using list_all2_reorder_left_invariance by blast
  have set: "set tss' = set (es # tss)" using t'(2) by (rule mset_eq_setD)
  show "db_holds z (db\<lparr>db_version := v'\<rparr>) fs M"
    using m(1-5) t'(1) im unfolding db_holds_def
    by (intro conjI exI [of _ "es0 # es # mss"] exI [of _ tss']) (use m(7) set in auto)
  show "db_holds z (db\<lparr>db_version := v', db_immutables := ims\<rparr>) fs M"
    using m(1-5) t'(1) unfolding db_holds_def
    by (intro conjI exI [of _ "es0 # mss"] exI [of _ tss']) (use m(7) set in auto)
qed

lemma db_holds_dir:
  assumes "db_holds z db fs M"
    and "\<And>t. t \<in> set (GetAllTables (db_version db)) \<Longrightarrow> file_at (dbdir fs') (sstName (FileNum t)) = file_at (dbdir fs) (sstName (FileNum t))"
  shows "db_holds z db fs' M"
  using assms(1) tables_frame [of z "dbdir fs" "GetAllTables (db_version db)" _ "dbdir fs'"] assms(2) unfolding db_holds_def by blast

section \<open>A flush without faults\<close>

lemma mem_holds_unique:
  assumes "mem_holds m es" and "mem_holds m fs"
  shows "es = fs"
proof -
  let ?n = "max (length es) (length fs)"
  have "mi_rep (NewMemtableIterator m) es []" "mi_rep (NewMemtableIterator m) fs []"
    using assms NewMemtableIterator_rep by (auto simp: mem_holds_def)
  from mem_iter.seek_drain [OF this(1), of ?n] mem_iter.seek_drain [OF this(2), of ?n] show ?thesis by simp
qed

lemma flushMemtable_succeeds:
  assumes "mem_holds mt es" and "length es \<le> 2 ^ 28" and "map_of d (sstName n) \<noteq> Some DirE"
  shows "\<exists>d' meta. flushMemtable no_faults z mt n d = (d', Inr meta)"
proof -
  obtain d' where b: "build_table no_faults z (sstName n) es d = (d', None)" using build_table_succeeds [OF assms(2,3)] by blast
  then obtain d1 b where n: "NewBuilder no_faults (sstName n) d = (d1, Inr b)"
    by (cases "NewBuilder no_faults (sstName n) d") (auto simp: build_table_def split: sum.splits)
  with b have "snd (and_then (add_all no_faults z es b d1) (Builder_Close no_faults z)) = (d', None)" by (simp add: build_table_def)
  then obtain b4 where "and_then (add_all no_faults z es b d1) (Builder_Close no_faults z) = (b4, d', None)" by (metis prod.collapse)
  then obtain b2 d2 where a: "add_all no_faults z es b d1 = (b2, d2, None)" and c: "Builder_Close no_faults z b2 d2 = (b4, d', None)"
    by (auto simp: and_then_None)
  have "mi_rep (NewMemtableIterator mt) es []" using assms(1) NewMemtableIterator_rep by (auto simp: mem_holds_def)
  from mem_iter.seek [OF this] obtain it where it: "mi_SeekToFirst (NewMemtableIterator mt) = Some it" "mi_rep it es es"
    by (auto simp: mi_ops_def)
  then obtain st where "flush_loop mi_ops no_faults z it no_stats b d1 = Some (st, b2, d2, None)"
    using mem_iter.flush_loop_rest [OF it(2), of no_faults z no_stats b d1] a by auto
  then show ?thesis using n it(1) c by (simp add: flushMemtable_def Let_def)
qed

lemma Manifest_Append_edit:
  "\<exists>d'. Manifest_Append no_faults (add_edit meta) p d = (d', None)" "\<exists>d'. Manifest_Append no_faults (cutoff_edit seq) p d = (d', None)"
proof -
  have "\<exists>raw. Manifest_EncodeRecord (add_edit meta) = Inr raw" "\<exists>raw. Manifest_EncodeRecord (cutoff_edit seq) = Inr raw"
    by (simp_all add: Manifest_EncodeRecord_eq encode_data_def add_edit_def cutoff_edit_def)
  then show "\<exists>d'. Manifest_Append no_faults (add_edit meta) p d = (d', None)" "\<exists>d'. Manifest_Append no_faults (cutoff_edit seq) p d = (d', None)"
    by (auto simp: Manifest_Append_def)
qed

lemma truncate_log_readable: "log_readable wd \<Longrightarrow> panicked (snd (truncate_log env seq wd)) = None"
  using Truncate_readable [of wd env seq] by (auto simp: truncate_log_def panicked_def split: option.splits go_err.splits)

lemma flush_truncate_readable:
  "log_readable (waldir fs) \<Longrightarrow> flush_truncate env seq db fs = (db, fs\<lparr>waldir := fst (truncate_log env seq (waldir fs))\<rparr>, None)"
  using truncate_log_readable [of "waldir fs" env seq] 
  by (cases "truncate_log env seq (waldir fs)") (simp add: flush_truncate_def record_panic_def)

lemma flush_truncate_frame:
  assumes "flush_truncate env seq db fs = (db', fs', e)"
  shows "\<exists>bg. db' = db\<lparr>db_bgErr := bg\<rparr> \<and> fs' = fs\<lparr>waldir := fst (truncate_log env seq (waldir fs))\<rparr>"
proof -
  obtain wd x where "truncate_log env seq (waldir fs) = (wd, x)" by (cases "truncate_log env seq (waldir fs)")
  then show ?thesis using assms
    by (intro exI [of _ "db_bgErr db'"]) (auto simp: flush_truncate_def record_panic_def setBackgroundError_def split: option.splits)
qed

lemma flush_commit_succeeds:
  assumes "Level meta = 0"
  shows "\<exists>v d. flush_commit (\<lambda>_. no_faults) meta db fs = (db\<lparr>db_version := v, db_immutables := tl (db_immutables db)\<rparr>, fs\<lparr>dbdir := d\<rparr>, None)"
proof -
  obtain v where "AddTable meta (db_version db) = (v, None)" using assms(1) by (simp add: AddTable_def NumLevels_def Let_def)
  moreover obtain d1 where "Manifest_Append no_faults (add_edit meta) manifestName (dbdir fs) = (d1, None)" using Manifest_Append_edit by blast
  moreover obtain d2 where "Manifest_Append no_faults (cutoff_edit (LargestSeq meta)) manifestName d1 = (d2, None)" using Manifest_Append_edit by blast
  ultimately show ?thesis by (auto simp: flush_commit_def intro: exI [of _ "SetWALCutoff (LargestSeq meta) v"])
qed

section \<open>Properties\<close>

text \<open>C16. Without faults a flush makes progress: when a frozen memtable is waiting, one turn of the flush loop returns no error, takes the oldest
  one off the queue, records no background error and keeps the active memtable.  A memtable may have up to 2^28 entries; the log must not make
  its decoder panic.\<close>

theorem flush_makes_progress:
  assumes "db_immutables db = im # ims" and "mem_holds im es" and "length es \<le> 2 ^ 28"
    and "map_of (dbdir fs) (sstName (db_nextFileNum db)) \<noteq> Some DirE" and "log_readable (waldir fs)"
  shows "\<exists>db' fs'. flush_one (\<lambda>_. no_faults) z db fs = (db', fs', None) \<and> db_immutables db' = ims \<and> db_bgErr db' = db_bgErr db \<and>
    db_memtable db' = db_memtable db"
proof -
  obtain d meta where f: "flushMemtable no_faults z im (db_nextFileNum db) (dbdir fs) = (d, Inr meta)"
    using flushMemtable_succeeds [OF assms(2-4)] by blast
  let ?db = "db\<lparr>db_nextFileNum := db_nextFileNum db + 1\<rparr>"
  obtain v d' where "flush_commit (\<lambda>_. no_faults) meta ?db (fs\<lparr>dbdir := d\<rparr>) =
      (?db\<lparr>db_version := v, db_immutables := tl (db_immutables ?db)\<rparr>, fs\<lparr>dbdir := d\<rparr>\<lparr>dbdir := d'\<rparr>, None)"
    using flush_commit_succeeds [OF flushMemtable_table(3) [OF assms(2) f]] by blast
  then show ?thesis using assms(1,5) f flush_truncate_readable [of "fs\<lparr>dbdir := d'\<rparr>"] by (simp add: flush_one_def flush_begin_def and_then_def)
qed

theorem flush_makes_progress_witness:
  "\<exists>m db' fs'. Memtable_Insert Memtable_New [107, 1, 9, 0, 0, 0, 0, 0, 0] [1] (\<lambda>_. False) = Some m \<and>
     flush_one (\<lambda>_. no_faults) plain_zlib
       \<lparr>db_wal = \<lparr>maxSegmentSz = 0, active = None, activeNum = 0, segments = []\<rparr>, db_memtable = Memtable_New, db_immutables = [m],
        db_version = NewVersionSet, db_nextSeq = 10, db_opts = DefaultConfig, db_nextFileNum = 1, db_snapshots = no_snapshots, db_bgErr = None\<rparr>
       \<lparr>dbdir = [], waldir = []\<rparr> = (db', fs', None) \<and> db_immutables db' = []"
proof -
  let ?k = "[107, 1, 9, 0, 0, 0, 0, 0, 0] :: bytes"
  obtain m where m: "Memtable_Insert Memtable_New ?k [1] (\<lambda>_. False) = Some m" "mem_rep m (upd_entry ?k [1] [])"
    using mem_rep_Insert [OF mem_rep_New] by blast
  have "mem_holds m [(?k, [1])]" using m(2) by (simp add: mem_holds_def wf_ikey_def)
  let ?db = "\<lparr>db_wal = \<lparr>maxSegmentSz = 0, active = None, activeNum = 0, segments = []\<rparr>, db_memtable = Memtable_New, db_immutables = [m],
    db_version = NewVersionSet, db_nextSeq = 10, db_opts = DefaultConfig, db_nextFileNum = 1, db_snapshots = no_snapshots, db_bgErr = None\<rparr>"
  have "db_immutables ?db = m # []" by simp
  from flush_makes_progress [OF this \<open>mem_holds m [(?k, [1])]\<close>, of "\<lparr>dbdir = [], waldir = []\<rparr>" plain_zlib] m(1)
  show ?thesis by (auto simp: log_readable_def wal_names_def ReadDir_def)
qed

end
