(* ===== verification/Engine_Run.thy ===== *)
theory Engine_Run
  imports Flush
begin

text \<open>
  The running engine as a transition system.  A step is a write with any outcome but a panic, freezing the memtable, taking or releasing
  a snapshot, or one of the parts of a flush; the faults of the system calls and the coin flips of the skip list are
  arbitrary in each step, and writes may come between the parts of a flush, as the lock \<^verbatim>\<open>db.mu\<close> allows.  Each step is labelled with the records it
  made visible.

  The simulation: in every reachable state the memtables and tables hold a version list whose newest versions are exactly the effect
  of the labels, in order.  Reads, range scans and reads at a snapshot follow from it.
\<close>

section \<open>Steps\<close>

datatype flush_state = Idle | Begun Memtable u64 | Written Memtable SSTableMeta | Committed u64

record Sys =
  sys_db :: DB
  sys_fs :: Files
  sys_flush :: flush_state

text \<open>Tables are shown to read back up to 2 GiB of entries.  File numbers do not wrap around before 2^64 flushes.\<close>

definition small_memtable :: "Memtable \<Rightarrow> bool" where
  "small_memtable m \<longleftrightarrow> (\<forall>es. mem_holds m es \<longrightarrow> cost es < 2 ^ 31)"

inductive sys_step :: "zlib \<Rightarrow> Sys \<Rightarrow> LogicalRecord list \<Rightarrow> Sys \<Rightarrow> bool" for z where
  wr: "run_write env coins op db fs = (db', fs', e) \<Longrightarrow> (\<And>m. e \<noteq> Some (Panic m)) \<Longrightarrow>
    sys_step z \<lparr>sys_db = db, sys_fs = fs, sys_flush = fl\<rparr> (if e = None then op_records op else [])
      \<lparr>sys_db = db', sys_fs = fs', sys_flush = fl\<rparr>"
| freeze: "sys_step z \<lparr>sys_db = db, sys_fs = fs, sys_flush = fl\<rparr> [] \<lparr>sys_db = rotateMemtableLocked db, sys_fs = fs, sys_flush = fl\<rparr>"
| snap: "sys_step z \<lparr>sys_db = db, sys_fs = fs, sys_flush = fl\<rparr> []
      \<lparr>sys_db = db\<lparr>db_snapshots := fst (GetSnapshot (db_nextSeq db) (db_snapshots db))\<rparr>, sys_fs = fs, sys_flush = fl\<rparr>"
| release: "sys_step z \<lparr>sys_db = db, sys_fs = fs, sys_flush = fl\<rparr> []
      \<lparr>sys_db = db\<lparr>db_snapshots := ReleaseSnapshot s (db_snapshots db)\<rparr>, sys_fs = fs, sys_flush = fl\<rparr>"
| start: "flush_begin db = (db', Some (im, n)) \<Longrightarrow> db_nextFileNum db < db_nextFileNum db + 1 \<Longrightarrow>
    sys_step z \<lparr>sys_db = db, sys_fs = fs, sys_flush = Idle\<rparr> [] \<lparr>sys_db = db', sys_fs = fs, sys_flush = Begun im n\<rparr>"
| table: "flushMemtable env z im n (dbdir fs) = (d, Inr meta) \<Longrightarrow> small_memtable im \<Longrightarrow>
    sys_step z \<lparr>sys_db = db, sys_fs = fs, sys_flush = Begun im n\<rparr> []
      \<lparr>sys_db = db, sys_fs = fs\<lparr>dbdir := d\<rparr>, sys_flush = Written im meta\<rparr>"
| table_fails: "flushMemtable env z im n (dbdir fs) = (d, Inl e) \<Longrightarrow>
    sys_step z \<lparr>sys_db = db, sys_fs = fs, sys_flush = Begun im n\<rparr> []
      \<lparr>sys_db = setBackgroundError e db, sys_fs = fs\<lparr>dbdir := d\<rparr>, sys_flush = Idle\<rparr>"
| commit: "flush_commit envs meta db fs = (db', fs', e) \<Longrightarrow>
    sys_step z \<lparr>sys_db = db, sys_fs = fs, sys_flush = Written im meta\<rparr> []
      \<lparr>sys_db = db', sys_fs = fs', sys_flush = (if e = None then Committed (LargestSeq meta) else Idle)\<rparr>"
| truncate: "flush_truncate env seq db fs = (db', fs', e) \<Longrightarrow>
    sys_step z \<lparr>sys_db = db, sys_fs = fs, sys_flush = Committed seq\<rparr> [] \<lparr>sys_db = db', sys_fs = fs', sys_flush = Idle\<rparr>"

inductive sys_run :: "zlib \<Rightarrow> Sys \<Rightarrow> LogicalRecord list \<Rightarrow> Sys \<Rightarrow> bool" for z where
  refl: "sys_run z s [] s"
| step: "sys_run z s rs s1 \<Longrightarrow> sys_step z s1 rs' s2 \<Longrightarrow> sys_run z s (rs @ rs') s2"

definition empty_sys :: "Sys \<Rightarrow> bool" where
  "empty_sys s \<longleftrightarrow> sys_flush s = Idle \<and> db_memtable (sys_db s) = Memtable_New \<and> db_immutables (sys_db s) = [] \<and>
     db_version (sys_db s) = NewVersionSet \<and> db_nextSeq (sys_db s) = 1"

section \<open>The invariant\<close>

definition flush_inv :: "zlib \<Rightarrow> DB \<Rightarrow> Files \<Rightarrow> flush_state \<Rightarrow> bool" where
  "flush_inv z db fs fl \<longleftrightarrow>
     (case fl of
        Idle \<Rightarrow> True
      | Begun im n \<Rightarrow> (\<exists>ims. db_immutables db = im # ims) \<and> n < db_nextFileNum db \<and> n \<notin> FileNum ` set (GetAllTables (db_version db))
      | Written im meta \<Rightarrow> (\<exists>ims. db_immutables db = im # ims) \<and> FileNum meta < db_nextFileNum db \<and>
          FileNum meta \<notin> FileNum ` set (GetAllTables (db_version db)) \<and> Level meta = 0 \<and>
          (\<forall>es. mem_holds im es \<longrightarrow> table_holds z (dbdir fs) meta es)
      | Committed seq \<Rightarrow> True)"

definition sys_inv :: "zlib \<Rightarrow> Sys \<Rightarrow> entries \<Rightarrow> bool" where
  "sys_inv z s M \<longleftrightarrow> db_versions z (sys_db s) (sys_fs s) M \<and> length (Levels (db_version (sys_db s))) = NumLevels \<and>
     (\<forall>t\<in>set (GetAllTables (db_version (sys_db s))). FileNum t < db_nextFileNum (sys_db s)) \<and>
     flush_inv z (sys_db s) (sys_fs s) (sys_flush s)"

lemma sys_inv_empty: "empty_sys s \<Longrightarrow> sys_inv z s []"
proof -
  assume e: "empty_sys s"
  have "db_holds z (sys_db s) (sys_fs s) []" using e mem_rep_New unfolding db_holds_def
    by (intro conjI exI [of _ "[[]]"] exI [of _ "[]"]) (auto simp: empty_sys_def mem_holds_def NewVersionSet_def GetAllTables_def)
  then show ?thesis using e by (auto simp: empty_sys_def sys_inv_def db_versions_def flush_inv_def NewVersionSet_def GetAllTables_def)
qed

lemma flush_inv_frame:
  assumes "flush_inv z db fs fl" and "db_immutables db' = db_immutables db @ ims" and "db_version db' = db_version db"
    and "db_nextFileNum db' = db_nextFileNum db" and "dbdir fs' = dbdir fs"
  shows "flush_inv z db' fs' fl"
  using assms by (auto simp: flush_inv_def split: flush_state.splits)

text \<open>One step of the simulation.\<close>

definition simulates :: "zlib \<Rightarrow> Sys \<Rightarrow> entries \<Rightarrow> LogicalRecord list \<Rightarrow> Sys \<Rightarrow> bool" where
  "simulates z s M rs s' \<longleftrightarrow> (\<exists>M'. sys_inv z s' M' \<and> kv M' = apply_logical rs (kv M) \<and>
     (\<forall>r<db_nextSeq (sys_db s). kv_at r M' = kv_at r M)) \<and> db_nextSeq (sys_db s) \<le> db_nextSeq (sys_db s')"

lemma simulates_same: "sys_inv z s' M \<Longrightarrow> db_nextSeq (sys_db s') = db_nextSeq (sys_db s) \<Longrightarrow> simulates z s M [] s'"
  by (auto simp: simulates_def)

lemma sim_write:
  assumes inv: "sys_inv z \<lparr>sys_db = db, sys_fs = fs, sys_flush = fl\<rparr> M"
    and w: "run_write env coins op db fs = (db', fs', e)" "\<And>m. e \<noteq> Some (Panic m)"
  shows "simulates z \<lparr>sys_db = db, sys_fs = fs, sys_flush = fl\<rparr> M (if e = None then op_records op else [])
    \<lparr>sys_db = db', sys_fs = fs', sys_flush = fl\<rparr>"
proof -
  have v: "db_versions z db fs M" using inv by (simp add: sys_inv_def)
  have s: "stepped z db M (if e = None then op_records op else []) db' fs'" and d: "dbdir fs' = dbdir fs"
    using run_write_ok [OF v w] by auto
  obtain M' ims where M': "db_versions z db' fs' M'" "kv M' = apply_logical (if e = None then op_records op else []) (kv M)"
    "\<forall>r<db_nextSeq db. kv_at r M' = kv_at r M" "db_nextSeq db \<le> db_nextSeq db'" "same_rest db db'" "db_immutables db' = db_immutables db @ ims"
    using s unfolding stepped_def by blast
  have "flush_inv z db' fs' fl"
    by (rule flush_inv_frame [of z db fs fl db' ims fs']) (use inv M'(5,6) d in \<open>auto simp: sys_inv_def same_rest_def\<close>)
  then have "sys_inv z \<lparr>sys_db = db', sys_fs = fs', sys_flush = fl\<rparr> M'" using inv M'(1,5) by (simp add: sys_inv_def same_rest_def)
  then show ?thesis using M'(2-4) by (auto simp: simulates_def)
qed

lemma sys_inv_dir:
  assumes "sys_inv z \<lparr>sys_db = db, sys_fs = fs, sys_flush = Begun im n\<rparr> M" and "\<And>q. q \<noteq> sstName n \<Longrightarrow> file_at d q = file_at (dbdir fs) q"
  shows "db_versions z db (fs\<lparr>dbdir := d\<rparr>) M"
proof -
  have h: "db_holds z db fs M" "\<forall>e\<in>set M. trailer_seq (fst e) < db_nextSeq db" "n \<notin> FileNum ` set (GetAllTables (db_version db))"
    using assms(1) by (auto simp: sys_inv_def db_versions_def flush_inv_def)
  have "db_holds z db (fs\<lparr>dbdir := d\<rparr>) M" using h(1)
  proof (rule db_holds_dir)
    fix t assume "t \<in> set (GetAllTables (db_version db))"
    then have "sstName (FileNum t) \<noteq> sstName n" using h(3) by (auto simp: sstName_inj)
    then show "file_at (dbdir (fs\<lparr>dbdir := d\<rparr>)) (sstName (FileNum t)) = file_at (dbdir fs) (sstName (FileNum t))" by (simp add: assms(2))
  qed
  then show ?thesis using h(2) by (simp add: db_versions_def)
qed

lemma sys_inv_begun:
  assumes "sys_inv z \<lparr>sys_db = db, sys_fs = fs, sys_flush = Begun im n\<rparr> M"
  obtains es where "mem_holds im es"
  using assms by (auto simp: sys_inv_def flush_inv_def db_versions_def db_holds_def list_all2_Cons1)

lemma sim_table:
  assumes inv: "sys_inv z \<lparr>sys_db = db, sys_fs = fs, sys_flush = Begun im n\<rparr> M" and z: "zlib_inverse z"
    and f: "flushMemtable env z im n (dbdir fs) = (d, Inr meta)" and small: "small_memtable im"
  shows "sys_inv z \<lparr>sys_db = db, sys_fs = fs\<lparr>dbdir := d\<rparr>, sys_flush = Written im meta\<rparr> M"
proof -
  obtain es where es: "mem_holds im es" using inv by (rule sys_inv_begun)
  have "table_holds z d meta xs" if "mem_holds im xs" for xs
    using flushMemtable_holds(1) [OF that f z] small that by (auto simp: small_memtable_def)
  moreover have "db_versions z db (fs\<lparr>dbdir := d\<rparr>) M" using sys_inv_dir [OF inv] flushMemtable_other [OF es f] file_at_cong by blast
  ultimately show ?thesis using inv flushMemtable_table(2,3) [OF es f] by (simp add: sys_inv_def flush_inv_def)
qed

lemma flush_commit_dir:
  assumes "flush_commit envs meta db fs = (db', fs', e)" and "q \<noteq> manifestName"
  shows "map_of (dbdir fs') q = map_of (dbdir fs) q"
proof -
  obtain d1 e1 where m1: "Manifest_Append (envs 0) (add_edit meta) manifestName (dbdir fs) = (d1, e1)"
    by (cases "Manifest_Append (envs 0) (add_edit meta) manifestName (dbdir fs)")
  obtain d2 e2 where m2: "Manifest_Append (envs 1) (cutoff_edit (LargestSeq meta)) manifestName d1 = (d2, e2)"
    by (cases "Manifest_Append (envs 1) (cutoff_edit (LargestSeq meta)) manifestName d1")
  have "dbdir fs' = dbdir fs \<or> dbdir fs' = d1 \<or> dbdir fs' = d2"
    using assms(1) m1 m2 by (auto simp: flush_commit_def split: prod.splits option.splits)
  then show ?thesis
    using Manifest_Append_other [OF assms(2), of "envs 0" "add_edit meta" "dbdir fs"]
      Manifest_Append_other [OF assms(2), of "envs 1" "cutoff_edit (LargestSeq meta)" d1] m1 m2 by auto
qed

lemma GetAllTables_cutoff [simp]: "GetAllTables (SetWALCutoff n v) = GetAllTables v" "Levels (SetWALCutoff n v) = Levels v"
  by (simp_all add: GetAllTables_def SetWALCutoff_def)

lemma flush_commit_db:
  assumes "flush_commit envs meta db fs = (db', fs', e)" and "Level meta = 0" and "length (Levels (db_version db)) = NumLevels"
  shows "\<exists>v' bg ims. db' = db\<lparr>db_version := v', db_bgErr := bg, db_immutables := ims\<rparr> \<and> (ims = db_immutables db \<or> ims = tl (db_immutables db)) \<and>
    mset (GetAllTables v') = add_mset meta (mset (GetAllTables (db_version db))) \<and> length (Levels v') = NumLevels"
proof -
  obtain v where v: "AddTable meta (db_version db) = (v, None)" using assms(2) by (simp add: AddTable_def NumLevels_def Let_def)
  note m = mset_AddTable [OF assms(3) v]
  have bg: "setBackgroundError x (db\<lparr>db_version := v\<rparr>) =
      db\<lparr>db_version := v, db_bgErr := (if db_bgErr db = None then Some x else db_bgErr db), db_immutables := db_immutables db\<rparr>" for x
    by (simp add: setBackgroundError_def)
  have ok: "db\<lparr>db_version := SetWALCutoff (LargestSeq meta) v, db_immutables := tl (db_immutables db)\<rparr> =
      db\<lparr>db_version := SetWALCutoff (LargestSeq meta) v, db_bgErr := db_bgErr db, db_immutables := tl (db_immutables db)\<rparr>"
    by simp
  have "(\<exists>x. db' = setBackgroundError x (db\<lparr>db_version := v\<rparr>)) \<or>
      db' = db\<lparr>db_version := SetWALCutoff (LargestSeq meta) v, db_immutables := tl (db_immutables db)\<rparr>"
    using assms(1) v by (auto simp: flush_commit_def split: prod.splits option.splits)
  then show ?thesis
  proof
    assume "\<exists>x. db' = setBackgroundError x (db\<lparr>db_version := v\<rparr>)"
    then show ?thesis using m unfolding bg by blast
  next
    assume "db' = db\<lparr>db_version := SetWALCutoff (LargestSeq meta) v, db_immutables := tl (db_immutables db)\<rparr>"
    then show ?thesis using m unfolding ok
      by (intro exI [of _ "SetWALCutoff (LargestSeq meta) v"] exI [of _ "db_bgErr db"] exI [of _ "tl (db_immutables db)"]) simp
  qed
qed

lemma sim_commit:
  assumes inv: "sys_inv z \<lparr>sys_db = db, sys_fs = fs, sys_flush = Written im meta\<rparr> M" and c: "flush_commit envs meta db fs = (db', fs', e)"
  shows "sys_inv z \<lparr>sys_db = db', sys_fs = fs', sys_flush = (if e = None then Committed (LargestSeq meta) else Idle)\<rparr> M \<and> db_nextSeq db' = db_nextSeq db"
proof -
  have h: "db_holds z db fs M" "\<forall>e\<in>set M. trailer_seq (fst e) < db_nextSeq db" "length (Levels (db_version db)) = NumLevels"
    "\<forall>t\<in>set (GetAllTables (db_version db)). FileNum t < db_nextFileNum db" "FileNum meta < db_nextFileNum db" "Level meta = 0"
    "\<And>es. mem_holds im es \<Longrightarrow> table_holds z (dbdir fs) meta es"
    using inv by (auto simp: sys_inv_def db_versions_def flush_inv_def)
  obtain ims where im: "db_immutables db = im # ims" using inv by (auto simp: sys_inv_def flush_inv_def)
  obtain v' bg ims' where db': "db' = db\<lparr>db_version := v', db_bgErr := bg, db_immutables := ims'\<rparr>"
    "ims' = im # ims \<or> ims' = ims" "mset (GetAllTables v') = add_mset meta (mset (GetAllTables (db_version db)))" "length (Levels v') = NumLevels"
    using flush_commit_db [OF c h(6,3)] im by auto
  have "db_holds z (db\<lparr>db_version := v', db_immutables := ims'\<rparr>) fs M"
    using db_holds_flushed [OF h(1) im h(7) db'(3)] db'(2) im by (auto simp: db_holds_def)
  then have "db_holds z db' fs M" using db'(1) by (simp add: db_holds_def)
  then have "db_holds z db' fs' M" by (rule db_holds_dir) (intro file_at_cong flush_commit_dir [OF c sstName_manifest])
  moreover have "set (GetAllTables v') = insert meta (set (GetAllTables (db_version db)))" using db'(3) by (metis set_mset_mset set_mset_add_mset_insert)
  ultimately show ?thesis using h(2,4,5) db'(1,4) by (auto simp: sys_inv_def db_versions_def flush_inv_def)
qed

lemma flush_begin_Some:
  "flush_begin db = (db', Some (im, n)) \<Longrightarrow>
     (\<exists>ims. db_immutables db = im # ims) \<and> db' = db\<lparr>db_nextFileNum := db_nextFileNum db + 1\<rparr> \<and> n = db_nextFileNum db"
  by (cases "db_immutables db") (auto simp: flush_begin_def)

lemma sys_step_simulates:
  assumes "sys_step z s rs s'" and "sys_inv z s M" and z: "zlib_inverse z"
  shows "simulates z s M rs s'"
  using assms(1,2)
proof (induction rule: sys_step.induct)
  case (wr env coins op db fs db' fs' e fl)
  then show ?case using sim_write by blast
next
  case (freeze db fs fl)
  have "flush_inv z (rotateMemtableLocked db) fs fl"
    by (rule flush_inv_frame [of z db fs fl _ "[db_memtable db]"]) (use freeze in \<open>auto simp: sys_inv_def rotateMemtableLocked_def\<close>)
  then show ?case using freeze db_holds_rotate [of z db fs M]
    by (intro simulates_same) (auto simp: sys_inv_def db_versions_def rotateMemtableLocked_def)
next
  case (snap db fs fl)
  then show ?case by (intro simulates_same) (auto simp: sys_inv_def db_versions_def db_holds_def flush_inv_def split: flush_state.splits)
next
  case (release db fs fl s)
  then show ?case by (intro simulates_same) (auto simp: sys_inv_def db_versions_def db_holds_def flush_inv_def split: flush_state.splits)
next
  case (start db db' im n fs)
  from start(1) obtain ims where im: "db_immutables db = im # ims" "db' = db\<lparr>db_nextFileNum := db_nextFileNum db + 1\<rparr>" "n = db_nextFileNum db"
    using flush_begin_Some by blast
  have "db_versions z db' fs M" using start(3) im(2) by (simp add: sys_inv_def db_versions_def db_holds_def)
  moreover have old: "FileNum t < n" if "t \<in> set (GetAllTables (db_version db))" for t using start(3) im(3) that by (simp add: sys_inv_def)
  moreover have "FileNum t < n + 1" if "t \<in> set (GetAllTables (db_version db))" for t
    using old [OF that] start(2) unfolding im(3) by (rule order_less_trans)
  moreover have "n \<notin> FileNum ` set (GetAllTables (db_version db))" using old by (metis imageE order_less_irrefl)
  ultimately have "sys_inv z \<lparr>sys_db = db', sys_fs = fs, sys_flush = Begun im n\<rparr> M" using start(2,3) im
    by (auto simp: sys_inv_def flush_inv_def)
  then show ?case using im(2) by (intro simulates_same) simp_all
next
  case (table env im n fs d meta db)
  then show ?case using sim_table [OF _ z] by (intro simulates_same) auto
next
  case (table_fails env im n fs d e db)
  obtain es where "mem_holds im es" using table_fails(2) by (rule sys_inv_begun)
  then have "db_versions z db (fs\<lparr>dbdir := d\<rparr>) M" using sys_inv_dir [OF table_fails(2)] flushMemtable_other [OF _ table_fails(1)] file_at_cong by blast
  then show ?case using table_fails
    by (intro simulates_same) (auto simp: sys_inv_def db_versions_def db_holds_def flush_inv_def setBackgroundError_def)
next
  case (commit envs meta db fs db' fs' e im)
  then show ?case using sim_commit by (intro simulates_same) auto
next
  case (truncate env seq db fs db' fs' e)
  obtain bg where t: "db' = db\<lparr>db_bgErr := bg\<rparr>" "fs' = fs\<lparr>waldir := fst (truncate_log env seq (waldir fs))\<rparr>"
    using flush_truncate_frame [OF truncate(1)] by blast
  show ?case using truncate(2) unfolding t by (intro simulates_same) (simp_all add: sys_inv_def db_versions_def db_holds_def flush_inv_def)
qed

lemma sys_run_simulates:
  assumes "sys_run z s rs s'" and "sys_inv z s M" and z: "zlib_inverse z"
  shows "simulates z s M rs s'"
  using assms(1,2)
proof (induction rule: sys_run.induct)
  case (refl s)
  then show ?case by (intro simulates_same) auto
next
  case (step s rs s1 rs' s2)
  obtain M1 where M1: "sys_inv z s1 M1" "kv M1 = apply_logical rs (kv M)" "\<forall>r<db_nextSeq (sys_db s). kv_at r M1 = kv_at r M"
    "db_nextSeq (sys_db s) \<le> db_nextSeq (sys_db s1)" using step.IH step.prems by (auto simp: simulates_def)
  obtain M2 where M2: "sys_inv z s2 M2" "kv M2 = apply_logical rs' (kv M1)" "\<forall>r<db_nextSeq (sys_db s1). kv_at r M2 = kv_at r M1"
    "db_nextSeq (sys_db s1) \<le> db_nextSeq (sys_db s2)" using sys_step_simulates [OF step.hyps(2) M1(1) z] by (auto simp: simulates_def)
  show ?case using M1 M2 by (auto simp: simulates_def apply_logical_append intro!: exI [of _ M2] dest: order_less_le_trans intro: order_trans)
qed

section \<open>Reading in reachable states\<close>

lemma reachable_versions:
  assumes "empty_sys s0" and "sys_run z s0 rs s" and "zlib_inverse z"
  obtains M where "sys_inv z s M" and "kv M = apply_logical rs (\<lambda>_. None)" and "1 \<le> db_nextSeq (sys_db s)"
proof -
  have "kv [] = (\<lambda>_. None)" by (simp add: kv_def)
  then show thesis
    using sys_run_simulates [OF assms(2) sys_inv_empty [OF assms(1)] assms(3)] assms(1) that by (auto simp: simulates_def empty_sys_def)
qed

lemma kv_at_latest:
  assumes "\<forall>e\<in>set M. trailer_seq (fst e) < n" and "1 \<le> (n :: u64)"
  shows "kv_at (n - 1) M = kv M"
proof -
  have "trailer_seq (fst e) \<le> n - 1" if "e \<in> set M" for e 
    using assms that by (auto simp: word_le_nat_alt [of _ "n - 1"] word_less_nat_alt unat_sub)
  then have "filter (visible (n - 1)) M = M" by (simp add: visible_def)
  then show ?thesis by (simp add: kv_at_def kv_def)
qed

text \<open>The user-level scan over an iterator of versions.\<close>

context internal_iterator
begin

lemma scan_ok:
  assumes "R it (newest M) []" and "sorted_entries M" and "\<And>u v. map_of (user_entries (newest M)) u = Some v \<longleftrightarrow> m u = Some v"
  shows "\<exists>n out. Option.bind (sc_SeekToFirst (db_ops ops) \<lparr>sc_inner = it, sc_start = st, sc_end = en, sc_prefix = pr, sc_stop = False\<rparr>)
      (drain (sc_ops (db_ops ops)) n) = Some out \<and> sorted_wrt (<) (map fst out) \<and>
    (\<forall>k v. (k, v) \<in> set out \<longleftrightarrow> in_range st en pr k \<and> m k = Some v)"
proof -
  let ?es = "user_entries (newest M)"
  have sorted: "sorted_wrt (<) (map fst ?es)"
    using newest_users [OF assms(2)] by (auto simp: user_entries_def sorted_wrt_map sorted_wrt_filter case_prod_beta)
  let ?out = "filter (\<lambda>e. in_range st en pr (fst e)) ?es"
  have "sc_rep (db_rep R) \<lparr>sc_inner = it, sc_start = st, sc_end = en, sc_prefix = pr, sc_stop = False\<rparr> ?out []"
    using internal_iterator.sc_New [OF db_iterator db_New [OF assms(1)] sorted] .
  from internal_iterator.seek_drain [OF internal_iterator.sc_iterator [OF db_iterator] this, of "length ?out"]
  have "Option.bind (sc_SeekToFirst (db_ops ops) \<lparr>sc_inner = it, sc_start = st, sc_end = en, sc_prefix = pr, sc_stop = False\<rparr>)
      (drain (sc_ops (db_ops ops)) (length ?out)) = Some ?out" by (simp add: sc_ops_def)
  moreover have "sorted_wrt (<) (map fst ?out)" using sorted by (simp add: sorted_wrt_map sorted_wrt_filter)
  moreover have "(k, v) \<in> set ?es \<longleftrightarrow> m k = Some v" for k v
    using assms(3) sorted by (simp add: strict_sorted_iff flip: assms(3))
  then have "\<forall>k v. (k, v) \<in> set ?out \<longleftrightarrow> in_range st en pr k \<and> m k = Some v" by auto
  ultimately show ?thesis by blast
qed

end

section \<open>Writing without faults\<close>

lemma log_batch_logs:
  assumes rep: "wal_rep (db_wal db) (waldir fs) ns bss bs" and b: "loggable batch" and room: "activeNum (db_wal db) + 1 < 1000000"
  shows "\<exists>w d ns' bss' bs'. log_batch no_faults batch db fs = (db\<lparr>db_wal := w\<rparr>, fs\<lparr>waldir := d\<rparr>, None) \<and> wal_rep w d ns' bss' bs' \<and>
    concat bss' @ bs' = (concat bss @ bs) @ [batch] \<and> activeNum w \<le> activeNum (db_wal db) + 1 \<and>
    (\<forall>n. wal_stable (db_wal db) (waldir fs) bss bs n \<longrightarrow> wal_stable w d bss' bs' n) \<and>
    (SyncWrites (db_opts db) \<longrightarrow> wal_stable w d bss' bs' (length (concat bss' @ bs')))"
proof -
  obtain w d ns' bss' bs' where a: "WAL_Append no_faults batch (db_wal db) (waldir fs) = (w, d, None)" "wal_rep w d ns' bss' bs'"
    "concat bss' @ bs' = (concat bss @ bs) @ [batch]" "activeNum w \<le> activeNum (db_wal db) + 1"
    "\<forall>n. wal_stable (db_wal db) (waldir fs) bss bs n \<longrightarrow> wal_stable w d bss' bs' n"
    using WAL_Append_rep [OF rep b room] by blast
  obtain d' where y: "WAL_Sync no_faults w d = (d', None)" "wal_rep w d' ns' bss' bs'" "synced_to w d' = length (concat (map enc bs'))"
    using WAL_Sync_rep [OF a(2)] by blast
  have all: "wal_stable w d' bss' bs' n" if "n \<le> length (concat bss' @ bs')" for n
  proof -
    have "length (concat (map enc (take k bs'))) \<le> length (concat (map enc bs'))" for k
      by (metis append_take_drop_id concat_append le_add1 length_append map_append)
    then show ?thesis using that y(3) by (simp add: wal_stable_def)
  qed
  show ?thesis
  proof (cases "SyncWrites (db_opts db)")
    case True
    have "wal_stable w d' bss' bs' n" if "wal_stable (db_wal db) (waldir fs) bss bs n" for n
      using all a(5) that by (auto simp: wal_stable_def)
    moreover have "log_batch no_faults batch db fs = (db\<lparr>db_wal := w\<rparr>, fs\<lparr>waldir := d'\<rparr>, None)" using True a(1) y(1) by (simp add: log_batch_def)
    ultimately show ?thesis using a(3,4) y(2) all [of "length (concat bss' @ bs')"] by blast
  next
    case False
    then have "log_batch no_faults batch db fs = (db\<lparr>db_wal := w\<rparr>, fs\<lparr>waldir := d\<rparr>, None)" using a(1) by (simp add: log_batch_def)
    then show ?thesis using a(2-5) False by blast
  qed
qed

lemma put_loggable:
  assumes "key \<noteq> []" and "length key + length v < 2 ^ 31" and "drop_bit 56 seq = 0"
  shows "loggable \<lparr>SeqStart = seq, Records = [\<lparr>LKey = key, LValue = v, LType = logicalTypePut\<rparr>]\<rparr>"
  using assms by (intro valid_batch_loggable)
    (auto simp: valid_batch_def length_record_body encode_item_def logicalTypePut_def logicalTypeDelete_def)

lemma Put_succeeds:
  assumes rep: "wal_rep (db_wal db) (waldir fs) ns bss bs" and room: "activeNum (db_wal db) + 1 < 1000000"
    and kv: "key \<noteq> []" "length key + length v < 2 ^ 31" and seq: "drop_bit 56 (db_nextSeq db) = 0" and m: "mem_holds (db_memtable db) es"
    and bg: "db_bgErr db = None"
  shows "\<exists>w d ns' bss' bs' m. Put no_faults coins key v db fs =
      ((maybe_rotate (db\<lparr>db_wal := w, db_memtable := m\<rparr>))\<lparr>db_nextSeq := db_nextSeq db + 1\<rparr>, fs\<lparr>waldir := d\<rparr>, None) \<and>
    wal_rep w d ns' bss' bs' \<and> activeNum w \<le> activeNum (db_wal db) + 1 \<and>
    concat bss' @ bs' = (concat bss @ bs) @ [\<lparr>SeqStart = db_nextSeq db, Records = [\<lparr>LKey = key, LValue = v, LType = logicalTypePut\<rparr>]\<rparr>] \<and>
    (SyncWrites (db_opts db) \<longrightarrow> wal_stable w d bss' bs' (length (concat bss' @ bs'))) \<and>
    (\<exists>ik. EncodeInternalKey key (db_nextSeq db) RecordTypeValue = Inr ik \<and> mem_holds m (upd_entry ik v es) \<and>
      msize m = msize (db_memtable db) + int (length ik) + int (length v) + 16)"
proof -
  let ?batch = "\<lparr>SeqStart = db_nextSeq db, Records = [\<lparr>LKey = key, LValue = v, LType = logicalTypePut\<rparr>]\<rparr>"
  obtain w d ns' bss' bs' where l: "log_batch no_faults ?batch db fs = (db\<lparr>db_wal := w\<rparr>, fs\<lparr>waldir := d\<rparr>, None)" "wal_rep w d ns' bss' bs'"
    "concat bss' @ bs' = (concat bss @ bs) @ [?batch]" "activeNum w \<le> activeNum (db_wal db) + 1"
    "SyncWrites (db_opts db) \<longrightarrow> wal_stable w d bss' bs' (length (concat bss' @ bs'))"
    using log_batch_logs [OF rep put_loggable [OF kv seq] room] by blast
  obtain ik where ik: "EncodeInternalKey key (db_nextSeq db) RecordTypeValue = Inr ik" using EncodeInternalKey_ok [OF seq] by blast
  have mr: "mem_rep (db_memtable db) es" "wf_entries es" using m by (auto simp: mem_holds_def)
  obtain m' where m': "Memtable_Insert (db_memtable db) ik v coins = Some m'" "mem_rep m' (upd_entry ik v es)"
    "msize m' = msize (db_memtable db) + int (length ik) + int (length v) + 16" using mem_rep_Insert [OF mr(1)] by blast
  have "mem_holds m' (upd_entry ik v es)" using m'(2) wf_upd_entry [OF EncodeInternalKey_Inr(6) [OF ik] mr(2)] by (simp add: mem_holds_def)
  moreover have "insert_version key (db_nextSeq db) RecordTypeValue v coins (db_memtable db) = Inr m'" using ik m'(1) by (simp add: insert_version_def)
  then have "Put no_faults coins key v db fs =
      ((maybe_rotate (db\<lparr>db_wal := w, db_memtable := m'\<rparr>))\<lparr>db_nextSeq := db_nextSeq db + 1\<rparr>, fs\<lparr>waldir := d\<rparr>, None)"
    using bg l(1) by (simp add: Put_def checkBackgroundError_def Let_def)
  ultimately show ?thesis using l(2-5) ik m'(3) by blast
qed

section \<open>A sample run\<close>

text \<open>One key is written and flushed to a table; then it is written again.\<close>

definition put_record :: "byte \<Rightarrow> LogicalRecord" where
  "put_record x = \<lparr>LKey = [107], LValue = [x], LType = logicalTypePut\<rparr>"

definition fresh_db :: "WAL \<Rightarrow> DB" where
  "fresh_db w = \<lparr>db_wal = w, db_memtable = Memtable_New, db_immutables = [], db_version = NewVersionSet, db_nextSeq = 1,
     db_opts = DefaultConfig, db_nextFileNum = 1, db_snapshots = no_snapshots, db_bgErr = None\<rparr>"

lemma sys_stepI: "sys_step z s rs s' \<Longrightarrow> sys_run z s rs s'"
  using sys_run.step [OF sys_run.refl] by simp

lemma sys_run_silent: "sys_run z s rs s1 \<Longrightarrow> sys_step z s1 [] s2 \<Longrightarrow> sys_run z s rs s2"
  using sys_run.step by fastforce

lemma maybe_rotate_fields:
  "db_nextFileNum (maybe_rotate db) = db_nextFileNum db" "db_bgErr (maybe_rotate db) = db_bgErr db"
  "\<exists>ims. db_immutables (maybe_rotate db) = db_immutables db @ ims"
  by (simp_all add: maybe_rotate_def rotateMemtableLocked_def)

lemma put_run:
  assumes "mem_holds (db_memtable db) es" and "wal_rep (db_wal db) (waldir fs) ns bss bs"
    and "activeNum (db_wal db) + 1 < 1000000" and "drop_bit 56 (db_nextSeq db) = 0" and "db_bgErr db = None"
  shows "\<exists>w d ns' bss' bs' m ik. sys_step z \<lparr>sys_db = db, sys_fs = fs, sys_flush = fl\<rparr> [put_record x]
      \<lparr>sys_db = (maybe_rotate (db\<lparr>db_wal := w, db_memtable := m\<rparr>))\<lparr>db_nextSeq := db_nextSeq db + 1\<rparr>, sys_fs = fs\<lparr>waldir := d\<rparr>, sys_flush = fl\<rparr> \<and>
    wal_rep w d ns' bss' bs' \<and> activeNum w \<le> activeNum (db_wal db) + 1 \<and>
    mem_holds m (upd_entry ik [x] es) \<and> length ik = 9 \<and> msize m = msize (db_memtable db) + 26"
proof -
  from Put_succeeds [OF assms(2,3) _ _ assms(4,1,5), of "[107]" "[x]" "\<lambda>_. False"] obtain w d ns' bss' bs' m ik where
    p: "Put no_faults (\<lambda>_. False) [107] [x] db fs =
      ((maybe_rotate (db\<lparr>db_wal := w, db_memtable := m\<rparr>))\<lparr>db_nextSeq := db_nextSeq db + 1\<rparr>, fs\<lparr>waldir := d\<rparr>, None)"
    "wal_rep w d ns' bss' bs'" "activeNum w \<le> activeNum (db_wal db) + 1"
    "EncodeInternalKey [107] (db_nextSeq db) RecordTypeValue = Inr ik" "mem_holds m (upd_entry ik [x] es)"
    "msize m = msize (db_memtable db) + int (length ik) + int (length [x]) + 16" by auto
  have "run_write no_faults (\<lambda>_ _. False) (DoPut [107] [x]) db fs =
      ((maybe_rotate (db\<lparr>db_wal := w, db_memtable := m\<rparr>))\<lparr>db_nextSeq := db_nextSeq db + 1\<rparr>, fs\<lparr>waldir := d\<rparr>, None)"
    using p(1) by (simp add: run_write_def)
  note step = sys_step.wr [OF this, of z fl]
  show ?thesis
    using step EncodeInternalKey_Inr(7) [OF p(4)] p(2,3,5,6)
    by (intro exI [of _ w] exI [of _ d] exI [of _ ns'] exI [of _ bss'] exI [of _ bs'] exI [of _ m] exI [of _ ik]) (simp add: op_records_def put_record_def)
qed

lemma flush_run:
  assumes im: "db_immutables db = im # ims" and es: "mem_holds im es" "length es \<le> 2 ^ 28" "cost es < 2 ^ 31"
    and d: "map_of (dbdir fs) (sstName (db_nextFileNum db)) \<noteq> Some DirE" and n: "db_nextFileNum db < db_nextFileNum db + 1" and bg: "db_bgErr db = None"
    and log: "log_readable (waldir fs)"
  shows "\<exists>s. sys_run z \<lparr>sys_db = db, sys_fs = fs, sys_flush = Idle\<rparr> [] s \<and> db_bgErr (sys_db s) = None"
proof -
  let ?n = "db_nextFileNum db" and ?db = "db\<lparr>db_nextFileNum := db_nextFileNum db + 1\<rparr>"
  have "flush_begin db = (?db, Some (im, ?n))" using im by (simp add: flush_begin_def)
  note s1 = sys_stepI [OF sys_step.start [OF this n]]
  obtain d' meta where f: "flushMemtable no_faults z im ?n (dbdir fs) = (d', Inr meta)" using flushMemtable_succeeds [OF es(1,2) d] by blast
  have "small_memtable im" using es(1,3) mem_holds_unique by (auto simp: small_memtable_def)
  note s2 = sys_run_silent [OF s1 sys_step.table [OF f this]]
  let ?db' = "\<lambda>v. ?db\<lparr>db_version := v, db_immutables := tl (db_immutables ?db)\<rparr>"
  obtain v d2 where c: "flush_commit (\<lambda>_. no_faults) meta ?db (fs\<lparr>dbdir := d'\<rparr>) = (?db' v, fs\<lparr>dbdir := d'\<rparr>\<lparr>dbdir := d2\<rparr>, None)"
    using flush_commit_succeeds [OF flushMemtable_table(3) [OF es(1) f]] by blast
  have t: "flush_truncate no_faults (LargestSeq meta) (?db' v) (fs\<lparr>dbdir := d'\<rparr>\<lparr>dbdir := d2\<rparr>) =
      (?db' v, fs\<lparr>dbdir := d'\<rparr>\<lparr>dbdir := d2\<rparr>\<lparr>waldir := fst (truncate_log no_faults (LargestSeq meta) (waldir fs))\<rparr>, None)"
    using flush_truncate_readable [of "fs\<lparr>dbdir := d'\<rparr>\<lparr>dbdir := d2\<rparr>" no_faults "LargestSeq meta" "?db' v"] log by simp
  have s3: "sys_run z \<lparr>sys_db = db, sys_fs = fs, sys_flush = Idle\<rparr> [] \<lparr>sys_db = ?db' v, sys_fs = fs\<lparr>dbdir := d'\<rparr>\<lparr>dbdir := d2\<rparr>, sys_flush = Committed (LargestSeq meta)\<rparr>"
    using sys_run_silent [OF s2 sys_step.commit [OF c]] by simp
  have "db_bgErr (?db' v) = None" using bg by simp
  with sys_run_silent [OF s3 sys_step.truncate [OF t]] show ?thesis by (metis Sys.select_convs(1))
qed

lemma sys_run_trans: "sys_run z s1 rs2 s2 \<Longrightarrow> sys_run z s rs1 s1 \<Longrightarrow> sys_run z s (rs1 @ rs2) s2"
proof (induction rule: sys_run.induct)
  case (step s' rs s1 rs' s2)
  then show ?case using sys_run.step [of z s "rs1 @ rs" s1 rs' s2] by simp
qed simp

lemma sample_run:
  "\<exists>s0 s1 s2. empty_sys s0 \<and> sys_run plain_zlib s0 [put_record 1] s1 \<and> sys_run plain_zlib s1 [put_record 2] s2 \<and> db_bgErr (sys_db s2) = None"
proof -
  obtain w0 d0 where w0: "wal_rep w0 d0 [] [] []" "activeNum w0 = 1" using OpenWAL_fresh by blast
  let ?db0 = "fresh_db w0" and ?fs0 = "\<lparr>dbdir = [], waldir = d0\<rparr>" 
  have "mem_holds (db_memtable ?db0) []" using mem_rep_New by (simp add: mem_holds_def fresh_db_def)
  from put_run [OF this, of ?fs0 "[]" "[]" "[]" plain_zlib Idle 1] obtain w1 d1 ns1 bss1 bs1 m1 ik1 where
    p1: "sys_step plain_zlib \<lparr>sys_db = ?db0, sys_fs = ?fs0, sys_flush = Idle\<rparr> [put_record 1]
      \<lparr>sys_db = (maybe_rotate (?db0\<lparr>db_wal := w1, db_memtable := m1\<rparr>))\<lparr>db_nextSeq := db_nextSeq ?db0 + 1\<rparr>, sys_fs = ?fs0\<lparr>waldir := d1\<rparr>, sys_flush = Idle\<rparr>"
    "wal_rep w1 d1 ns1 bss1 bs1" "activeNum w1 \<le> 2" "mem_holds m1 (upd_entry ik1 [1] [])" "length ik1 = 9" "msize m1 = msize Memtable_New + 26"
    using w0 by (auto simp: fresh_db_def)
  have rot: "maybe_rotate (?db0\<lparr>db_wal := w1, db_memtable := m1\<rparr>) = ?db0\<lparr>db_wal := w1, db_memtable := m1\<rparr>"
    using p1(6) by (simp add: maybe_rotate_def Memtable_ApproximateSize_def fresh_db_def DefaultConfig_def Memtable_New_def)
  define db1 where "db1 = ?db0\<lparr>db_wal := w1, db_memtable := m1, db_nextSeq := 2\<rparr>"
  let ?fs1 = "?fs0\<lparr>waldir := d1\<rparr>" and ?db2 = "rotateMemtableLocked db1"
  have s1: "sys_run plain_zlib \<lparr>sys_db = ?db0, sys_fs = ?fs0, sys_flush = Idle\<rparr> [put_record 1] \<lparr>sys_db = db1, sys_fs = ?fs1, sys_flush = Idle\<rparr>"
    using sys_stepI [OF p1(1)] unfolding rot by (simp add: db1_def fresh_db_def)
  have db2: "mem_holds (db_memtable ?db2) []" "db_wal ?db2 = w1" "db_immutables ?db2 = [m1]" "db_nextSeq ?db2 = 2" "db_nextFileNum ?db2 = 1" "db_bgErr ?db2 = None"
    using mem_rep_New by (simp_all add: mem_holds_def fresh_db_def db1_def rotateMemtableLocked_def)
  from put_run [OF db2(1), of ?fs1 ns1 bss1 bs1 plain_zlib Idle 2] obtain w2 d2 m2 ns2 bss2 bs2 where
    p2: "sys_step plain_zlib \<lparr>sys_db = ?db2, sys_fs = ?fs1, sys_flush = Idle\<rparr> [put_record 2]
      \<lparr>sys_db = (maybe_rotate (?db2\<lparr>db_wal := w2, db_memtable := m2\<rparr>))\<lparr>db_nextSeq := db_nextSeq ?db2 + 1\<rparr>, sys_fs = ?fs1\<lparr>waldir := d2\<rparr>, sys_flush = Idle\<rparr>"
    and log2: "wal_rep w2 d2 ns2 bss2 bs2"
    using p1(2,3) db2 by (auto)
  define db3 where "db3 = (maybe_rotate (?db2\<lparr>db_wal := w2, db_memtable := m2\<rparr>))\<lparr>db_nextSeq := db_nextSeq ?db2 + 1\<rparr>"
  have db3: "db_nextFileNum db3 = 1" "db_bgErr db3 = None" using db2(5,6) by (simp_all add: db3_def maybe_rotate_fields)
  obtain ims where im: "db_immutables db3 = m1 # ims"
    using maybe_rotate_fields(3) [of "?db2\<lparr>db_wal := w2, db_memtable := m2\<rparr>"] db2(3) by (auto simp: db3_def)
  have s2: "sys_run plain_zlib \<lparr>sys_db = db1, sys_fs = ?fs1, sys_flush = Idle\<rparr> [put_record 2]
      \<lparr>sys_db = db3, sys_fs = ?fs1\<lparr>waldir := d2\<rparr>, sys_flush = Idle\<rparr>"
    using sys_run_trans [OF sys_stepI [OF p2] sys_stepI [OF sys_step.freeze]] unfolding db3_def by simp
  obtain s where "sys_run plain_zlib \<lparr>sys_db = db3, sys_fs = ?fs1\<lparr>waldir := d2\<rparr>, sys_flush = Idle\<rparr> [] s" "db_bgErr (sys_db s) = None"
    using flush_run [OF im p1(4), of "?fs1\<lparr>waldir := d2\<rparr>" plain_zlib] db3 p1(5) wal_rep_readable [OF log2] by auto
  then have "sys_run plain_zlib \<lparr>sys_db = db1, sys_fs = ?fs1, sys_flush = Idle\<rparr> [put_record 2] s" "db_bgErr (sys_db s) = None"
    using sys_run_trans [OF _ s2] by auto
  moreover have "empty_sys \<lparr>sys_db = ?db0, sys_fs = ?fs0, sys_flush = Idle\<rparr>" by (simp add: empty_sys_def fresh_db_def)
  ultimately show ?thesis using s1 by blast
qed

section \<open>Properties\<close>

text \<open>C2. The engine refines a map.  From an empty database, after any run of writes with arbitrary faults, freezes, snapshots and flushes
  that may fail at any point and interleave with the writes, \<^verbatim>\<open>Get\<close> returns the value that the successful writes, applied in order to an empty map,
  leave at the key, or \<^verbatim>\<open>ErrNotFound\<close> when they leave none, however the versions are spread over memtables and tables.  The reads must be
  free of faults and no background error pending.\<close>

theorem Get_refines_map:
  assumes "empty_sys s0" and "sys_run z s0 rs s" and "zlib_inverse z" and "reads_ok env" and "db_bgErr (sys_db s) = None"
  shows "Get env z key (sys_db s) (sys_fs s) = found (apply_logical rs (\<lambda>_. None) key)"
proof -
  obtain M where M: "sys_inv z s M" "kv M = apply_logical rs (\<lambda>_. None)" using reachable_versions [OF assms(1-3)] by blast
  then have "db_holds z (sys_db s) (sys_fs s) M" by (simp add: sys_inv_def db_versions_def)
  from GetWithOptions_ok(2) [OF this assms(4,5)] show ?thesis by (simp add: M(2))
qed

theorem Get_refines_map_witness:
  "\<exists>s0 s. empty_sys s0 \<and> sys_run plain_zlib s0 [put_record 1, put_record 2] s \<and>
     Get no_faults plain_zlib [107] (sys_db s) (sys_fs s) = Inr [2] \<and> Get no_faults plain_zlib [1] (sys_db s) (sys_fs s) = Inl ErrNotFound"
proof -
  obtain s0 s1 s2 where r: "empty_sys s0" "sys_run plain_zlib s0 [put_record 1] s1" "sys_run plain_zlib s1 [put_record 2] s2"
    "db_bgErr (sys_db s2) = None" using sample_run by blast
  have run: "sys_run plain_zlib s0 [put_record 1, put_record 2] s2" using sys_run_trans [OF r(3,2)] by simp
  have ok: "reads_ok no_faults" by (simp add: reads_ok_def)
  have "apply_logical [put_record 1, put_record 2] (\<lambda>_. None) = [[107] \<mapsto> [2]]"
    by (simp add: put_record_def logicalTypePut_def logicalTypeDelete_def)
  then show ?thesis
    using r(1) run Get_refines_map [OF r(1) run plain_zlib_inverse ok r(4), of "[107]"]
      Get_refines_map [OF r(1) run plain_zlib_inverse ok r(4), of "[1]"] by (auto simp: found_def)
qed

text \<open>C3. Snapshot isolation.  A read at a snapshot returns what the database held when the snapshot was taken, whatever writes,
  freezes and flushes come after it.\<close>

theorem snapshot_isolation:
  assumes "empty_sys s0" and "sys_run z s0 rs s1" and "GetSnapshot (db_nextSeq (sys_db s1)) (db_snapshots (sys_db s1)) = (snaps, i)"
    and "sys_run z s1 rs' s2" and "zlib_inverse z" and "reads_ok env" and "db_bgErr (sys_db s2) = None"
  shows "GetWithOptions env z key (Some (ReadSeq (s_nodes snaps ! i))) (sys_db s2) (sys_fs s2) = found (apply_logical rs (\<lambda>_. None) key)"
proof -
  let ?n = "db_nextSeq (sys_db s1)"
  obtain M1 where M1: "sys_inv z s1 M1" "kv M1 = apply_logical rs (\<lambda>_. None)" "1 \<le> ?n" using reachable_versions [OF assms(1,2,5)] by blast
  obtain M2 where M2: "sys_inv z s2 M2" "\<forall>r<?n. kv_at r M2 = kv_at r M1"
    using sys_run_simulates [OF assms(4) M1(1) assms(5)] by (auto simp: simulates_def)
  have r: "ReadSeq (s_nodes snaps ! i) = ?n - 1" using assms(3) by (auto simp: GetSnapshot_def Let_def nth_append set_prev_def split: option.splits)
  have "?n - 1 < ?n" using M1(3) by (simp add: word_less_nat_alt word_le_nat_alt unat_sub)
  then have "kv_at (?n - 1) M2 = kv M1" using M2(2) kv_at_latest [OF _ M1(3), of M1] M1(1) by (simp add: sys_inv_def db_versions_def)
  moreover have "db_holds z (sys_db s2) (sys_fs s2) M2" using M2(1) by (simp add: sys_inv_def db_versions_def)
  ultimately show ?thesis using GetWithOptions_ok(1) [OF _ assms(6,7)] M1(2) r by simp
qed

theorem snapshot_isolation_witness:
  "\<exists>s1 s2 snaps i. GetSnapshot (db_nextSeq (sys_db s1)) (db_snapshots (sys_db s1)) = (snaps, i) \<and>
     sys_run plain_zlib s1 [put_record 2] s2 \<and>
     GetWithOptions no_faults plain_zlib [107] (Some (ReadSeq (s_nodes snaps ! i))) (sys_db s2) (sys_fs s2) = Inr [1]"
proof -
  obtain s0 s1 s2 where r: "empty_sys s0" "sys_run plain_zlib s0 [put_record 1] s1" "sys_run plain_zlib s1 [put_record 2] s2"
    "db_bgErr (sys_db s2) = None" using sample_run by blast
  obtain snaps i where g: "GetSnapshot (db_nextSeq (sys_db s1)) (db_snapshots (sys_db s1)) = (snaps, i)" by fastforce
  have ok: "reads_ok no_faults" by (simp add: reads_ok_def)
  have "apply_logical [put_record 1] (\<lambda>_. None) = [[107] \<mapsto> [1]]"
    by (simp add: put_record_def logicalTypePut_def logicalTypeDelete_def)
  then show ?thesis
    using snapshot_isolation [OF r(1,2) g r(3) plain_zlib_inverse ok r(4), of "[107]"] g r(3) by (auto simp: found_def)
qed

text \<open>Running a scan to its end.\<close>

definition run_scan :: "os_env \<Rightarrow> zlib \<Rightarrow> source_it MergeIterator scanIterator res \<Rightarrow> nat \<Rightarrow> entries option" where
  "run_scan env z r n =
     (let ops = db_ops (mg_ops (source_ops env z))
      in case r of Inl e \<Rightarrow> None | Inr it \<Rightarrow> Option.bind (sc_SeekToFirst ops it) (drain (sc_ops ops) n))"

text \<open>C7. Range and prefix scans.  In every reachable state a range iterator visits exactly the live keys of its range with their values, in
  strictly ascending order, each once, and so does a prefix iterator for its prefix; deleted keys and overwritten values are not shown.\<close>

theorem scan_shows_live_keys:
  assumes "empty_sys s0" and "sys_run z s0 rs s" and "zlib_inverse z" and "reads_ok env"
  shows "(\<exists>n out. run_scan env z (NewRangeIterator start end (NewIterator_latest env z (sys_db s) (sys_fs s))) n = Some out \<and>
      sorted_wrt (<) (map fst out) \<and>
      (\<forall>k v. (k, v) \<in> set out \<longleftrightarrow> in_range start end None k \<and> apply_logical rs (\<lambda>_. None) k = Some v)) \<and>
    (\<exists>n out. run_scan env z (NewPrefixIterator prefix (NewIterator_latest env z (sys_db s) (sys_fs s))) n = Some out \<and>
      sorted_wrt (<) (map fst out) \<and>
      (\<forall>k v. (k, v) \<in> set out \<longleftrightarrow> in_range None None prefix k \<and> apply_logical rs (\<lambda>_. None) k = Some v))"
proof -
  let ?live = "apply_logical rs (\<lambda>_. None)"
  obtain M where M: "sys_inv z s M" "kv M = ?live" using reachable_versions [OF assms(1-3)] by blast
  then have h: "db_holds z (sys_db s) (sys_fs s) M" and sorted: "sorted_entries M" by (auto simp: sys_inv_def db_versions_def db_holds_def)
  obtain m where m: "NewIterator_latest env z (sys_db s) (sys_fs s) = Inr m" "mg_rep (source_rep env z) m (newest M) []"
    using NewIterator_ok(2) [OF h assms(4)] by blast
  have "map_of (user_entries (newest M)) u = Some v \<longleftrightarrow> ?live u = Some v" for u v using M(2) by (simp add: kv_def)
  note scan = read_latest.scan_ok [OF m(2) sorted this]
  show ?thesis using scan [of start "end" None] scan [of None None prefix] m(1)
    by (simp add: run_scan_def Let_def NewRangeIterator_def NewPrefixIterator_def)
qed

theorem scan_shows_live_keys_witness:
  "\<exists>(s :: Sys) n out. run_scan no_faults plain_zlib (NewPrefixIterator (Some [107]) (NewIterator_latest no_faults plain_zlib (sys_db s) (sys_fs s))) n = Some out \<and>
     set out = {([107], [2])}"
proof -
  obtain s0 s1 s2 where r: "empty_sys s0" "sys_run plain_zlib s0 [put_record 1] s1" "sys_run plain_zlib s1 [put_record 2] s2"
    using sample_run by blast
  have run: "sys_run plain_zlib s0 [put_record 1, put_record 2] s2" using sys_run_trans [OF r(3,2)] by simp
  have ok: "reads_ok no_faults" by (simp add: reads_ok_def)
  have live: "apply_logical [put_record 1, put_record 2] (\<lambda>_. None) = [[107] \<mapsto> [2]]"
    by (simp add: put_record_def logicalTypePut_def logicalTypeDelete_def)
  obtain n out where out: "run_scan no_faults plain_zlib (NewPrefixIterator (Some [107]) (NewIterator_latest no_faults plain_zlib (sys_db s2) (sys_fs s2))) n = Some out"
    "\<forall>k v. (k, v) \<in> set out \<longleftrightarrow> in_range None None (Some [107]) k \<and> [[107] \<mapsto> [2]] k = Some v"
    using scan_shows_live_keys [OF r(1) run plain_zlib_inverse ok, of None None "Some [107]"] unfolding live by blast
  have "in_range None None (Some [107]) [107]" by (simp add: in_range_def bytes_HasPrefix_def)
  then have "(k, v) \<in> set out \<longleftrightarrow> k = [107] \<and> v = [2]" for k v using out(2) by (simp only: fun_upd_apply) (metis option.inject option.distinct(1))
  then have "set out = {([107], [2])}" by auto
  with out(1) show ?thesis by blast
qed

end
