(* ===== verification/Recovery.thy ===== *)
theory Recovery
  imports Engine_Run
begin

text \<open>
  Package \<^verbatim>\<open>engine\<close>, \<^verbatim>\<open>recovery.go\<close> and the opening and closing of the database in \<^verbatim>\<open>db.go\<close>: the version set is rebuilt from the manifest, the
  memtable from the log, and a memtable that grows too large during the replay is written to a table.

  The steps of the replay that write files get their faults by the file number of the table they write; the coin flips of the skip list
  are numbered through the whole replay.
\<close>

section \<open>recovery.go\<close>

record RecoveredState =
  rs_VersionSet :: VersionSet
  rs_Memtable :: Memtable
  rs_NextSeq :: u64
  rs_NextFileNum :: u64

definition convertLogicalType :: "byte \<Rightarrow> byte res" where
  "convertLogicalType t =
     (if t = logicalTypePut then Inr RecordTypeValue
      else if t = logicalTypeDelete then Inr RecordTypeTombstone
      else Inl (Panic ''unknown WAL logical record type''))"

text \<open>The iterator of the memtable itself, which \<^verbatim>\<open>writeMemtableToSSTable\<close> uses without the wrapper of package \<^verbatim>\<open>iterators\<close>.\<close>

definition mem_it_ops :: "Iterator iter_ops" where
  "mem_it_ops = \<lparr>op_SeekToFirst = Iterator_SeekToFirst, op_Next = Iterator_Next, op_Valid = Iterator_Valid,
     op_Key = Iterator_Key, op_Value = Iterator_Value\<rparr>"

definition writeMemtableToSSTable :: "os_env \<Rightarrow> zlib \<Rightarrow> Memtable \<Rightarrow> string \<Rightarrow> u64 \<Rightarrow> dir \<Rightarrow> dir \<times> SSTableMeta res" where
  "writeMemtableToSSTable env z mt filename fileNum d =
     (case Iterator_SeekToFirst (Memtable_Iterator mt) of
        None \<Rightarrow> (d, Inl iterator_panic)
      | Some it \<Rightarrow>
          (case NewBuilder env filename d of
             (d, Inl e) \<Rightarrow> (d, Inl e)
           | (d, Inr b) \<Rightarrow>
               (case flush_loop mem_it_ops env z it no_stats b d of
                  None \<Rightarrow> (d, Inl iterator_panic)
                | Some (st, b, d, Some e) \<Rightarrow> (d, Inl e)
                | Some (st, b, d, None) \<Rightarrow>
                    (case Builder_Close env z b d of
                       (b, d, Some e) \<Rightarrow> (d, Inl e)
                     | (b, d, None) \<Rightarrow>
                         (d, Inr \<lparr>FileNum = fileNum, Level = 0, SmallestSeq = st_smallestSeq st, LargestSeq = st_largestSeq st,
                            SmallestKey = st_smallest st, LargestKey = st_largest st, FileSize = Builder_Size b\<rparr>)))))"

text \<open>The variables of the replay.\<close>

record Replay =
  rp_vs :: VersionSet
  rp_mt :: Memtable
  rp_maxSeq :: u64
  rp_maxFileNum :: u64
  rp_draws :: nat

definition replay_record :: "(nat \<Rightarrow> nat \<Rightarrow> bool) \<Rightarrow> u64 \<Rightarrow> LogicalRecord \<Rightarrow> Replay \<Rightarrow> Replay res" where
  "replay_record coins seq r rp =
     bindr (convertLogicalType (LType r)) (\<lambda>t.
     bindr (insert_version (LKey r) seq t (LValue r) (coins (rp_draws rp)) (rp_mt rp)) (\<lambda>mt.
       Inr (rp\<lparr>rp_mt := mt, rp_maxSeq := (if seq > rp_maxSeq rp then seq else rp_maxSeq rp), rp_draws := rp_draws rp + 1\<rparr>)))"

fun replay_records :: "(nat \<Rightarrow> nat \<Rightarrow> bool) \<Rightarrow> u64 \<Rightarrow> LogicalRecord list \<Rightarrow> Replay \<Rightarrow> Replay res" where
  "replay_records coins seq [] rp = Inr rp"
| "replay_records coins seq (r # rs) rp = bindr (replay_record coins seq r rp) (replay_records coins (seq + 1) rs)"

definition replay_page :: "(u64 \<Rightarrow> os_env) \<Rightarrow> zlib \<Rightarrow> int \<Rightarrow> Replay \<Rightarrow> dir \<Rightarrow> dir \<times> Replay res" where
  "replay_page envs z memtableLimit rp d =
     (if Memtable_ApproximateSize (rp_mt rp) > memtableLimit then
        let fileNum = rp_maxFileNum rp + 1; env = envs fileNum
        in case writeMemtableToSSTable env z (rp_mt rp) (sstName fileNum) fileNum d of
             (d, Inl e) \<Rightarrow> (d, Inl e)
           | (d, Inr meta) \<Rightarrow>
               (case AddTable meta (rp_vs rp) of
                  (vs, Some e) \<Rightarrow> (d, Inl e)
                | (vs, None) \<Rightarrow>
                    (case OpenManifest env manifestName d of
                       (d, Inl e) \<Rightarrow> (d, Inl e)
                     | (d, Inr p) \<Rightarrow>
                         (case Manifest_Append env (add_edit meta) p d of
                            (d, Some e) \<Rightarrow> (d, Inl e)
                          | (d, None) \<Rightarrow> (d, Inr (rp\<lparr>rp_vs := vs, rp_mt := Memtable_New, rp_maxFileNum := fileNum\<rparr>)))))
      else (d, Inr rp))"

definition replay_batch :: "(u64 \<Rightarrow> os_env) \<Rightarrow> zlib \<Rightarrow> (nat \<Rightarrow> nat \<Rightarrow> bool) \<Rightarrow> int \<Rightarrow> Batch \<Rightarrow> Replay \<Rightarrow> dir \<Rightarrow> dir \<times> Replay res" where
  "replay_batch envs z coins memtableLimit batch rp d =
     (if batchMax batch \<le> WALCutoffSeq (rp_vs rp) then (d, Inr rp)
      else case replay_records coins (SeqStart batch) (Records batch) rp of
             Inl e \<Rightarrow> (d, Inl e)
           | Inr rp \<Rightarrow> replay_page envs z memtableLimit rp d)"

fun replay_batches :: "(u64 \<Rightarrow> os_env) \<Rightarrow> zlib \<Rightarrow> (nat \<Rightarrow> nat \<Rightarrow> bool) \<Rightarrow> int \<Rightarrow> Batch list \<Rightarrow> Replay \<Rightarrow> dir \<Rightarrow> dir \<times> Replay res" where
  "replay_batches envs z coins memtableLimit [] rp d = (d, Inr rp)"
| "replay_batches envs z coins memtableLimit (b # bs) rp d =
     (case replay_batch envs z coins memtableLimit b rp d of
        (d, Inl e) \<Rightarrow> (d, Inl e)
      | (d, Inr rp) \<Rightarrow> replay_batches envs z coins memtableLimit bs rp d)"

text \<open>A segment: its records up to the first that does not decode; a decoder panic ends the recovery after the records before it.\<close>

fun replay_segments ::
  "os_env \<Rightarrow> (u64 \<Rightarrow> os_env) \<Rightarrow> zlib \<Rightarrow> (nat \<Rightarrow> nat \<Rightarrow> bool) \<Rightarrow> int \<Rightarrow> dir \<Rightarrow> string list \<Rightarrow> Replay \<Rightarrow> dir \<Rightarrow> dir \<times> Replay res" where
  "replay_segments env envs z coins memtableLimit wd [] rp d = (d, Inr rp)"
| "replay_segments env envs z coins memtableLimit wd (path # paths) rp d =
     (if \<not> read_ok env path then (d, Inl (Err ''read''))
      else case scan_records (data_at wd path) 0 of (batches, stop) \<Rightarrow>
           (case replay_batches envs z coins memtableLimit batches rp d of
              (d, Inl e) \<Rightarrow> (d, Inl e)
            | (d, Inr rp) \<Rightarrow>
                (case stop of
                   Some (Panic m) \<Rightarrow> (d, Inl (Panic m))
                 | _ \<Rightarrow> replay_segments env envs z coins memtableLimit wd paths rp d)))"

definition max_seq_of :: "SSTableMeta list \<Rightarrow> u64" where
  "max_seq_of metas = fold (\<lambda>m s. if LargestSeq m > s then LargestSeq m else s) metas 0"

definition max_file_of :: "SSTableMeta list \<Rightarrow> u64" where
  "max_file_of metas = fold (\<lambda>m n. if FileNum m > n then FileNum m else n) metas 0"

definition Recover :: "os_env \<Rightarrow> (u64 \<Rightarrow> os_env) \<Rightarrow> zlib \<Rightarrow> (nat \<Rightarrow> nat \<Rightarrow> bool) \<Rightarrow> int \<Rightarrow> Files \<Rightarrow> Files \<times> RecoveredState res" where
  "Recover env envs z coins memtableLimit fs =
     (case ReplayManifest env manifestName (dbdir fs) of
        Inl e \<Rightarrow> (fs, Inl e)
      | Inr vs \<Rightarrow>
          let metas = GetAllTables vs;
              maxSeq = (if WALCutoffSeq vs > max_seq_of metas then WALCutoffSeq vs else max_seq_of metas);
              rp = \<lparr>rp_vs = vs, rp_mt = Memtable_New, rp_maxSeq = maxSeq, rp_maxFileNum = max_file_of metas, rp_draws = 0\<rparr>
          in if \<not> readdir_ok env then (fs, Inl (Err ''readdir''))
             else (case replay_segments env envs z coins memtableLimit (waldir fs) (wal_names (waldir fs)) rp (dbdir fs) of
                     (d, Inl e) \<Rightarrow> (fs\<lparr>dbdir := d\<rparr>, Inl e)
                   | (d, Inr rp) \<Rightarrow>
                       (fs\<lparr>dbdir := d\<rparr>,
                        Inr \<lparr>rs_VersionSet = rp_vs rp, rs_Memtable = rp_mt rp, rs_NextSeq = rp_maxSeq rp + 1,
                             rs_NextFileNum = rp_maxFileNum rp\<rparr>)))"

section \<open>db.go: opening and closing\<close>

definition cleanupObsoleteFiles :: "os_env \<Rightarrow> DB \<Rightarrow> Files \<Rightarrow> DB \<times> Files" where
  "cleanupObsoleteFiles env db fs =
     (let gone = {n \<in> Obsolete (db_version db). remove_ok env (sstName n) \<or> map_of (dbdir fs) (sstName n) = None}
      in (db\<lparr>db_version := (db_version db)\<lparr>Obsolete := Obsolete (db_version db) - gone\<rparr>\<rparr>,
          fs\<lparr>dbdir := filter (\<lambda>(p, _). p \<notin> sstName ` gone) (dbdir fs)\<rparr>))"

text \<open>\<^verbatim>\<open>Close\<close>; the order in which the segments of the log are closed is an argument.  Closing the manifest changes nothing the model holds.\<close>

definition Close :: "os_env \<Rightarrow> nat list \<Rightarrow> DB \<Rightarrow> Files \<Rightarrow> DB \<times> Files \<times> go_err option" where
  "Close env order db fs =
     (case WAL_Close env order (db_wal db) (waldir fs) of
        (w, wd, Some e) \<Rightarrow> (db\<lparr>db_wal := w\<rparr>, fs\<lparr>waldir := wd\<rparr>, Some e)
      | (w, wd, None) \<Rightarrow>
          (case cleanupObsoleteFiles env (db\<lparr>db_wal := w\<rparr>) (fs\<lparr>waldir := wd\<rparr>) of
             (db, fs) \<Rightarrow> (db, fs, if close_ok env manifestName then None else Some (Err ''close''))))"

definition initial_state :: "os_env \<Rightarrow> (u64 \<Rightarrow> os_env) \<Rightarrow> zlib \<Rightarrow> (nat \<Rightarrow> nat \<Rightarrow> bool) \<Rightarrow> Config \<Rightarrow> Files \<Rightarrow> Files \<times> RecoveredState res" where
  "initial_state env envs z coins opts fs =
     (if stat_ok env manifestName \<and> map_of (dbdir fs) manifestName = None then
        if \<not> mkdir_ok env then (fs, Inl (Err ''mkdir''))
        else if \<not> open_ok env manifestName then (fs, Inl (Err ''create''))
        else (fs\<lparr>dbdir := file_truncate manifestName (dbdir fs)\<rparr>,
              Inr \<lparr>rs_VersionSet = NewVersionSet, rs_Memtable = Memtable_New, rs_NextSeq = 1, rs_NextFileNum = 0\<rparr>)
      else Recover env envs z coins (MemtableSizeLimit opts) fs)"

definition missing_table :: "os_env \<Rightarrow> dir \<Rightarrow> SSTableMeta \<Rightarrow> bool" where
  "missing_table env d meta \<longleftrightarrow> stat_ok env (sstName (FileNum meta)) \<and> map_of d (sstName (FileNum meta)) = None"

definition Open :: "os_env \<Rightarrow> (u64 \<Rightarrow> os_env) \<Rightarrow> zlib \<Rightarrow> (nat \<Rightarrow> nat \<Rightarrow> bool) \<Rightarrow> Config \<Rightarrow> nat list \<Rightarrow> Files \<Rightarrow> Files \<times> DB res" where
  "Open env envs z coins opts order fs =
     (case initial_state env envs z coins opts fs of
        (fs, Inl e) \<Rightarrow> (fs, Inl e)
      | (fs, Inr state) \<Rightarrow>
          (case OpenWAL env (64 * 1024 * 1024) (waldir fs) of
             (wd, Inl e) \<Rightarrow> (fs\<lparr>waldir := wd\<rparr>, Inl e)
           | (wd, Inr w) \<Rightarrow>
               (case OpenManifest env manifestName (dbdir fs) of
                  (d, Inl e) \<Rightarrow> (fs\<lparr>waldir := wd, dbdir := d\<rparr>, Inl e)
                | (d, Inr _) \<Rightarrow>
                    let n = rs_NextFileNum state + 1;
                        fs = fs\<lparr>waldir := wd, dbdir := d\<rparr>;
                        db = \<lparr>db_wal = w, db_memtable = rs_Memtable state, db_immutables = [], db_version = rs_VersionSet state,
                              db_nextSeq = rs_NextSeq state, db_opts = opts, db_nextFileNum = (if n = 0 then 1 else n),
                              db_snapshots = no_snapshots, db_bgErr = None\<rparr>
                    in if list_ex (missing_table env d) (GetAllTables (db_version db))
                       then (fst (snd (Close env order db fs)), Inl (Err ''missing sstable''))
                       else (fs, Inr db))))"

text \<open>\<^verbatim>\<open>CompactManifest\<close> closes the manifest, rewrites it and opens it again.  The handle of the open manifest is not a value of the
  model; that a failure to open it again leaves the database without one is not represented.\<close>

definition CompactManifest :: "os_env \<Rightarrow> DB \<Rightarrow> Files \<Rightarrow> Files \<times> go_err option" where
  "CompactManifest env db fs =
     (if \<not> close_ok env manifestName then (fs, Some (Err ''close''))
      else case Rewrite env manifestName (manifest_records (db_version db)) (dbdir fs) of
             (d, Some e) \<Rightarrow> (fs\<lparr>dbdir := fst (OpenManifest env manifestName d)\<rparr>, Some e)
           | (d, None) \<Rightarrow>
               (case OpenManifest env manifestName d of
                  (d, Inl e) \<Rightarrow> (fs\<lparr>dbdir := d\<rparr>, Some e)
                | (d, Inr _) \<Rightarrow> (fs\<lparr>dbdir := d\<rparr>, None)))"

section \<open>The table a replay writes\<close>

interpretation mem_it: internal_iterator mem_it_ops "\<lambda>it. mi_rep \<lparr>mi_iter = it\<rparr>"
proof
  fix it es rest
  assume r: "mi_rep \<lparr>mi_iter = it\<rparr> es rest"
  show "\<exists>it'. op_SeekToFirst mem_it_ops it = Some it' \<and> mi_rep \<lparr>mi_iter = it'\<rparr> es es"
    using mem_iter.seek [OF r] by (auto simp: mi_ops_def mem_it_ops_def mi_SeekToFirst_def)
  show "op_Valid mem_it_ops it \<longleftrightarrow> rest \<noteq> []" using mem_iter.valid [OF r] by (simp add: mi_ops_def mem_it_ops_def mi_Valid_def)
next
  fix it es e rest
  assume r: "mi_rep \<lparr>mi_iter = it\<rparr> es (e # rest)"
  show "\<exists>it'. op_Next mem_it_ops it = Some it' \<and> mi_rep \<lparr>mi_iter = it'\<rparr> es rest"
    using mem_iter.next_ok [OF r] by (auto simp: mi_ops_def mem_it_ops_def mi_Next_def)
  show "op_Key mem_it_ops it = fst e" "op_Value mem_it_ops it = snd e"
    using mem_iter.key [OF r] mem_iter.val [OF r] by (simp_all add: mi_ops_def mem_it_ops_def mi_Key_def mi_Value_def)
qed

text \<open>The replay writes the same table as a flush would, with other numbers for the least sequence number and the size.\<close>

lemma writeMemtable_flush:
  assumes "mem_holds mt es" and "flushMemtable env z mt n d = (d', Inr meta)"
  shows "\<exists>ss sz. writeMemtableToSSTable env z mt (sstName n) n d = (d', Inr (meta\<lparr>SmallestSeq := ss, FileSize := sz\<rparr>))"
proof -
  let ?st = "fold update_stats (map fst es) no_stats"
  note t = flushMemtable_table [OF assms]
  have "mi_rep \<lparr>mi_iter = Memtable_Iterator mt\<rparr> es []" using assms(1) NewMemtableIterator_rep by (auto simp: mem_holds_def NewMemtableIterator_def)
  from mem_it.seek [OF this] obtain it where it: "Iterator_SeekToFirst (Memtable_Iterator mt) = Some it" "mi_rep \<lparr>mi_iter = it\<rparr> es es"
    by (auto simp: mem_it_ops_def)
  obtain d1 b where n: "NewBuilder env (sstName n) d = (d1, Inr b)"
    using t(1) by (cases "NewBuilder env (sstName n) d") (auto simp: build_table_def split: sum.splits)
  with t(1) have "snd (and_then (add_all env z es b d1) (Builder_Close env z)) = (d', None)" by (simp add: build_table_def)
  then obtain b4 where "and_then (add_all env z es b d1) (Builder_Close env z) = (b4, d', None)" by (metis prod.collapse)
  then obtain b2 d2 where a: "add_all env z es b d1 = (b2, d2, None)" and c: "Builder_Close env z b2 d2 = (b4, d', None)"
    by (auto simp: and_then_None)
  have "flush_loop mem_it_ops env z it no_stats b d1 = Some (?st, b2, d2, None)"
    using mem_it.flush_loop_rest [OF it(2), of env z no_stats b d1] a by auto
  then have "writeMemtableToSSTable env z mt (sstName n) n d = (d', Inr \<lparr>FileNum = n, Level = 0, SmallestSeq = st_smallestSeq ?st, LargestSeq = st_largestSeq ?st,
      SmallestKey = st_smallest ?st, LargestKey = st_largest ?st, FileSize = Builder_Size b4\<rparr>)"
    using it(1) n c by (simp add: writeMemtableToSSTable_def)
  then show ?thesis using t(2-6) by (cases meta) auto
qed

lemma table_holds_meta: "table_holds z d (meta\<lparr>SmallestSeq := ss, FileSize := sz\<rparr>) es = table_holds z d meta es"
  by (simp add: table_holds_def out_of_range_def)

section \<open>The versions of logged batches\<close>

definition ikey_of :: "bytes \<Rightarrow> u64 \<Rightarrow> byte \<Rightarrow> bytes" where
  "ikey_of k seq t = k @ PutUint64 (push_bit 8 seq OR ucast t)"

definition type_of :: "byte \<Rightarrow> byte" where
  "type_of t = (if t = logicalTypeDelete then RecordTypeTombstone else RecordTypeValue)"

fun versions_of :: "u64 \<Rightarrow> LogicalRecord list \<Rightarrow> entries" where
  "versions_of seq [] = []"
| "versions_of seq (r # rs) = (ikey_of (LKey r) seq (type_of (LType r)), LValue r) # versions_of (seq + 1) rs"

abbreviation batch_versions :: "Batch \<Rightarrow> entries" where
  "batch_versions b \<equiv> versions_of (SeqStart b) (Records b)"

text \<open>A batch as the API builds it, with sequence numbers below 2^56.\<close>

definition api_record :: "LogicalRecord \<Rightarrow> bool" where
  "api_record r \<longleftrightarrow> LType r = logicalTypePut \<or> LType r = logicalTypeDelete \<and> LValue r = []"

definition api_batch :: "Batch \<Rightarrow> bool" where
  "api_batch b \<longleftrightarrow> Records b \<noteq> [] \<and> (\<forall>r\<in>set (Records b). api_record r) \<and> unat (SeqStart b) + length (Records b) \<le> 2 ^ 56"

lemma ikey_of_facts:
  assumes "drop_bit 56 seq = 0"
  shows "EncodeInternalKey k seq t = Inr (ikey_of k seq t)" and "wf_ikey (ikey_of k seq t)" and "trailer_seq (ikey_of k seq t) = seq"
    and "ExtractUserKey (ikey_of k seq t) = k"
proof -
  show e: "EncodeInternalKey k seq t = Inr (ikey_of k seq t)" using EncodeInternalKey_ok [OF assms] by (simp add: ikey_of_def)
  show "wf_ikey (ikey_of k seq t)" "trailer_seq (ikey_of k seq t) = seq" "ExtractUserKey (ikey_of k seq t) = k"
    using EncodeInternalKey_Inr [OF e] by simp_all
qed

lemma next_seq_small:
  assumes "unat (seq :: u64) + n \<le> 2 ^ 56" and "0 < n"
  shows "drop_bit 56 seq = 0" and "unat (seq + 1) = unat seq + 1"
  using assms by (simp_all add: seq_56_iff unat_word_ariths)

lemma versions_of_seq:
  assumes "e \<in> set (versions_of seq rs)" and "unat seq + length rs \<le> 2 ^ 56"
  shows "unat seq \<le> unat (trailer_seq (fst e)) \<and> unat (trailer_seq (fst e)) < unat seq + length rs \<and> wf_ikey (fst e)"
  using assms
proof (induction rs arbitrary: seq)
  case (Cons r rs)
  have s: "drop_bit 56 seq = 0" "unat (seq + 1) = unat seq + 1" using next_seq_small [of seq "length (r # rs)"] Cons.prems(2) by simp_all
  show ?case using Cons.prems Cons.IH [of "seq + 1"] s ikey_of_facts [OF s(1)] by auto
qed simp

lemma batchMax_unat: "api_batch b \<Longrightarrow> unat (batchMax b) = unat (SeqStart b) + length (Records b) - 1"
proof -
  assume b: "api_batch b"
  then have l: "0 < length (Records b)" "unat (SeqStart b) + length (Records b) \<le> 2 ^ 56" by (auto simp: api_batch_def)
  have "unat (SeqStart b + of_nat (length (Records b))) = unat (SeqStart b) + length (Records b)"
    using l by (simp add: unat_word_ariths unat_of_nat take_bit_nat_eq_self)
  moreover have "1 \<le> unat (SeqStart b) + length (Records b)" using l(1) by linarith
  ultimately show ?thesis unfolding batchMax_def by (subst unat_sub) (simp_all add: word_le_nat_alt)
qed

lemma batch_versions_max: "api_batch b \<Longrightarrow> e \<in> set (batch_versions b) \<Longrightarrow> trailer_seq (fst e) \<le> batchMax b"
  using versions_of_seq [of e "SeqStart b" "Records b"] batchMax_unat [of b] by (auto simp: api_batch_def word_le_nat_alt)

lemma batch_on_disk_api: "api_batch b \<Longrightarrow> batch_on_disk b = b"
proof -
  assume "api_batch b"
  then have "map on_disk (Records b) = Records b"
    by (intro map_idI) (auto simp: api_batch_def api_record_def on_disk_def logicalTypePut_def logicalTypeDelete_def)
  then show ?thesis by (cases b) (simp add: batch_on_disk_def)
qed

section \<open>Replaying records\<close>

text \<open>One memtable and the tables of a version set hold exactly the versions \<open>M\<close>.\<close>

definition state_holds :: "zlib \<Rightarrow> dir \<Rightarrow> VersionSet \<Rightarrow> Memtable \<Rightarrow> entries \<Rightarrow> bool" where
  "state_holds z d vs mt M \<longleftrightarrow> sorted_entries M \<and> wf_entries M \<and>
     (\<exists>es tss. mem_holds mt es \<and> list_all2 (table_holds z d) (GetAllTables vs) tss \<and> set es \<union> set (concat tss) = set M)"

lemma db_holds_state:
  "db_immutables db = [] \<Longrightarrow> db_holds z db fs M \<longleftrightarrow> state_holds z (dbdir fs) (db_version db) (db_memtable db) M"
  by (fastforce simp: db_holds_def state_holds_def list_all2_Cons1)

lemma set_upd_same:
  assumes "wf_entries M" and "wf_ikey k" and "\<forall>w. (k, w) \<in> set M \<longrightarrow> w = v"
  shows "set (upd_entry k v M) = insert (k, v) (set M)"
  using assms
proof (induction k v M rule: upd_entry.induct)
  case (2 k v k' v' es)
  have "Compare k' k = 0 \<Longrightarrow> k' = k \<and> v' = v" using 2 Compare_eq_0_iff [of k' k] by auto
  then show ?case using 2 by auto
qed simp

lemma replay_record_ok:
  assumes h: "state_holds z d (rp_vs rp) (rp_mt rp) M" and r: "api_record r" and seq: "drop_bit 56 seq = 0"
    and e: "e = (ikey_of (LKey r) seq (type_of (LType r)), LValue r)" and same: "\<forall>w. (fst e, w) \<in> set M \<longrightarrow> w = snd e"
  shows "\<exists>mt M'. replay_record coins seq r rp = Inr (rp\<lparr>rp_mt := mt, rp_maxSeq := max seq (rp_maxSeq rp), rp_draws := rp_draws rp + 1\<rparr>) \<and>
    state_holds z d (rp_vs rp) mt M' \<and> set M' = insert e (set M) \<and>
    (\<forall>es. mem_holds (rp_mt rp) es \<longrightarrow> mem_holds mt (upd_entry (fst e) (snd e) es))"
proof -
  let ?k = "fst e" and ?v = "snd e"
  obtain es tss where m: "sorted_entries M" "wf_entries M" "mem_holds (rp_mt rp) es" "list_all2 (table_holds z d) (GetAllTables (rp_vs rp)) tss"
    "set es \<union> set (concat tss) = set M" using h by (auto simp: state_holds_def)
  note ik = ikey_of_facts [OF seq, of "LKey r" "type_of (LType r)"]
  have conv: "convertLogicalType (LType r) = Inr (type_of (LType r))"
    using r by (auto simp: convertLogicalType_def type_of_def api_record_def logicalTypePut_def logicalTypeDelete_def)
  obtain mt where mt: "Memtable_Insert (rp_mt rp) ?k ?v (coins (rp_draws rp)) = Some mt" using mem_rep_Insert m(3) by (metis mem_holds_def)
  have ins: "insert_version (LKey r) seq (type_of (LType r)) (LValue r) (coins (rp_draws rp)) (rp_mt rp) = Inr mt"
    using ik(1) mt e by (simp add: insert_version_def)
  have up: "mem_holds mt (upd_entry ?k ?v xs)" if "mem_holds (rp_mt rp) xs" for xs using insert_version_ok [OF that ins] ik(1) e by auto
  have k: "wf_ikey ?k" using ik(2) e by simp
  have "\<forall>w. (?k, w) \<in> set es \<longrightarrow> w = ?v" "wf_entries es" using same m(3,5) by (auto simp: mem_holds_def)
  then have "set (upd_entry ?k ?v es) = insert e (set es)" "set (upd_entry ?k ?v M) = insert e (set M)"
    using set_upd_same k same m(2) by (metis prod.collapse)+
  moreover from this have "set (upd_entry ?k ?v es) \<union> set (concat tss) = set (upd_entry ?k ?v M)" using m(5) by auto
  then have "state_holds z d (rp_vs rp) mt (upd_entry ?k ?v M)"
    using m(4) sorted_upd_entry [OF m(1)] wf_upd_entry [OF k m(2)] up [OF m(3)] unfolding state_holds_def by blast
  moreover have "replay_record coins seq r rp = Inr (rp\<lparr>rp_mt := mt, rp_maxSeq := max seq (rp_maxSeq rp), rp_draws := rp_draws rp + 1\<rparr>)"
    using conv ins by (simp add: replay_record_def max_def)
  ultimately show ?thesis using up by blast
qed

text \<open>Versions that give each key one value.\<close>

definition agree :: "(bytes \<times> bytes) set \<Rightarrow> bool" where
  "agree E \<longleftrightarrow> (\<forall>k v w. (k, v) \<in> E \<longrightarrow> (k, w) \<in> E \<longrightarrow> v = w)"

lemma agree_mono: "agree F \<Longrightarrow> E \<subseteq> F \<Longrightarrow> agree E"
  unfolding agree_def by (meson subsetD)

lemma replay_records_ok:
  assumes "state_holds z d (rp_vs rp) (rp_mt rp) M" and "\<forall>r\<in>set rs. api_record r" and "unat seq + length rs \<le> 2 ^ 56"
    and "agree (set M \<union> set (versions_of seq rs))" and "\<forall>e\<in>set M. trailer_seq (fst e) \<le> rp_maxSeq rp"
    and "mem_holds (rp_mt rp) es" "set es \<subseteq> E" "set (versions_of seq rs) \<subseteq> E" and "drop_bit 56 (rp_maxSeq rp) = 0"
  shows "\<exists>rp' M' es'. replay_records coins seq rs rp = Inr rp' \<and> state_holds z d (rp_vs rp') (rp_mt rp') M' \<and>
    set M' = set M \<union> set (versions_of seq rs) \<and> rp_vs rp' = rp_vs rp \<and> rp_maxFileNum rp' = rp_maxFileNum rp \<and>
    (\<forall>e\<in>set M'. trailer_seq (fst e) \<le> rp_maxSeq rp') \<and> mem_holds (rp_mt rp') es' \<and> set es' \<subseteq> E \<and> drop_bit 56 (rp_maxSeq rp') = 0"
  using assms
proof (induction rs arbitrary: seq rp M es)
  case Nil
  then show ?case by auto
next
  case (Cons r rs)
  let ?e = "(ikey_of (LKey r) seq (type_of (LType r)), LValue r)"
  have s: "drop_bit 56 seq = 0" "unat (seq + 1) = unat seq + 1" using next_seq_small [of seq "length (r # rs)"] Cons.prems(3) by simp_all
  have "\<forall>w. (fst ?e, w) \<in> set M \<longrightarrow> w = snd ?e" using Cons.prems(4) by (auto simp: agree_def)
  from replay_record_ok [OF Cons.prems(1) _ s(1) HOL.refl this, of coins] Cons.prems(2) obtain mt M1 where
    r: "replay_record coins seq r rp = Inr (rp\<lparr>rp_mt := mt, rp_maxSeq := max seq (rp_maxSeq rp), rp_draws := rp_draws rp + 1\<rparr>)"
      "state_holds z d (rp_vs rp) mt M1" "set M1 = insert ?e (set M)" "\<forall>es. mem_holds (rp_mt rp) es \<longrightarrow> mem_holds mt (upd_entry (fst ?e) (snd ?e) es)"
    by auto
  let ?rp = "rp\<lparr>rp_mt := mt, rp_maxSeq := max seq (rp_maxSeq rp), rp_draws := rp_draws rp + 1\<rparr>"
  have up: "mem_holds mt (upd_entry (fst ?e) (snd ?e) es)" using r(4) Cons.prems(6) by blast
  have "set (upd_entry k v xs) \<subseteq> insert (k, v) (set xs)" if "wf_ikey k" "wf_entries xs" for k v xs
    using that
  proof (induction k v xs rule: upd_entry.induct)
    case (2 k v k' v' es)
    then show ?case using Compare_eq_0_iff [of k' k] by auto
  qed simp
  then have sub: "set (upd_entry (fst ?e) (snd ?e) es) \<subseteq> E"
    using Cons.prems(6-8) ikey_of_facts(2) [OF s(1), of "LKey r" "type_of (LType r)"] by (fastforce simp: mem_holds_def)
  have "agree (set M1 \<union> set (versions_of (seq + 1) rs))" using Cons.prems(4) r(3) by simp
  moreover have "\<forall>e\<in>set M1. trailer_seq (fst e) \<le> rp_maxSeq ?rp"
    using Cons.prems(5) r(3) ikey_of_facts(3) [OF s(1)] by (auto simp: le_max_iff_disj)
  moreover have "drop_bit 56 (rp_maxSeq ?rp) = 0" using Cons.prems(9) s(1) by (simp add: max_def)
  ultimately show ?case using Cons.IH [of ?rp M1 "seq + 1" "upd_entry (fst ?e) (snd ?e) es"] r up sub Cons.prems(2,3,8) s(2) by auto
qed

lemma replay_records_max: "replay_records coins seq rs rp = Inr rp' \<Longrightarrow> rp_maxSeq rp \<le> rp_maxSeq rp'"
proof (induction rs arbitrary: seq rp)
  case (Cons r rs)
  then obtain rp1 where "replay_record coins seq r rp = Inr rp1" "replay_records coins (seq + 1) rs rp1 = Inr rp'" by (auto simp: bindr_eq_Inr)
  moreover from this(1) have "rp_maxSeq rp \<le> rp_maxSeq rp1" by (auto simp: replay_record_def bindr_eq_Inr)
  ultimately show ?case using Cons.IH by (meson order_trans)
qed simp

section \<open>The manifest on disk\<close>

text \<open>The manifest file replays to the version set.\<close>

definition manifested :: "dir \<Rightarrow> VersionSet \<Rightarrow> bool" where
  "manifested d v \<longleftrightarrow> (\<exists>f recs. file_at d manifestName = Some f \<and> fdata f = concat (map menc recs) \<and> (\<forall>r\<in>set recs. writable r) \<and>
     apply_records recs NewVersionSet = Inr v)"

lemma manifested_replay: "manifested d v \<Longrightarrow> ReplayManifest no_faults manifestName d = Inr v"
  using replay_log [of d manifestName _ _ no_faults] by (auto simp: manifested_def)

lemma manifested_append:
  assumes "manifested d v" and "writable r" and "apply_record r v = Inr v'"
  shows "\<exists>d'. Manifest_Append no_faults r manifestName d = (d', None) \<and> manifested d' v' \<and> (\<forall>q. q \<noteq> manifestName \<longrightarrow> map_of d' q = map_of d q)"
proof -
  obtain f recs where f: "file_at d manifestName = Some f" "fdata f = concat (map menc recs)" "\<forall>r\<in>set recs. writable r"
    "apply_records recs NewVersionSet = Inr v" using assms(1) by (auto simp: manifested_def)
  obtain d' where d': "Manifest_Append no_faults r manifestName d = (d', None)"
    using Manifest_Append_ok(1) [OF f(1) assms(2)] by (metis prod.collapse)
  have "file_at d' manifestName = Some \<lparr>fdata = fdata f @ menc r, fsynced = length (fdata f @ menc r)\<rparr>"
    using Manifest_Append_ok(2) [OF f(1) assms(2)] d' by simp
  moreover have "fdata f @ menc r = concat (map menc (recs @ [r]))" "apply_records (recs @ [r]) NewVersionSet = Inr v'"
    using f(2,4) assms(3) by (simp_all add: apply_records_append)
  ultimately have "manifested d' v'" using f(3) assms(2) unfolding manifested_def by (intro exI conjI) auto
  then show ?thesis using d' Manifest_Append_other [of _ manifestName no_faults r d] by auto
qed

lemma manifested_frame: "map_of d' manifestName = map_of d manifestName \<Longrightarrow> manifested d' v = manifested d v"
  by (simp add: manifested_def file_at_def)

lemma manifested_file: "manifested d v \<Longrightarrow> \<exists>f. map_of d manifestName = Some (FileE f)"
  by (auto simp: manifested_def file_at_def split: option.splits dirent.splits)

lemma OpenManifest_existing: "map_of d p = Some (FileE f) \<Longrightarrow> OpenManifest no_faults p d = (d, Inr p)"
  by (simp add: OpenManifest_def file_create_def)

lemma writable_cutoff: "writable (cutoff_edit seq)"
  by (simp add: writable_def Manifest_EncodeRecord_eq encode_data_def cutoff_edit_def manifest_body_def)

lemma writable_add:
  assumes "length (SmallestKey meta) + length (LargestKey meta) < 2 ^ 32 - 100"
  shows "writable (add_edit meta)"
  using assms by (simp add: writable_def Manifest_EncodeRecord_eq encode_data_def add_edit_def manifest_body_def encode_add_def)

lemma cost_member: "e \<in> set es \<Longrightarrow> 100 + length (fst e) \<le> cost es"
  by (induction es) (auto simp: case_prod_beta cost_def)

lemma flushed_writable:
  assumes "mem_holds mt es" and "flushMemtable env z mt n d = (d', Inr meta)" and "cost es < 2 ^ 31"
  shows "writable (add_edit (meta\<lparr>SmallestSeq := ss, FileSize := sz\<rparr>))"
proof (cases "es = []")
  case True
  then show ?thesis using flushMemtable_table(4,5) [OF assms(1,2)] by (intro writable_add) (simp add: no_stats_def)
next
  case False
  then have "SmallestKey meta = fst (hd es)" "LargestKey meta = fst (last es)"
    using flushMemtable_table(4,5) [OF assms(1,2)] stats_facts [of "map fst es"] by (simp_all add: hd_map last_map)
  then show ?thesis using cost_member [of "hd es" es] cost_member [of "last es" es] False assms(3) by (intro writable_add) simp
qed

section \<open>Writing a table during the replay\<close>

text \<open>What holds between the records of a replay that has seen versions \<open>E\<close>.\<close>

definition small_seqs :: "VersionSet \<Rightarrow> bool" where
  "small_seqs v \<longleftrightarrow> drop_bit 56 (WALCutoffSeq v) = 0 \<and> (\<forall>t\<in>set (GetAllTables v). drop_bit 56 (LargestSeq t) = 0)"

definition replay_inv :: "zlib \<Rightarrow> (bytes \<times> bytes) set \<Rightarrow> Replay \<Rightarrow> dir \<Rightarrow> entries \<Rightarrow> bool" where
  "replay_inv z E rp d M \<longleftrightarrow> state_holds z d (rp_vs rp) (rp_mt rp) M \<and> (\<exists>es. mem_holds (rp_mt rp) es \<and> set es \<subseteq> E) \<and>
     (\<forall>e\<in>set M. trailer_seq (fst e) \<le> rp_maxSeq rp) \<and> (\<forall>t\<in>set (GetAllTables (rp_vs rp)). FileNum t \<le> rp_maxFileNum rp) \<and>
     length (Levels (rp_vs rp)) = NumLevels \<and> manifested d (rp_vs rp) \<and> (\<forall>n. map_of d (sstName n) \<noteq> Some DirE) \<and>
     small_seqs (rp_vs rp) \<and> drop_bit 56 (rp_maxSeq rp) = 0 \<and> WALCutoffSeq (rp_vs rp) \<le> rp_maxSeq rp"

definition fits_table :: "(bytes \<times> bytes) set \<Rightarrow> bool" where
  "fits_table E \<longleftrightarrow> (\<forall>es. distinct es \<longrightarrow> set es \<subseteq> E \<longrightarrow> cost es < 2 ^ 31)"

lemma seq_of_trailer_small: "drop_bit 56 (trailer_seq k) = 0"
  by (simp add: ExtractTrailer_def Let_def drop_bit_word_beyond)

lemma flushed_seq:
  assumes "mem_holds mt es" and "flushMemtable env z mt n d = (d', Inr meta)"
  shows "drop_bit 56 (LargestSeq meta) = 0"
proof -
  have "drop_bit 56 (st_largestSeq (fold update_stats ks no_stats)) = 0" for ks
    by (induction ks rule: rev_induct) (simp_all add: update_stats_def no_stats_def Let_def seq_of_trailer_small)
  then show ?thesis using flushMemtable_table(6) [OF assms] by simp
qed

lemma small_seqs_AddTable:
  assumes "small_seqs v" and "length (Levels v) = NumLevels" and "AddTable meta v = (v', None)" and "drop_bit 56 (LargestSeq meta) = 0"
  shows "small_seqs v'" and "WALCutoffSeq v' = WALCutoffSeq v"
proof -
  have "set (GetAllTables v') = insert meta (set (GetAllTables v))"
    using mset_AddTable(1) [OF assms(2,3)] by (metis set_mset_mset set_mset_add_mset_insert)
  moreover show "WALCutoffSeq v' = WALCutoffSeq v" using assms(3) by (auto simp: AddTable_def Let_def split: if_splits)
  ultimately show "small_seqs v'" using assms(1,4) by (simp add: small_seqs_def)
qed

lemma state_holds_flushed:
  assumes h: "state_holds z d v mt M" and t: "\<And>es. mem_holds mt es \<Longrightarrow> table_holds z d meta es"
    and v': "mset (GetAllTables v') = add_mset meta (mset (GetAllTables v))"
  shows "state_holds z d v' Memtable_New M"
proof -
  let ?fs = "\<lparr>dbdir = d, waldir = []\<rparr>"
  define db where "db = (fresh_db undefined)\<lparr>db_version := v, db_memtable := mt\<rparr>"
  have "db_holds z db ?fs M" using h db_holds_state [of db z ?fs M] by (simp add: db_def fresh_db_def)
  from db_holds_flushed(2) [OF db_holds_rotate [OF this], of mt "[]" meta v']
  have "db_holds z ((rotateMemtableLocked db)\<lparr>db_version := v', db_immutables := []\<rparr>) ?fs M"
    using t v' by (simp add: db_def fresh_db_def rotateMemtableLocked_def)
  then show ?thesis
    using db_holds_state [of "(rotateMemtableLocked db)\<lparr>db_version := v', db_immutables := []\<rparr>" z ?fs M]
    by (simp add: rotateMemtableLocked_def)
qed

lemma state_holds_dir:
  assumes "state_holds z d v mt M"
    and "\<And>t. t \<in> set (GetAllTables v) \<Longrightarrow> file_at d' (sstName (FileNum t)) = file_at d (sstName (FileNum t))"
  shows "state_holds z d' v mt M"
  using assms(1) tables_frame [of z d "GetAllTables v" _ d'] assms(2) unfolding state_holds_def by blast

lemma replay_page_holds:
  assumes inv: "replay_inv z E rp d M" and es: "mem_holds (rp_mt rp) es" and f: "flushMemtable no_faults z (rp_mt rp) (rp_maxFileNum rp + 1) d = (d1, Inr meta0)"
    and meta: "meta = meta0\<lparr>SmallestSeq := ss, FileSize := sz\<rparr>" and v: "AddTable meta (rp_vs rp) = (v, None)" and d2: "manifested d2 v"
    "\<forall>q. q \<noteq> manifestName \<longrightarrow> map_of d2 q = map_of d1 q" and z: "zlib_inverse z" and c: "cost es < 2 ^ 31" and n: "rp_maxFileNum rp < rp_maxFileNum rp + 1"
  shows "replay_inv z E (rp\<lparr>rp_vs := v, rp_mt := Memtable_New, rp_maxFileNum := rp_maxFileNum rp + 1\<rparr>) d2 M"
proof -
  let ?n = "rp_maxFileNum rp + 1"
  have i: "state_holds z d (rp_vs rp) (rp_mt rp) M" "length (Levels (rp_vs rp)) = NumLevels" "\<forall>e\<in>set M. trailer_seq (fst e) \<le> rp_maxSeq rp"
    "\<forall>t\<in>set (GetAllTables (rp_vs rp)). FileNum t \<le> rp_maxFileNum rp" "\<forall>n. map_of d (sstName n) \<noteq> Some DirE" "drop_bit 56 (rp_maxSeq rp) = 0"
    "small_seqs (rp_vs rp)" "WALCutoffSeq (rp_vs rp) \<le> rp_maxSeq rp"
    using inv by (auto simp: replay_inv_def)
  note m = mset_AddTable [OF i(2) v]
  have name: "FileNum meta = ?n" using flushMemtable_table(2) [OF es f] meta by simp
  have same: "map_of d2 q = map_of d q" if "q \<noteq> sstName ?n" "q \<noteq> manifestName" for q
    using d2(2) that flushMemtable_other [OF es f that(1)] by simp
  have fa: "file_at d2 (sstName k) = file_at d1 (sstName k)" for k using d2(2) sstName_manifest file_at_cong by metis
  have th: "table_holds z d2 meta xs" if "mem_holds (rp_mt rp) xs" for xs
    using flushMemtable_holds(1) [OF es f z c] mem_holds_unique [OF es that] table_holds_frame [OF fa, of z meta] table_holds_meta meta by metis
  have "state_holds z d2 (rp_vs rp) (rp_mt rp) M" using i(1)
  proof (rule state_holds_dir)
    fix t assume "t \<in> set (GetAllTables (rp_vs rp))"
    then have "sstName (FileNum t) \<noteq> sstName ?n" using i(4) n by (auto simp: sstName_inj)
    then show "file_at d2 (sstName (FileNum t)) = file_at d (sstName (FileNum t))" using same sstName_manifest file_at_cong by metis
  qed
  from state_holds_flushed [OF this th m(1)] have "state_holds z d2 v Memtable_New M" .
  moreover have "map_of d2 (sstName k) \<noteq> Some DirE" for k
  proof (cases "k = ?n")
    case True
    have "file_at d2 (sstName ?n) \<noteq> None" using th [OF es] name by (auto simp: table_holds_def)
    then show ?thesis using True by (auto simp: file_at_def)
  next
    case False
    then show ?thesis using same [of "sstName k"] i(5) sstName_manifest sstName_inj by metis
  qed
  moreover have "set (GetAllTables v) = insert meta (set (GetAllTables (rp_vs rp)))" using m(1) by (metis set_mset_mset set_mset_add_mset_insert)
  moreover have "mem_holds Memtable_New []" using mem_rep_New by (simp add: mem_holds_def)
  then have "\<exists>es. mem_holds Memtable_New es \<and> set es \<subseteq> E" by (intro exI [of _ "[]"]) simp
  moreover have "small_seqs v" "WALCutoffSeq v \<le> rp_maxSeq rp" using small_seqs_AddTable [OF i(7,2) v] flushed_seq [OF es f] meta i(8) by simp_all
  ultimately show ?thesis using i(3,4,6) m(2) d2(1) name n by (auto simp: replay_inv_def intro: order_trans less_imp_le)
qed

lemma replay_page_ok:
  assumes inv: "replay_inv z E rp d M" and E: "fits_table E" and z: "zlib_inverse z" and n: "rp_maxFileNum rp < rp_maxFileNum rp + 1"
  shows "\<exists>d' rp'. replay_page (\<lambda>_. no_faults) z sizeLimit rp d = (d', Inr rp') \<and> replay_inv z E rp' d' M \<and>
    unat (rp_maxFileNum rp') \<le> unat (rp_maxFileNum rp) + 1 \<and> WALCutoffSeq (rp_vs rp') = WALCutoffSeq (rp_vs rp)"
proof (cases "Memtable_ApproximateSize (rp_mt rp) > sizeLimit")
  case False
  then show ?thesis using inv by (auto simp: replay_page_def)
next
  case True
  let ?n = "rp_maxFileNum rp + 1"
  obtain es where es: "mem_holds (rp_mt rp) es" "set es \<subseteq> E" using inv by (auto simp: replay_inv_def)
  have "distinct es" using es(1) mem_rep_sorted [of "rp_mt rp" es] sorted_entries_distinct [of es] by (simp add: mem_holds_def distinct_map)
  then have c: "cost es < 2 ^ 31" using E es(2) by (simp add: fits_table_def)
  then have "length es \<le> 2 ^ 28" using length_concat_cost [of es] by simp
  moreover have dirs: "\<forall>n. map_of d (sstName n) \<noteq> Some DirE" using inv by (simp add: replay_inv_def)
  ultimately obtain d1 meta where f: "flushMemtable no_faults z (rp_mt rp) ?n d = (d1, Inr meta)"
    using flushMemtable_succeeds [OF es(1), of d ?n z] by blast
  then obtain ss sz where w: "writeMemtableToSSTable no_faults z (rp_mt rp) (sstName ?n) ?n d = (d1, Inr (meta\<lparr>SmallestSeq := ss, FileSize := sz\<rparr>))"
    using writeMemtable_flush [OF es(1) f] by blast
  let ?meta = "meta\<lparr>SmallestSeq := ss, FileSize := sz\<rparr>"
  note t = flushMemtable_table(2,3) [OF es(1) f] flushMemtable_holds(1) [OF es(1) f z c]
  obtain v where v: "AddTable ?meta (rp_vs rp) = (v, None)" using t(2) by (simp add: AddTable_def NumLevels_def Let_def)
  have m1: "manifested d1 (rp_vs rp)"
    using inv manifested_frame [OF flushMemtable_other [OF es(1) f, of manifestName]] sstName_manifest [of ?n] by (auto simp: replay_inv_def)
  then have o: "OpenManifest no_faults manifestName d1 = (d1, Inr manifestName)" using manifested_file OpenManifest_existing by blast
  obtain d2 where d2: "Manifest_Append no_faults (add_edit ?meta) manifestName d1 = (d2, None)" "manifested d2 v"
    "\<forall>q. q \<noteq> manifestName \<longrightarrow> map_of d2 q = map_of d1 q"
    using manifested_append [OF m1 flushed_writable [OF es(1) f c, of sz ss]] v by auto
  have "WALCutoffSeq v = WALCutoffSeq (rp_vs rp)" using v by (auto simp: AddTable_def Let_def split: if_splits)
  moreover have "unat ?n \<le> unat (rp_maxFileNum rp) + 1" by (simp add: unat_word_ariths)
  ultimately show ?thesis
    using replay_page_holds [OF inv es(1) f HOL.refl v d2(2,3) z c n] True w v o d2(1) by (simp add: replay_page_def Let_def)
qed

section \<open>Replaying the log\<close>

text \<open>The versions of the batches above the cutoff.\<close>

definition logged_above :: "u64 \<Rightarrow> Batch list \<Rightarrow> (bytes \<times> bytes) set" where
  "logged_above ctf bs = (\<Union>b\<in>{b\<in>set bs. ctf < batchMax b}. set (batch_versions b))"

lemma logged_above_simps:
  "logged_above ctf [] = {}"
  "logged_above ctf (b # bs) = (if ctf < batchMax b then set (batch_versions b) else {}) \<union> logged_above ctf bs"
  by (auto simp: logged_above_def)

lemma replay_batch_ok:
  assumes inv: "replay_inv z E rp d M" and b: "api_batch b" and ag: "agree (set M \<union> set (batch_versions b))"
    and sub: "logged_above (WALCutoffSeq (rp_vs rp)) [b] \<subseteq> E" and E: "fits_table E" and z: "zlib_inverse z" and n: "rp_maxFileNum rp < rp_maxFileNum rp + 1"
  shows "\<exists>d' rp' M'. replay_batch (\<lambda>_. no_faults) z coins sizeLimit b rp d = (d', Inr rp') \<and> replay_inv z E rp' d' M' \<and>
    set M' = set M \<union> logged_above (WALCutoffSeq (rp_vs rp)) [b] \<and>
    unat (rp_maxFileNum rp') \<le> unat (rp_maxFileNum rp) + 1 \<and> WALCutoffSeq (rp_vs rp') = WALCutoffSeq (rp_vs rp)"
proof (cases "batchMax b \<le> WALCutoffSeq (rp_vs rp)")
  case True
  then show ?thesis using inv by (auto simp: replay_batch_def logged_above_simps)
next
  case False
  then have l: "logged_above (WALCutoffSeq (rp_vs rp)) [b] = set (batch_versions b)" by (simp add: logged_above_simps not_le)
  obtain es where es: "mem_holds (rp_mt rp) es" "set es \<subseteq> E" using inv by (auto simp: replay_inv_def)
  have "state_holds z d (rp_vs rp) (rp_mt rp) M" "\<forall>e\<in>set M. trailer_seq (fst e) \<le> rp_maxSeq rp" "drop_bit 56 (rp_maxSeq rp) = 0"
    using inv by (auto simp: replay_inv_def)
  moreover have "\<forall>r\<in>set (Records b). api_record r" "unat (SeqStart b) + length (Records b) \<le> 2 ^ 56" using b by (auto simp: api_batch_def)
  moreover have "set (batch_versions b) \<subseteq> E" using sub l by simp
  ultimately obtain rp1 M1 es1 where r: "replay_records coins (SeqStart b) (Records b) rp = Inr rp1" "state_holds z d (rp_vs rp1) (rp_mt rp1) M1"
    "set M1 = set M \<union> set (batch_versions b)" "rp_vs rp1 = rp_vs rp" "rp_maxFileNum rp1 = rp_maxFileNum rp"
    "\<forall>e\<in>set M1. trailer_seq (fst e) \<le> rp_maxSeq rp1" "mem_holds (rp_mt rp1) es1" "set es1 \<subseteq> E" "drop_bit 56 (rp_maxSeq rp1) = 0"
    using replay_records_ok [OF _ _ _ ag _ es, of z d coins] by blast
  have "replay_inv z E rp1 d M1" using inv r(2-9) replay_records_max [OF r(1)] by (auto simp: replay_inv_def)
  from replay_page_ok [OF this E z, of sizeLimit] n r show ?thesis using False l by (auto simp: replay_batch_def)
qed

lemma replay_batches_ok:
  assumes "replay_inv z E rp d M" and "\<forall>b\<in>set bs. api_batch b" and "agree (set M \<union> (\<Union>b\<in>set bs. set (batch_versions b)))"
    and "logged_above (WALCutoffSeq (rp_vs rp)) bs \<subseteq> E" and "fits_table E" and "zlib_inverse z" and "unat (rp_maxFileNum rp) + length bs < 2 ^ 64"
  shows "\<exists>d' rp' M'. replay_batches (\<lambda>_. no_faults) z coins sizeLimit bs rp d = (d', Inr rp') \<and> replay_inv z E rp' d' M' \<and>
    set M' = set M \<union> logged_above (WALCutoffSeq (rp_vs rp)) bs \<and>
    unat (rp_maxFileNum rp') \<le> unat (rp_maxFileNum rp) + length bs \<and> WALCutoffSeq (rp_vs rp') = WALCutoffSeq (rp_vs rp)"
  using assms
proof (induction bs arbitrary: rp d M)
  case Nil
  then show ?case by (auto simp: logged_above_simps)
next
  case (Cons b bs)
  let ?ctf = "WALCutoffSeq (rp_vs rp)"
  have n: "rp_maxFileNum rp < rp_maxFileNum rp + 1" using Cons.prems(7) by (simp add: word_less_nat_alt unat_word_ariths)
  have ag: "agree (set M \<union> set (batch_versions b))" using Cons.prems(3) by (auto simp: agree_def)
  have sub: "logged_above ?ctf [b] \<subseteq> E" "logged_above ?ctf bs \<subseteq> E" using Cons.prems(4) by (auto simp: logged_above_simps split: if_splits)
  obtain d1 rp1 M1 where s: "replay_batch (\<lambda>_. no_faults) z coins sizeLimit b rp d = (d1, Inr rp1)" "replay_inv z E rp1 d1 M1"
    "set M1 = set M \<union> logged_above ?ctf [b]" "unat (rp_maxFileNum rp1) \<le> unat (rp_maxFileNum rp) + 1" "WALCutoffSeq (rp_vs rp1) = ?ctf"
    using replay_batch_ok [OF Cons.prems(1) _ ag sub(1) Cons.prems(5,6) n, of coins sizeLimit] Cons.prems(2) by auto
  have "set M1 \<union> (\<Union>b\<in>set bs. set (batch_versions b)) \<subseteq> set M \<union> (\<Union>b\<in>set (b # bs). set (batch_versions b))"
    using s(3) by (auto simp: logged_above_simps split: if_splits)
  then have ag1: "agree (set M1 \<union> (\<Union>b\<in>set bs. set (batch_versions b)))" by (rule agree_mono [OF Cons.prems(3)])
  have n1: "unat (rp_maxFileNum rp1) + length bs < 2 ^ 64" and api: "\<forall>b\<in>set bs. api_batch b" using Cons.prems(2,7) s(4) by simp_all
  obtain d2 rp2 M2 where t: "replay_batches (\<lambda>_. no_faults) z coins sizeLimit bs rp1 d1 = (d2, Inr rp2)" "replay_inv z E rp2 d2 M2"
    "set M2 = set M1 \<union> logged_above ?ctf bs" "unat (rp_maxFileNum rp2) \<le> unat (rp_maxFileNum rp1) + length bs" "WALCutoffSeq (rp_vs rp2) = ?ctf"
    using Cons.IH [OF s(2) api ag1 _ Cons.prems(5,6) n1] sub(2) unfolding s(5) by blast
  have "set M2 = set M \<union> logged_above ?ctf (b # bs)" using s(3) t(3) by (auto simp: logged_above_simps)
  then show ?case using s(1,4) t by auto
qed

text \<open>Segment by segment is the same as over the whole log.\<close>

lemma replay_batches_append:
  "replay_batches envs z coins sizeLimit (bs @ cs) rp d =
     (case replay_batches envs z coins sizeLimit bs rp d of
        (d, Inl e) \<Rightarrow> (d, Inl e) | (d, Inr rp) \<Rightarrow> replay_batches envs z coins sizeLimit cs rp d)"
  by (induction bs arbitrary: rp d) (simp_all split: prod.split sum.split)

lemma replay_segments_batches:
  assumes "\<forall>p\<in>set paths. snd (scan_records (data_at wd p) 0) = None" and "\<forall>p\<in>set paths. read_ok env p"
  shows "replay_segments env envs z coins sizeLimit wd paths rp d =
    replay_batches envs z coins sizeLimit (concat (map (\<lambda>p. fst (scan_records (data_at wd p) 0)) paths)) rp d"
  using assms
proof (induction paths arbitrary: rp d)
  case (Cons p paths)
  obtain bs where "scan_records (data_at wd p) 0 = (bs, None)" using Cons.prems(1) by (cases "scan_records (data_at wd p) 0") auto
  then show ?case using Cons by (simp add: replay_batches_append split: prod.split sum.split)
qed simp

lemma wal_rep_scans:
  assumes "wal_rep w wd ns bss bs" and "p \<in> set (wal_names wd)"
  shows "snd (scan_records (data_at wd p) 0) = None"
proof -
  obtain n cs s where "p = segmentPath n" "seg_rep wd n cs s"
    using assms wal_rep_names [OF assms(1)] unfolding wal_rep_def list_all2_conv_all_nth in_set_conv_nth
    by (fastforce simp: nth_append split: if_splits)
  then show ?thesis using wal_log.scan_log [of cs "[]"] by (auto simp: seg_rep_def data_at_def)
qed

lemma replay_wal:
  assumes "wal_rep w wd ns bss bs" and "\<forall>b\<in>set (concat bss @ bs). api_batch b"
  shows "replay_segments no_faults envs z coins sizeLimit wd (wal_names wd) rp d = replay_batches envs z coins sizeLimit (concat bss @ bs) rp d"
proof -
  have "map batch_on_disk (concat bss @ bs) = concat bss @ bs" using assms(2) by (intro map_idI batch_on_disk_api) blast
  moreover have "concat (map (\<lambda>p. fst (scan_records (data_at wd p) 0)) (wal_names wd)) = map batch_on_disk (concat bss @ bs)"
    using wal_rep_replay [OF assms(1)] by (simp add: replay_dir_def)
  ultimately show ?thesis using replay_segments_batches [of "wal_names wd" wd no_faults] wal_rep_scans [OF assms(1)] by simp
qed

section \<open>Recovery and opening\<close>

lemma fold_max:
  fixes f :: "'a \<Rightarrow> 'b::linorder"
  shows "(\<forall>x\<in>set xs. f x \<le> fold (\<lambda>x s. if f x > s then f x else s) xs s0) \<and> s0 \<le> fold (\<lambda>x s. if f x > s then f x else s) xs s0 \<and>
    (fold (\<lambda>x s. if f x > s then f x else s) xs s0 = s0 \<or> fold (\<lambda>x s. if f x > s then f x else s) xs s0 \<in> f ` set xs)"
  by (induction xs rule: rev_induct) auto

text \<open>What a database leaves on disk that a recovery can build on: the manifest replays to its version set, the log holds its batches, every
  batch of the log is held, and every version that only a memtable holds is in a batch above the cutoff.  The memtables are
  filled one after the other.\<close>

definition earlier :: "entries \<Rightarrow> entries \<Rightarrow> bool" where
  "earlier es fs \<longleftrightarrow> (\<forall>e\<in>set es. \<forall>f\<in>set fs. trailer_seq (fst e) < trailer_seq (fst f))"

definition log_holds :: "DB \<Rightarrow> Files \<Rightarrow> Batch list \<Rightarrow> bool" where
  "log_holds db fs lg \<longleftrightarrow> (\<exists>ns bss bs. wal_rep (db_wal db) (waldir fs) ns bss bs \<and> concat bss @ bs = lg)"

definition memtables_hold :: "DB \<Rightarrow> entries list \<Rightarrow> bool" where
  "memtables_hold db mss \<longleftrightarrow> list_all2 mem_holds (db_immutables db @ [db_memtable db]) mss"

definition durable :: "zlib \<Rightarrow> DB \<Rightarrow> Files \<Rightarrow> Batch list \<Rightarrow> entries \<Rightarrow> bool" where
  "durable z db fs lg M \<longleftrightarrow> manifested (dbdir fs) (db_version db) \<and> (\<forall>n. map_of (dbdir fs) (sstName n) \<noteq> Some DirE) \<and>
     small_seqs (db_version db) \<and> WALCutoffSeq (db_version db) < db_nextSeq db \<and> log_holds db fs lg \<and> (\<forall>b\<in>set lg. api_batch b \<and> set (batch_versions b) \<subseteq> set M) \<and>
     (\<exists>mss. memtables_hold db mss \<and> sorted_wrt earlier mss \<and> set (concat mss) \<subseteq> logged_above (WALCutoffSeq (db_version db)) lg)"

definition files_below :: "DB \<Rightarrow> bool" where
  "files_below db \<longleftrightarrow> length (Levels (db_version db)) = NumLevels \<and> (\<forall>t\<in>set (GetAllTables (db_version db)). FileNum t < db_nextFileNum db)"

lemma list_all2_same:
  assumes "\<And>x y z. P x y \<Longrightarrow> P x z \<Longrightarrow> y = z" and "list_all2 P xs ys" and "list_all2 P xs zs"
  shows "ys = zs"
  using assms(2,3)
proof (induction xs arbitrary: ys zs)
  case (Cons x xs)
  then show ?case by (auto simp: list_all2_Cons1 intro: assms(1))
qed simp

lemma memtables_unique: "memtables_hold db mss \<Longrightarrow> memtables_hold db mss' \<Longrightarrow> mss = mss'"
  unfolding memtables_hold_def by (rule list_all2_same [OF mem_holds_unique])

lemma db_holds_memtables:
  assumes "db_holds z db fs M"
  obtains mss tss where "memtables_hold db mss" and "list_all2 (table_holds z (dbdir fs)) (GetAllTables (db_version db)) tss"
    and "set (concat mss) \<union> set (concat tss) = set M"
proof -
  obtain es mss tss where h: "mem_holds (db_memtable db) es" "list_all2 mem_holds (db_immutables db) mss"
    "list_all2 (table_holds z (dbdir fs)) (GetAllTables (db_version db)) tss" "set (concat ((es # mss) @ tss)) = set M"
    using assms unfolding db_holds_def by (fastforce simp: list_all2_Cons1)
  have "memtables_hold db (mss @ [es])" using h(1,2) by (simp add: memtables_hold_def list_all2_appendI)
  then show thesis using h(3,4) by (intro that [of "mss @ [es]" tss]) auto
qed

lemma durable_tables:
  assumes "db_holds z db fs M" and "durable z db fs lg M"
  obtains tss where "list_all2 (table_holds z (dbdir fs)) (GetAllTables (db_version db)) tss"
    and "set (concat tss) \<union> logged_above (WALCutoffSeq (db_version db)) lg = set M"
proof -
  obtain mss tss where h: "memtables_hold db mss" "list_all2 (table_holds z (dbdir fs)) (GetAllTables (db_version db)) tss"
    "set (concat mss) \<union> set (concat tss) = set M" using assms(1) by (rule db_holds_memtables)
  have "set (concat mss) \<subseteq> logged_above (WALCutoffSeq (db_version db)) lg"
    using assms(2) memtables_unique [OF h(1)] unfolding durable_def by blast
  moreover have "logged_above (WALCutoffSeq (db_version db)) lg \<subseteq> set M" using assms(2) unfolding durable_def logged_above_def by blast
  ultimately show thesis using h(2,3) by (intro that [of tss]) blast+
qed

lemma replay_start:
  assumes h: "db_holds z db fs M" and d: "durable z db fs lg M" and b: "files_below db"
    and rp: "rp = \<lparr>rp_vs = db_version db, rp_mt = Memtable_New,
      rp_maxSeq = (if WALCutoffSeq (db_version db) > max_seq_of (GetAllTables (db_version db)) then WALCutoffSeq (db_version db) else max_seq_of (GetAllTables (db_version db))),
      rp_maxFileNum = max_file_of (GetAllTables (db_version db)), rp_draws = 0\<rparr>"
    and tss: "list_all2 (table_holds z (dbdir fs)) (GetAllTables (db_version db)) tss" "set (concat tss) \<subseteq> set M"
  shows "\<exists>M0. replay_inv z E rp (dbdir fs) M0 \<and> set M0 = set (concat tss)"
proof -
  let ?ts = "GetAllTables (db_version db)"
  define M0 where "M0 = filter (\<lambda>e. e \<in> set (concat tss)) M"
  have M: "sorted_entries M" "wf_entries M" using h by (simp_all add: db_holds_def)
  have M0: "set M0 = set (concat tss)" "sorted_entries M0" "wf_entries M0" using tss(2) M sorted_filter [of M] by (auto simp: M0_def)
  have new: "mem_holds Memtable_New []" using mem_rep_New by (simp add: mem_holds_def)
  have "state_holds z (dbdir fs) (db_version db) Memtable_New M0"
    unfolding state_holds_def using M0 new tss(1) by (intro conjI exI [of _ "[]"] exI [of _ tss]) auto
  moreover have sm: "small_seqs (db_version db)" using d by (simp add: durable_def)
  have fm: "\<forall>t\<in>set ?ts. LargestSeq t \<le> max_seq_of ?ts" "max_seq_of ?ts = 0 \<or> max_seq_of ?ts \<in> LargestSeq ` set ?ts"
    using fold_max [of ?ts LargestSeq 0] by (auto simp: max_seq_of_def)
  have ff: "\<forall>t\<in>set ?ts. FileNum t \<le> max_file_of ?ts" using fold_max [of ?ts FileNum 0] by (auto simp: max_file_of_def)
  have "drop_bit 56 (rp_maxSeq rp) = 0" "WALCutoffSeq (db_version db) \<le> rp_maxSeq rp" using sm fm(2) rp by (auto simp: small_seqs_def not_less)
  moreover have "trailer_seq (fst e) \<le> rp_maxSeq rp" if e: "e \<in> set M0" for e
  proof -
    obtain es where "es \<in> set tss" "e \<in> set es" using e M0(1) by auto
    then obtain t where "t \<in> set ?ts" "table_holds z (dbdir fs) t es" using tss(1) by (metis in_set_conv_nth list_all2_conv_all_nth)
    then have "trailer_seq (fst e) \<le> max_seq_of ?ts" using \<open>e \<in> set es\<close> fm(1) by (auto simp: table_holds_def intro: order_trans)
    then show ?thesis using rp by (auto intro: order_trans less_imp_le)
  qed
  ultimately have "replay_inv z E rp (dbdir fs) M0"
    using d b ff rp sm new by (auto simp: replay_inv_def durable_def files_below_def)
  then show ?thesis using M0(1) by blast
qed

lemma cost_subset:
  assumes "distinct es" and "set es \<subseteq> set fs"
  shows "cost es \<le> cost fs"
proof -
  let ?c = "\<lambda>(k, v). 100 + length k + length v"
  have "mset_set (set es) \<subseteq># mset_set (set fs)" using assms(2) by (simp add: msubset_mset_set_iff)
  also have "mset_set (set fs) \<subseteq># mset fs" using mset_set_set_mset_msubset [of "mset fs"] by simp
  finally have "mset es \<subseteq># mset fs" by (simp add: mset_set_set [OF assms(1)])
  then obtain X where "mset fs = mset es + X" by (auto simp: mset_subset_eq_exists_conv)
  then have "(\<Sum>x\<in>#mset fs. ?c x) = (\<Sum>x\<in>#mset es. ?c x) + (\<Sum>x\<in>#X. ?c x)" by simp
  then show ?thesis by (simp add: cost_def sum_mset_sum_list flip: mset_map)
qed

text \<open>A log that one table could hold.\<close>

definition small_log :: "Batch list \<Rightarrow> bool" where
  "small_log lg \<longleftrightarrow> cost (concat (map batch_versions lg)) < 2 ^ 31"

lemma small_log_fits: "small_log lg \<Longrightarrow> fits_table (logged_above ctf lg)"
  unfolding fits_table_def
proof (intro allI impI)
  fix es assume s: "small_log lg" and es: "distinct es" "set es \<subseteq> logged_above ctf lg"
  have "logged_above ctf lg \<subseteq> set (concat (map batch_versions lg))" by (auto simp: logged_above_def)
  with es have "cost es \<le> cost (concat (map batch_versions lg))" by (intro cost_subset) blast+
  with s show "cost es < 2 ^ 31" by (simp add: small_log_def)
qed

lemma sorted_agree: "sorted_entries M \<Longrightarrow> agree (set M)"
  using sorted_entries_distinct [of M] by (auto simp: agree_def dest: eq_key_imp_eq_value)

lemma Recover_ok:
  assumes h: "db_holds z db fs M" and d: "durable z db fs lg M" and b: "files_below db" and z: "zlib_inverse z" and small: "small_log lg"
    and n: "unat (db_nextFileNum db) + length lg < 2 ^ 64"
  shows "\<exists>d' rp. Recover no_faults (\<lambda>_. no_faults) z coins sizeLimit fs =
      (fs\<lparr>dbdir := d'\<rparr>, Inr \<lparr>rs_VersionSet = rp_vs rp, rs_Memtable = rp_mt rp, rs_NextSeq = rp_maxSeq rp + 1, rs_NextFileNum = rp_maxFileNum rp\<rparr>) \<and>
    replay_inv z (logged_above (WALCutoffSeq (db_version db)) lg) rp d' M \<and> WALCutoffSeq (rp_vs rp) = WALCutoffSeq (db_version db) \<and>
    unat (rp_maxFileNum rp) \<le> unat (db_nextFileNum db) + length lg"
proof -
  let ?v = "db_version db" and ?ts = "GetAllTables (db_version db)"
  let ?E = "logged_above (WALCutoffSeq ?v) lg"
  define rp where "rp = \<lparr>rp_vs = ?v, rp_mt = Memtable_New, rp_maxSeq = (if WALCutoffSeq ?v > max_seq_of ?ts then WALCutoffSeq ?v else max_seq_of ?ts),
    rp_maxFileNum = max_file_of ?ts, rp_draws = 0\<rparr>"
  obtain tss where t: "list_all2 (table_holds z (dbdir fs)) ?ts tss" "set (concat tss) \<union> ?E = set M" using durable_tables [OF h d] .
  obtain M0 where M0: "replay_inv z ?E rp (dbdir fs) M0" "set M0 = set (concat tss)" using replay_start [OF h d b rp_def t(1), of ?E] t(2) by blast
  obtain ns bss bs where w: "wal_rep (db_wal db) (waldir fs) ns bss bs" "concat bss @ bs = lg" using d by (auto simp: durable_def log_holds_def)
  have api: "\<forall>b\<in>set lg. api_batch b" and sub: "(\<Union>b\<in>set lg. set (batch_versions b)) \<subseteq> set M" using d by (auto simp: durable_def)
  have "max_file_of ?ts = 0 \<or> max_file_of ?ts \<in> FileNum ` set ?ts" using fold_max [of ?ts FileNum 0] by (auto simp: max_file_of_def)
  then have "unat (max_file_of ?ts) \<le> unat (db_nextFileNum db)" using b by (auto simp: files_below_def word_less_nat_alt)
  then have n0: "unat (rp_maxFileNum rp) \<le> unat (db_nextFileNum db)" by (simp add: rp_def)
  have M: "sorted_entries M" "wf_entries M" using h by (simp_all add: db_holds_def)
  have "set M0 \<union> (\<Union>b\<in>set lg. set (batch_versions b)) \<subseteq> set M" using sub unfolding M0(2) t(2) [symmetric] by (simp only: Un_least Un_upper1)
  then have "agree (set M0 \<union> (\<Union>b\<in>set lg. set (batch_versions b)))" by (rule agree_mono [OF sorted_agree [OF M(1)]])
  moreover have c: "WALCutoffSeq (rp_vs rp) = WALCutoffSeq ?v" by (simp add: rp_def)
  moreover have "unat (rp_maxFileNum rp) + length lg < 2 ^ 64" using n n0 by linarith
  ultimately obtain d' rp' M' where r: "replay_batches (\<lambda>_. no_faults) z coins sizeLimit lg rp (dbdir fs) = (d', Inr rp')" "replay_inv z ?E rp' d' M'"
    "set M' = set M0 \<union> ?E" "unat (rp_maxFileNum rp') \<le> unat (rp_maxFileNum rp) + length lg" "WALCutoffSeq (rp_vs rp') = WALCutoffSeq ?v"
    using replay_batches_ok [OF M0(1) api _ _ small_log_fits [OF small] z, of coins sizeLimit] unfolding c by blast
  have "sorted_entries M'" "wf_entries M'" using r(2) by (auto simp: replay_inv_def state_holds_def)
  then have "M' = M" using M r(3) M0(2) t(2) by (intro sorted_set_unique) auto
  moreover have "ReplayManifest no_faults manifestName (dbdir fs) = Inr ?v" using d manifested_replay by (simp add: durable_def)
  then have "Recover no_faults (\<lambda>_. no_faults) z coins sizeLimit fs =
      (fs\<lparr>dbdir := d'\<rparr>, Inr \<lparr>rs_VersionSet = rp_vs rp', rs_Memtable = rp_mt rp', rs_NextSeq = rp_maxSeq rp' + 1, rs_NextFileNum = rp_maxFileNum rp'\<rparr>)"
    using replay_wal [OF w(1), of "\<lambda>_. no_faults" z coins sizeLimit rp "dbdir fs"] api w(2) r(1) by (simp add: Recover_def Let_def rp_def)
  moreover have "unat (rp_maxFileNum rp') \<le> unat (db_nextFileNum db) + length lg" using r(4) n0 by linarith
  ultimately show ?thesis using r(2,5) by blast
qed

lemma Open_ok:
  assumes h: "db_holds z db fs M" and d: "durable z db fs lg M" and b: "files_below db" and z: "zlib_inverse z" and small: "small_log lg"
    and n: "unat (db_nextFileNum db) + length lg + 1 < 2 ^ 64"
  shows "\<exists>fs' db'. Open no_faults (\<lambda>_. no_faults) z coins opts order fs = (fs', Inr db') \<and> db_versions z db' fs' M \<and> durable z db' fs' lg M \<and>
    files_below db' \<and> db_bgErr db' = None \<and> db_opts db' = opts"
proof -
  let ?E = "logged_above (WALCutoffSeq (db_version db)) lg"
  obtain d' rp where r: "Recover no_faults (\<lambda>_. no_faults) z coins (MemtableSizeLimit opts) fs =
      (fs\<lparr>dbdir := d'\<rparr>, Inr \<lparr>rs_VersionSet = rp_vs rp, rs_Memtable = rp_mt rp, rs_NextSeq = rp_maxSeq rp + 1, rs_NextFileNum = rp_maxFileNum rp\<rparr>)"
    "replay_inv z ?E rp d' M" "WALCutoffSeq (rp_vs rp) = WALCutoffSeq (db_version db)" "unat (rp_maxFileNum rp) \<le> unat (db_nextFileNum db) + length lg"
    using Recover_ok [OF h d b z small, of coins "MemtableSizeLimit opts"] n by auto
  have "map_of (dbdir fs) manifestName \<noteq> None" using d manifested_file by (fastforce simp: durable_def)
  then have init: "initial_state no_faults (\<lambda>_. no_faults) z coins opts fs = (fs\<lparr>dbdir := d'\<rparr>,
      Inr \<lparr>rs_VersionSet = rp_vs rp, rs_Memtable = rp_mt rp, rs_NextSeq = rp_maxSeq rp + 1, rs_NextFileNum = rp_maxFileNum rp\<rparr>)"
    using r(1) unfolding initial_state_def by auto
  obtain ns bss bs where w: "wal_rep (db_wal db) (waldir fs) ns bss bs" "concat bss @ bs = lg" using d by (auto simp: durable_def log_holds_def)
  have "wal_stable (db_wal db) (waldir fs) bss bs 0" by (simp add: wal_stable_def)
  from wal_rep_reopen [OF w(1) this, of "64 * 1024 * 1024"] obtain w' where
    w': "OpenWAL no_faults (64 * 1024 * 1024) (waldir fs) = (waldir fs, Inr w')" "wal_rep w' (waldir fs) ns bss bs" by blast
  have man: "manifested d' (rp_vs rp)" and st: "state_holds z d' (rp_vs rp) (rp_mt rp) M" using r(2) by (auto simp: replay_inv_def)
  have om: "OpenManifest no_faults manifestName d' = (d', Inr manifestName)" using manifested_file [OF man] OpenManifest_existing by blast
  let ?n = "rp_maxFileNum rp + 1"
  have n1: "unat ?n = unat (rp_maxFileNum rp) + 1" using r(4) n by (simp add: unat_word_ariths)
  then have n0: "?n \<noteq> 0" by (metis add_is_0 one_neq_zero unat_0)
  let ?fs = "fs\<lparr>dbdir := d'\<rparr>"
  let ?db = "\<lparr>db_wal = w', db_memtable = rp_mt rp, db_immutables = [], db_version = rp_vs rp, db_nextSeq = rp_maxSeq rp + 1,
    db_opts = opts, db_nextFileNum = ?n, db_snapshots = no_snapshots, db_bgErr = None\<rparr>"
  have "\<not> missing_table no_faults d' t" if "t \<in> set (GetAllTables (rp_vs rp))" for t
    using that st by (auto simp: state_holds_def list_all2_conv_all_nth in_set_conv_nth missing_table_def table_holds_def file_at_def split: option.splits)
  then have "Open no_faults (\<lambda>_. no_faults) z coins opts order fs = (?fs, Inr ?db)"
    using init w'(1) om n0 by (simp add: Open_def Let_def list_ex_iff)
  moreover have "db_versions z ?db ?fs M"
  proof -
    have "drop_bit 56 (rp_maxSeq rp) = 0" "\<forall>e\<in>set M. trailer_seq (fst e) \<le> rp_maxSeq rp" using r(2) by (auto simp: replay_inv_def)
    then have "\<forall>e\<in>set M. trailer_seq (fst e) < rp_maxSeq rp + 1" using seq_plus_1 by (auto intro: le_less_trans)
    then show ?thesis using st db_holds_state [of ?db z ?fs M] by (simp add: db_versions_def)
  qed
  moreover have "durable z ?db ?fs lg M"
  proof -
    obtain es where "mem_holds (rp_mt rp) es" "set es \<subseteq> ?E" using r(2) by (auto simp: replay_inv_def)
    then have "\<exists>mss. memtables_hold ?db mss \<and> sorted_wrt earlier mss \<and> set (concat mss) \<subseteq> ?E"
      by (intro exI [of _ "[es]"]) (simp add: memtables_hold_def)
    moreover have "log_holds ?db ?fs lg" using w'(2) w(2) by (auto simp: log_holds_def)
    moreover have "WALCutoffSeq (rp_vs rp) < rp_maxSeq rp + 1" using r(2) seq_plus_1 by (auto simp: replay_inv_def intro: le_less_trans)
    ultimately show ?thesis using r(2,3) d by (simp add: durable_def replay_inv_def)
  qed
  moreover have "files_below ?db" using r(2) n1 by (auto simp: files_below_def replay_inv_def word_less_nat_alt word_le_nat_alt)
  ultimately show ?thesis by auto
qed

end
