(* ===== verification/Durability.thy ===== *)
theory Durability
  imports Recovery
begin

text \<open>
  The engine across crashes.  A run here has writes, freezes, snapshots and flushes as in the running engine, and at any time the process may be killed and
  the database opened again on the files it left.  The kill may come between two steps or inside one: inside a write, after a rotation of the log or after the
  record was written to it, while a table is written, between the two records a flush logs in the manifest, while the log is shortened, and, any number of
  times in a row, while \<^verbatim>\<open>Open\<close> replays the log.  System calls
  succeed, except that writing a table and shortening the log may fail in any way: a failed append to the log or the manifest leaves a torn record behind which
  later records cannot be read, and a power failure can lose a table that was never synced, so neither is part of these runs, nor is a kill in the middle of
  the one system call that appends a record.

  The invariant says what is on disk: the manifest replays to the version set, and every version that is in no table is
  in a batch of the log that a recovery will replay.
\<close>

section \<open>Runs with crashes\<close>

definition batch_of :: "write_op \<Rightarrow> DB \<Rightarrow> Batch" where
  "batch_of op db = \<lparr>SeqStart = db_nextSeq db, Records = op_records op\<rparr>"

text \<open>The files a process leaves that is killed, and the records of a write that was not acknowledged but had reached the log.  A table that is being written
  may be left in any state; a log that is being shortened has lost some of the segments that may go, as if removing the others had failed.\<close>

inductive killed :: "DB \<Rightarrow> Files \<Rightarrow> flush_state \<Rightarrow> LogicalRecord list \<Rightarrow> Files \<Rightarrow> bool" where
  between: "killed db fs fl [] fs"
| in_sync: "WAL_Sync no_faults (db_wal db) (waldir fs) = (wd, None) \<Longrightarrow> killed db fs fl [] (fs\<lparr>waldir := wd\<rparr>)"
| in_rotate: "rotate no_faults (db_wal db) (waldir fs) = (w, wd, None) \<Longrightarrow> activeNum (db_wal db) + 1 < 1000000 \<Longrightarrow>
    killed db fs fl [] (fs\<lparr>waldir := wd\<rparr>)"
| in_write: "WAL_Append no_faults (batch_of op db) (db_wal db) (waldir fs) = (w, wd, None) \<Longrightarrow> wd' = wd \<or> WAL_Sync no_faults w wd = (wd', None) \<Longrightarrow>
    checkBackgroundError db = None \<Longrightarrow> loggable (batch_of op db) \<Longrightarrow> \<forall>r\<in>set (op_records op). api_record r \<Longrightarrow>
    activeNum (db_wal db) + 1 < 1000000 \<Longrightarrow> unat (db_nextSeq db) + length (op_records op) \<le> 2 ^ 56 \<Longrightarrow>
    killed db fs fl (op_records op) (fs\<lparr>waldir := wd'\<rparr>)"
| in_table: "\<forall>q. q \<noteq> sstName n \<longrightarrow> map_of d q = map_of (dbdir fs) q \<Longrightarrow> map_of d (sstName n) \<noteq> Some DirE \<Longrightarrow>
    killed db fs (Begun im n) [] (fs\<lparr>dbdir := d\<rparr>)"
| in_commit: "Manifest_Append no_faults (add_edit meta) manifestName (dbdir fs) = (d, None) \<Longrightarrow>
    killed db fs (Written im meta) [] (fs\<lparr>dbdir := d\<rparr>)"
| in_truncate: "killed db fs (Committed seq) [] (fs\<lparr>waldir := fst (truncate_log env seq (waldir fs))\<rparr>)"

text \<open>An \<^verbatim>\<open>Open\<close> that is killed: it has replayed some batches of the log, with the tables this took, and may have begun one more table.\<close>

definition replay_begin :: "VersionSet \<Rightarrow> Replay" where
  "replay_begin vs =
     (let metas = GetAllTables vs
      in \<lparr>rp_vs = vs, rp_mt = Memtable_New, rp_maxSeq = (if WALCutoffSeq vs > max_seq_of metas then WALCutoffSeq vs else max_seq_of metas),
          rp_maxFileNum = max_file_of metas, rp_draws = 0\<rparr>)"

inductive killed_open :: "zlib \<Rightarrow> Files \<Rightarrow> Files \<Rightarrow> bool" for z where
  replaying: "ReplayManifest no_faults manifestName (dbdir fs) = Inr vs \<Longrightarrow> replay_dir (waldir fs) = bs @ bs' \<Longrightarrow>
    replay_batches (\<lambda>_. no_faults) z coins memtableLimit bs (replay_begin vs) (dbdir fs) = (d, Inr rp) \<Longrightarrow>
    \<forall>q. q \<noteq> sstName (rp_maxFileNum rp + 1) \<longrightarrow> map_of d' q = map_of d q \<Longrightarrow> map_of d' (sstName (rp_maxFileNum rp + 1)) \<noteq> Some DirE \<Longrightarrow>
    killed_open z fs (fs\<lparr>dbdir := d'\<rparr>)"

text \<open>A kill and any number of killed recoveries.  The number bounds the file numbers in use; the log must fit one table.\<close>

inductive left_files :: "zlib \<Rightarrow> Sys \<Rightarrow> LogicalRecord list \<Rightarrow> nat \<Rightarrow> Files \<Rightarrow> bool" for z s where
  kill: "killed (sys_db s) (sys_fs s) (sys_flush s) rs fs \<Longrightarrow> left_files z s rs (unat (db_nextFileNum (sys_db s))) fs"
| again: "left_files z s rs n fs \<Longrightarrow> killed_open z fs fs' \<Longrightarrow> small_log (replay_dir (waldir fs)) \<Longrightarrow>
    n + length (replay_dir (waldir fs)) + 1 < 2 ^ 64 \<Longrightarrow> left_files z s rs (n + length (replay_dir (waldir fs)) + 1) fs'"

inductive dur_step :: "zlib \<Rightarrow> Sys \<Rightarrow> LogicalRecord list \<Rightarrow> Sys \<Rightarrow> bool" for z where
  wr: "run_write no_faults coins op db fs = (db', fs', None) \<Longrightarrow> loggable (batch_of op db) \<Longrightarrow> \<forall>r\<in>set (op_records op). api_record r \<Longrightarrow>
    activeNum (db_wal db) + 1 < 1000000 \<Longrightarrow>
    dur_step z \<lparr>sys_db = db, sys_fs = fs, sys_flush = fl\<rparr> (op_records op) \<lparr>sys_db = db', sys_fs = fs', sys_flush = fl\<rparr>"
| freeze: "dur_step z \<lparr>sys_db = db, sys_fs = fs, sys_flush = fl\<rparr> [] \<lparr>sys_db = rotateMemtableLocked db, sys_fs = fs, sys_flush = fl\<rparr>"
| snap: "dur_step z \<lparr>sys_db = db, sys_fs = fs, sys_flush = fl\<rparr> []
      \<lparr>sys_db = db\<lparr>db_snapshots := fst (GetSnapshot (db_nextSeq db) (db_snapshots db))\<rparr>, sys_fs = fs, sys_flush = fl\<rparr>"
| release: "dur_step z \<lparr>sys_db = db, sys_fs = fs, sys_flush = fl\<rparr> []
      \<lparr>sys_db = db\<lparr>db_snapshots := ReleaseSnapshot s (db_snapshots db)\<rparr>, sys_fs = fs, sys_flush = fl\<rparr>"
| start: "flush_begin db = (db', Some (im, n)) \<Longrightarrow> db_nextFileNum db < db_nextFileNum db + 1 \<Longrightarrow>
    dur_step z \<lparr>sys_db = db, sys_fs = fs, sys_flush = Idle\<rparr> [] \<lparr>sys_db = db', sys_fs = fs, sys_flush = Begun im n\<rparr>"
| table: "flushMemtable env z im n (dbdir fs) = (d, Inr meta) \<Longrightarrow> small_memtable im \<Longrightarrow>
    dur_step z \<lparr>sys_db = db, sys_fs = fs, sys_flush = Begun im n\<rparr> []
      \<lparr>sys_db = db, sys_fs = fs\<lparr>dbdir := d\<rparr>, sys_flush = Written im meta\<rparr>"
| table_fails: "flushMemtable env z im n (dbdir fs) = (d, Inl e) \<Longrightarrow>
    dur_step z \<lparr>sys_db = db, sys_fs = fs, sys_flush = Begun im n\<rparr> []
      \<lparr>sys_db = setBackgroundError e db, sys_fs = fs\<lparr>dbdir := d\<rparr>, sys_flush = Idle\<rparr>"
| commit: "flush_commit (\<lambda>_. no_faults) meta db fs = (db', fs', e) \<Longrightarrow>
    dur_step z \<lparr>sys_db = db, sys_fs = fs, sys_flush = Written im meta\<rparr> []
      \<lparr>sys_db = db', sys_fs = fs', sys_flush = (if e = None then Committed (LargestSeq meta) else Idle)\<rparr>"
| truncate: "flush_truncate env seq db fs = (db', fs', e) \<Longrightarrow>
    dur_step z \<lparr>sys_db = db, sys_fs = fs, sys_flush = Committed seq\<rparr> [] \<lparr>sys_db = db', sys_fs = fs', sys_flush = Idle\<rparr>"
| reopen: "left_files z s rs n fs1 \<Longrightarrow> small_log (replay_dir (waldir fs1)) \<Longrightarrow> n + length (replay_dir (waldir fs1)) + 1 < 2 ^ 64 \<Longrightarrow>
    Open no_faults (\<lambda>_. no_faults) z coins opts order fs1 = (fs', Inr db') \<Longrightarrow>
    dur_step z s rs \<lparr>sys_db = db', sys_fs = fs', sys_flush = Idle\<rparr>"

inductive dur_run :: "zlib \<Rightarrow> Sys \<Rightarrow> LogicalRecord list \<Rightarrow> Sys \<Rightarrow> bool" for z where
  none: "dur_run z s [] s"
| more: "dur_run z s rs s1 \<Longrightarrow> dur_step z s1 rs' s2 \<Longrightarrow> dur_run z s (rs @ rs') s2"

section \<open>The invariant\<close>

definition meta_ready :: "VersionSet \<Rightarrow> flush_state \<Rightarrow> bool" where
  "meta_ready v fl \<longleftrightarrow>
     (case fl of
        Written im meta \<Rightarrow> writable (add_edit meta) \<and> drop_bit 56 (LargestSeq meta) = 0 \<and>
          (\<forall>es. mem_holds im es \<longrightarrow> LargestSeq meta = st_largestSeq (fold update_stats (map fst es) no_stats))
      | Committed seq \<Rightarrow> seq \<le> WALCutoffSeq v
      | _ \<Rightarrow> True)"

definition dur_inv :: "zlib \<Rightarrow> Sys \<Rightarrow> entries \<Rightarrow> bool" where
  "dur_inv z s M \<longleftrightarrow> sys_inv z s M \<and> (\<exists>lg. durable z (sys_db s) (sys_fs s) lg M) \<and> meta_ready (db_version (sys_db s)) (sys_flush s)"

lemma sys_inv_files_below: "sys_inv z s M \<Longrightarrow> files_below (sys_db s)"
  by (simp add: sys_inv_def files_below_def)

lemma durable_frame:
  assumes "durable z db fs lg M" and "db_wal db' = db_wal db" "db_memtable db' = db_memtable db" "db_immutables db' = db_immutables db"
    "db_version db' = db_version db" "db_nextSeq db' = db_nextSeq db" and "dbdir fs' = dbdir fs" "waldir fs' = waldir fs"
  shows "durable z db' fs' lg M"
  using assms by (simp add: durable_def log_holds_def memtables_hold_def)

lemma durableI:
  assumes "manifested (dbdir fs) (db_version db)" and "\<And>n. map_of (dbdir fs) (sstName n) \<noteq> Some DirE" and "small_seqs (db_version db)"
    and "WALCutoffSeq (db_version db) < db_nextSeq db" and "log_holds db fs lg" and "\<And>b. b \<in> set lg \<Longrightarrow> api_batch b \<and> set (batch_versions b) \<subseteq> set M"
    and "memtables_hold db mss" and "sorted_wrt earlier mss" and "set (concat mss) \<subseteq> logged_above (WALCutoffSeq (db_version db)) lg"
  shows "durable z db fs lg M"
  using assms unfolding durable_def by blast

lemma durable_log: "durable z db fs lg M \<Longrightarrow> replay_dir (waldir fs) = lg"
proof -
  assume d: "durable z db fs lg M"
  then have "map batch_on_disk lg = lg" by (intro map_idI batch_on_disk_api) (auto simp: durable_def)
  then show ?thesis using d wal_rep_replay by (auto simp: durable_def log_holds_def)
qed

lemma durable_rotate: "durable z db fs lg M \<Longrightarrow> durable z (rotateMemtableLocked db) fs lg M"
proof -
  assume d: "durable z db fs lg M"
  let ?db = "rotateMemtableLocked db"
  obtain mss where m: "memtables_hold db mss" "sorted_wrt earlier mss" "set (concat mss) \<subseteq> logged_above (WALCutoffSeq (db_version db)) lg"
    using d by (auto simp: durable_def)
  have "mem_holds Memtable_New []" using mem_rep_New by (simp add: mem_holds_def)
  then have "memtables_hold ?db (mss @ [[]])" 
    using list_all2_appendI [of mem_holds _ mss "[Memtable_New]" "[[]]"] m(1) by (fastforce simp: memtables_hold_def rotateMemtableLocked_def)
  moreover have "sorted_wrt earlier (mss @ [[]])" "set (concat (mss @ [[]])) = set (concat mss)" using m(2) by (simp_all add: sorted_wrt_append earlier_def)
  ultimately have "\<exists>mss. memtables_hold ?db mss \<and> sorted_wrt earlier mss \<and> set (concat mss) \<subseteq> logged_above (WALCutoffSeq (db_version db)) lg"
    using m(3) by metis
  then show ?thesis using d by (simp add: durable_def rotateMemtableLocked_def log_holds_def)
qed

lemma durable_maybe_rotate: "durable z db fs lg M \<Longrightarrow> durable z (maybe_rotate db) fs lg M"
  by (simp add: maybe_rotate_def durable_rotate)

section \<open>A table's contents are determined\<close>

lemma table_holds_unique:
  assumes "table_holds z d meta es" and "table_holds z d meta es'"
  shows "es = es'"
proof -
  have ok: "reads_ok no_faults" by (simp add: reads_ok_def)
  obtain its its' where o: "open_tables no_faults z d [meta] = Inr its" "list_all2 (\<lambda>it es. tab_rep no_faults z it es []) its [es]"
    and o': "open_tables no_faults z d [meta] = Inr its'" "list_all2 (\<lambda>it es. tab_rep no_faults z it es []) its' [es']"
    using open_tables_ok [OF ok, of z d "[meta]" "[es]"] open_tables_ok [OF ok, of z d "[meta]" "[es']"] assms
    by (force simp: list_all2_Cons2)
  then obtain it where "tab_rep no_faults z it es []" "tab_rep no_faults z it es' []" by (auto simp: list_all2_Cons2)
  from tab_iter.seek_drain [OF this(1), of "max (length es) (length es')"] tab_iter.seek_drain [OF this(2), of "max (length es) (length es')"]
  show ?thesis by simp
qed

lemma db_holds_parts:
  assumes "db_holds z db fs M" and "memtables_hold db mss" and "list_all2 (table_holds z (dbdir fs)) (GetAllTables (db_version db)) tss"
  shows "set M = set (concat mss) \<union> set (concat tss)"
proof -
  obtain mss' tss' where p: "memtables_hold db mss'" "list_all2 (table_holds z (dbdir fs)) (GetAllTables (db_version db)) tss'"
    "set (concat mss') \<union> set (concat tss') = set M" using assms(1) by (rule db_holds_memtables)
  have "mss' = mss" by (rule memtables_unique [OF p(1) assms(2)])
  moreover have "tss' = tss" by (rule list_all2_same [OF table_holds_unique p(2) assms(3)])
  ultimately show ?thesis using p(3) by simp
qed

lemma db_holds_unique:
  assumes "db_holds z db fs M" and "db_holds z db fs N"
  shows "M = N"
proof -
  obtain mss tss where "memtables_hold db mss" "list_all2 (table_holds z (dbdir fs)) (GetAllTables (db_version db)) tss"
    using assms(1) by (rule db_holds_memtables)
  then have "set M = set N" using db_holds_parts assms by metis
  then show ?thesis using assms by (intro sorted_set_unique) (auto simp: db_holds_def)
qed

section \<open>Writes\<close>

lemma apply_batch_mem:
  assumes "mem_holds m es" and "apply_batch coins seq rs m = (seq', m', None)" and "\<forall>e\<in>set es. trailer_seq (fst e) < seq"
  shows "\<exists>es'. mem_holds m' es' \<and> set es' = set es \<union> set (versions_of seq rs) \<and> (rs = [] \<or> unat seq + length rs \<le> 2 ^ 56)"
  using assms
proof (induction rs arbitrary: m es seq)
  case Nil
  then show ?case by auto
next
  case (Cons r rs)
  let ?t = "type_of (LType r)"
  obtain m1 where i: "insert_version (LKey r) seq ?t (LValue r) (coins (length rs)) m = Inr m1"
    and rest: "apply_batch coins (seq + 1) rs m1 = (seq', m', None)"
    using Cons.prems(2) by (auto simp: Let_def type_of_def split: sum.splits)
  obtain ik where ik: "EncodeInternalKey (LKey r) seq ?t = Inr ik" "mem_holds m1 (upd_entry ik (LValue r) es)"
    using insert_version_ok [OF Cons.prems(1) i] by blast
  have s: "drop_bit 56 seq = 0" using EncodeInternalKey_Inr(1) [OF ik(1)] .
  note f = ikey_of_facts [OF s, of "LKey r" ?t]
  have k: "ik = ikey_of (LKey r) seq ?t" using ik(1) f(1) by simp
  have wf: "wf_entries es" using Cons.prems(1) by (simp add: mem_holds_def)
  have "ik \<notin> fst ` set es" using Cons.prems(3) f(3) k by auto
  then have set1: "set (upd_entry ik (LValue r) es) = insert (ik, LValue r) (set es)" using set_upd_entry [OF wf] f(2) k by blast
  have lt: "seq < seq + 1" using s by (rule seq_plus_1)
  have "\<forall>e\<in>set (upd_entry ik (LValue r) es). trailer_seq (fst e) < seq + 1"
    using Cons.prems(3) f(3) k lt unfolding set1 by (auto intro: order_less_trans)
  from Cons.IH [OF ik(2) rest this] obtain es' where "mem_holds m' es'" "set es' = insert (ik, LValue r) (set es) \<union> set (versions_of (seq + 1) rs)"
    "rs = [] \<or> unat (seq + 1) + length rs \<le> 2 ^ 56" using set1 by auto
  moreover have "unat seq < 2 ^ 56" "unat (seq + 1) = unat seq + 1" using s by (simp_all add: seq_56_iff unat_word_ariths)
  ultimately show ?case using k by auto
qed

lemma logged_above_append: "logged_above ctf (xs @ ys) = logged_above ctf xs \<union> logged_above ctf ys"
  by (auto simp: logged_above_def)

lemma durable_append:
  assumes v: "db_versions z db fs M" and d: "durable z db fs lg M" and rs: "rs \<noteq> []" "\<forall>r\<in>set rs. api_record r"
    and b: "b = \<lparr>SeqStart = db_nextSeq db, Records = rs\<rparr>" and a: "apply_batch coins (db_nextSeq db) rs (db_memtable db) = (seq, m, None)"
    and w: "wal_rep w wd ns bss bs" "concat bss @ bs = lg @ [b]"
    and v': "db_versions z (db\<lparr>db_wal := w, db_memtable := m, db_nextSeq := seq\<rparr>) (fs\<lparr>waldir := wd\<rparr>) M'" "db_nextSeq db \<le> seq"
  shows "durable z (db\<lparr>db_wal := w, db_memtable := m, db_nextSeq := seq\<rparr>) (fs\<lparr>waldir := wd\<rparr>) (lg @ [b]) M'"
proof -
  let ?db = "db\<lparr>db_wal := w, db_memtable := m, db_nextSeq := seq\<rparr>" and ?ctf = "WALCutoffSeq (db_version db)"
  obtain mss0 tss where t: "list_all2 (table_holds z (dbdir fs)) (GetAllTables (db_version db)) tss" "memtables_hold db mss0" "set (concat mss0) \<union> set (concat tss) = set M"
    using v db_holds_memtables by (metis db_versions_def)
  obtain mss where mss: "memtables_hold db mss" "sorted_wrt earlier mss" "set (concat mss) \<subseteq> logged_above ?ctf lg" using d by (auto simp: durable_def)
  have M: "set (concat mss) \<union> set (concat tss) = set M" using t(2,3) memtables_unique [OF mss(1)] by simp
  obtain ms es where ms: "mss = ms @ [es]" "list_all2 mem_holds (db_immutables db) ms" "mem_holds (db_memtable db) es"
    using mss(1) by (auto simp: memtables_hold_def list_all2_append1 list_all2_Cons1)
  have below: "\<forall>e\<in>set M. trailer_seq (fst e) < db_nextSeq db" using v by (simp add: db_versions_def)
  then have "\<forall>e\<in>set es. trailer_seq (fst e) < db_nextSeq db" using M ms(1) by auto
  from apply_batch_mem [OF ms(3) a this] obtain es' where es': "mem_holds m es'" "set es' = set es \<union> set (batch_versions b)"
    "unat (db_nextSeq db) + length rs \<le> 2 ^ 56" using rs(1) b by auto
  have api: "api_batch b" using rs es'(3) b by (simp add: api_batch_def)
  have new: "memtables_hold ?db (ms @ [es'])" using ms(2) es'(1) by (simp add: memtables_hold_def list_all2_appendI)
  have seqs: "db_nextSeq db \<le> trailer_seq (fst e)" if "e \<in> set (batch_versions b)" for e
    using versions_of_seq [OF that] es'(3) b by (simp add: word_le_nat_alt)
  have old: "trailer_seq (fst e) < db_nextSeq db" if "x \<in> set ms" "e \<in> set x" for x e using that below M ms(1) by auto
  have "earlier x es'" if x: "x \<in> set ms" for x
  proof -
    have "earlier x es" using mss(2) ms(1) x by (simp add: sorted_wrt_append)
    then show ?thesis using es'(2) less_le_trans [OF old [OF x] seqs] unfolding earlier_def by auto
  qed
  then have sorted: "sorted_wrt earlier (ms @ [es'])" using mss(2) ms(1) by (simp add: sorted_wrt_append)
  have "?ctf < batchMax b"
    using d batchMax_unat [OF api] rs(1) b by (cases rs) (auto simp: durable_def word_less_nat_alt)
  then have above: "set (concat (ms @ [es'])) \<subseteq> logged_above ?ctf (lg @ [b])"
    using mss(3) ms(1) es'(2) by (auto simp: logged_above_append logged_above_simps)
  have "set M' = set (concat (ms @ [es'])) \<union> set (concat tss)"
    using db_holds_parts [OF _ new, of z "fs\<lparr>waldir := wd\<rparr>" M' tss] v'(1) t(1) by (simp add: db_versions_def)
  then have sub: "set M \<union> set (batch_versions b) \<subseteq> set M'" using M ms(1) es'(2) by auto
  have "\<forall>c\<in>set lg. api_batch c \<and> set (batch_versions c) \<subseteq> set M" using d by (simp add: durable_def)
  then have held: "api_batch c \<and> set (batch_versions c) \<subseteq> set M'" if "c \<in> set (lg @ [b])" for c using that api sub by fastforce
  have "?ctf < seq" using d v'(2) by (auto simp: durable_def)
  moreover have "log_holds ?db (fs\<lparr>waldir := wd\<rparr>) (lg @ [b])" using w by (auto simp: log_holds_def)
  ultimately show ?thesis using d by (intro durableI [OF _ _ _ _ _ held new sorted]) (use above in \<open>simp_all add: durable_def\<close>)
qed

lemma durable_write:
  assumes v: "db_versions z db fs M" and d: "durable z db fs lg M" and run: "run_write no_faults coins op db fs = (db', fs', None)"
    and b: "loggable (batch_of op db)" "\<forall>r\<in>set (op_records op). api_record r" and room: "activeNum (db_wal db) + 1 < 1000000"
  shows "\<exists>M' lg'. db_versions z db' fs' M' \<and> durable z db' fs' lg' M'"
proof -
  have bg: "checkBackgroundError db = None"
    using run by (cases "checkBackgroundError db") (auto simp: run_write_def Put_def Delete_def Write_def split: write_op.splits)
  obtain ns bss bs where w0: "wal_rep (db_wal db) (waldir fs) ns bss bs" "concat bss @ bs = lg" using d by (auto simp: durable_def log_holds_def)
  obtain w wd ns' bss' bs' where w: "log_batch no_faults (batch_of op db) db fs = (db\<lparr>db_wal := w\<rparr>, fs\<lparr>waldir := wd\<rparr>, None)" "wal_rep w wd ns' bss' bs'"
    "concat bss' @ bs' = lg @ [batch_of op db]" using log_batch_logs [OF w0(1) b(1) room] w0(2) by auto
  let ?db = "db\<lparr>db_wal := w\<rparr>" and ?fs = "fs\<lparr>waldir := wd\<rparr>"
  obtain seq m e2 where a: "apply_batch coins (db_nextSeq ?db) (op_records op) (db_memtable ?db) = (seq, m, e2)"
    by (cases "apply_batch coins (db_nextSeq ?db) (op_records op) (db_memtable ?db)") auto
  have res: "e2 = None" "fs' = ?fs" "db' = ?db\<lparr>db_memtable := m, db_nextSeq := seq\<rparr> \<or> db' = (maybe_rotate (?db\<lparr>db_memtable := m\<rparr>))\<lparr>db_nextSeq := seq\<rparr>"
    using run_write_apply [OF run bg w(1) [unfolded batch_of_def] a] by auto
  have v1: "db_versions z ?db ?fs M" using v by (simp add: db_versions_def db_holds_frame)
  obtain M' where M': "db_versions z (?db\<lparr>db_memtable := m, db_nextSeq := seq\<rparr>) ?fs M'" "db_nextSeq db \<le> seq"
    using apply_batch_ok [OF v1, of coins "op_records op" seq m] a res(1) by auto
  have ne: "op_records op \<noteq> []" using loggable_enc(1) [OF b(1)] by (auto simp: EncodeRecord_eq batch_of_def valid_batch_def)
  have "durable z (?db\<lparr>db_memtable := m, db_nextSeq := seq\<rparr>) ?fs (lg @ [batch_of op db]) M'"
    using durable_append [OF v d ne b(2) batch_of_def _ w(2,3), of coins seq m M'] a res(1) M' by simp
  moreover have "durable z ((maybe_rotate (?db\<lparr>db_memtable := m\<rparr>))\<lparr>db_nextSeq := seq\<rparr>) ?fs (lg @ [batch_of op db]) M'"
    if "durable z (?db\<lparr>db_memtable := m, db_nextSeq := seq\<rparr>) ?fs (lg @ [batch_of op db]) M'"
    by (rule durable_frame [OF durable_maybe_rotate [OF that]]) (simp_all add: maybe_rotate_def rotateMemtableLocked_def)
  ultimately show ?thesis using res(2,3) M'(1) db_versions_rotate by blast
qed

section \<open>Truncating the log\<close>

lemma ReadDir_remove_all: "ReadDir (remove_all ok ps d) = filter (\<lambda>q. \<not> (q \<in> set ps \<and> ok q)) (ReadDir d)"
  by (simp add: ReadDir_def names_remove_all filter_sort)

lemma seg_rep_remove:
  "seg_rep d n bs sealed \<Longrightarrow> segmentPath n \<notin> set ps \<Longrightarrow> seg_rep (remove_all ok ps d) n bs sealed"
  by (simp add: seg_rep_def file_at_def map_of_remove_all)

lemma filter_zip_fst: "length xs = length ys \<Longrightarrow> map fst (filter (\<lambda>p. P (fst p)) (zip xs ys)) = filter P xs"
  by (induction xs ys rule: list_induct2) simp_all

lemma wal_rep_truncate:
  assumes rep: "wal_rep w d ns bss bs"
  shows "\<exists>ns' bss'. wal_rep w (fst (Truncate env c d)) ns' bss' bs \<and>
    filter (\<lambda>b. c < batchMax b) (map batch_on_disk (concat bss' @ bs)) = filter (\<lambda>b. c < batchMax b) (map batch_on_disk (concat bss @ bs)) \<and>
    set (concat bss') \<subseteq> set (concat bss)"
proof -
  let ?d = "fst (Truncate env c d)"
  obtain ps ys where p: "?d = remove_all (remove_ok env) ps d" "wal_names d = ps @ ys" "\<forall>p\<in>set ps. obsolete c d p" "ys = [] \<longrightarrow> wal_names d = []"
    by (rule Truncate_cases [of env c d]) blast
  have r: "sorted_wrt (<) (ns @ [activeNum w])" "activeNum w < 1000000" "ReadDir d = map segmentPath (ns @ [activeNum w])" "distinct (map fst d)"
    "seg_rep d (activeNum w) bs False" "list_all2 (\<lambda>n bs. seg_rep d n bs True) ns bss" using rep by (auto simp: wal_rep_def)
  have names: "map segmentPath (ns @ [activeNum w]) = ps @ ys" using wal_rep_names [OF rep] p(2) by simp
  have "ys \<noteq> []" using p(2,4) names by auto
  then have "last ys = segmentPath (activeNum w)" using arg_cong [OF names, of last] by simp
  moreover have dist: "distinct (ps @ ys)" using r(3,4) names by (metis ReadDir_def distinct_sort)
  ultimately have act: "segmentPath (activeNum w) \<notin> set ps" using \<open>ys \<noteq> []\<close> by (metis disjoint_iff distinct_append last_in_set)
  define K where "K = (\<lambda>n. \<not> (segmentPath n \<in> set ps \<and> remove_ok env (segmentPath n)))"
  define kept where "kept = filter (\<lambda>p. K (fst p)) (zip ns bss)"
  have len: "length ns = length bss" using r(6) by (rule list_all2_lengthD)
  have ns: "map fst kept = filter K ns" using filter_zip_fst [OF len] by (simp add: kept_def)
  have sub: "set kept \<subseteq> set (zip ns bss)" by (auto simp: kept_def)
  have rd: "ReadDir ?d = map segmentPath (filter K ns @ [activeNum w])"
    using r(3) act by (simp add: p(1) ReadDir_remove_all filter_map comp_def K_def)
  have "seg_rep ?d n xs True" if "(n, xs) \<in> set kept" for n xs
  proof -
    have "K n" "seg_rep d n xs True" using that r(6) by (auto simp: kept_def list_all2_iff)
    then show ?thesis using p(1) by (auto simp: K_def seg_rep_def file_at_def map_of_remove_all)
  qed
  then have segs: "list_all2 (\<lambda>n bs. seg_rep ?d n bs True) (map fst kept) (map snd kept)" by (auto simp: list_all2_iff zip_map_fst_snd)
  have "sorted_wrt (<) (filter K ns @ [activeNum w])" using r(1) by (auto simp: sorted_wrt_append sorted_wrt_filter)
  moreover have "distinct (map fst ?d)" using r(4) p(1) by (simp add: names_remove_all)
  moreover have "seg_rep ?d (activeNum w) bs False" using r(5) act p(1) by (auto intro: seg_rep_remove)
  ultimately have rep': "wal_rep w ?d (filter K ns) (map snd kept) bs" using rep rd segs ns by (simp add: wal_rep_def)
  have "filter (\<lambda>b. c < batchMax b) (replay_dir ?d) = filter (\<lambda>b. c < batchMax b) (replay_dir d)" using replay_remove_all [OF p(3)] p(1) by simp
  then have "filter (\<lambda>b. c < batchMax b) (map batch_on_disk (concat (map snd kept) @ bs)) = filter (\<lambda>b. c < batchMax b) (map batch_on_disk (concat bss @ bs))"
    unfolding wal_rep_replay [OF rep] wal_rep_replay [OF rep'] .
  moreover have "set (concat (map snd kept)) \<subseteq> set (concat bss)" using sub by (force dest: set_zip_rightD)
  ultimately show ?thesis using rep' by blast
qed

text \<open>Shortening the log up to a sequence number the manifest has as its cutoff loses nothing.\<close>

lemma durable_truncate:
  assumes d: "durable z db fs lg M" and s: "seq \<le> WALCutoffSeq (db_version db)"
  shows "\<exists>lg'. durable z db (fs\<lparr>waldir := fst (truncate_log env seq (waldir fs))\<rparr>) lg' M"
proof -
  let ?wd = "fst (truncate_log env seq (waldir fs))" and ?v = "db_version db"
  have api: "\<forall>b\<in>set lg. api_batch b" using d by (simp add: durable_def)
  obtain ns bss bs where w: "wal_rep (db_wal db) (waldir fs) ns bss bs" "concat bss @ bs = lg" using d by (auto simp: durable_def log_holds_def)
  obtain ns' bss' where w': "wal_rep (db_wal db) ?wd ns' bss' bs" "set (concat bss') \<subseteq> set (concat bss)"
    "filter (\<lambda>b. seq < batchMax b) (map batch_on_disk (concat bss' @ bs)) = filter (\<lambda>b. seq < batchMax b) (map batch_on_disk (concat bss @ bs))"
    using wal_rep_truncate [OF w(1), of env seq] w(1) unfolding truncate_log_def by (cases "seq > 0") auto
  let ?lg = "concat bss' @ bs"
  have sub: "set ?lg \<subseteq> set lg" using w'(2) unfolding w(2) [symmetric] set_append by blast
  have od: "map batch_on_disk xs = xs" if "set xs \<subseteq> set lg" for xs using that api by (intro map_idI batch_on_disk_api) blast
  have same: "filter (\<lambda>b. seq < batchMax b) ?lg = filter (\<lambda>b. seq < batchMax b) lg" using w'(3) unfolding od [OF sub] w(2) od [OF order_refl] .
  obtain mss where mss: "memtables_hold db mss" "sorted_wrt earlier mss" "set (concat mss) \<subseteq> logged_above (WALCutoffSeq ?v) lg"
    using d by (auto simp: durable_def)
  have "b \<in> set ?lg" if "b \<in> set lg" "WALCutoffSeq ?v < batchMax b" for b
    using that le_less_trans [OF s that(2)] arg_cong [OF same, of set] by auto
  then have above: "logged_above (WALCutoffSeq ?v) lg \<subseteq> logged_above (WALCutoffSeq ?v) ?lg" unfolding logged_above_def by blast
  have "durable z db (fs\<lparr>waldir := ?wd\<rparr>) ?lg M"
  proof (rule durableI [where mss = mss])
    show "log_holds db (fs\<lparr>waldir := ?wd\<rparr>) ?lg" using w'(1) unfolding log_holds_def by fastforce
    show "api_batch b \<and> set (batch_versions b) \<subseteq> set M" if "b \<in> set ?lg" for b using d sub that unfolding durable_def by blast
    show "set (concat mss) \<subseteq> logged_above (WALCutoffSeq ?v) ?lg" using above mss(3) by blast
  qed (use d mss in \<open>auto simp: durable_def\<close>)
  then show ?thesis ..
qed

section \<open>Flushes\<close>

text \<open>The table is in the manifest, the cutoff not yet.\<close>

lemma durable_added:
  assumes inv: "sys_inv z \<lparr>sys_db = db, sys_fs = fs, sys_flush = Written im meta\<rparr> M" and d: "durable z db fs lg M"
    and m: "writable (add_edit meta)" "drop_bit 56 (LargestSeq meta) = 0" and v: "AddTable meta (db_version db) = (v, None)"
  shows "\<exists>d1. Manifest_Append no_faults (add_edit meta) manifestName (dbdir fs) = (d1, None) \<and>
    db_versions z (db\<lparr>db_version := v, db_immutables := tl (db_immutables db)\<rparr>) (fs\<lparr>dbdir := d1\<rparr>) M \<and>
    durable z (db\<lparr>db_version := v, db_immutables := tl (db_immutables db)\<rparr>) (fs\<lparr>dbdir := d1\<rparr>) lg M \<and>
    files_below (db\<lparr>db_version := v, db_immutables := tl (db_immutables db)\<rparr>)"
proof -
  let ?db = "db\<lparr>db_version := v, db_immutables := tl (db_immutables db)\<rparr>"
  have h: "db_holds z db fs M" "\<forall>e\<in>set M. trailer_seq (fst e) < db_nextSeq db" "length (Levels (db_version db)) = NumLevels"
    "\<forall>t\<in>set (GetAllTables (db_version db)). FileNum t < db_nextFileNum db" "FileNum meta < db_nextFileNum db"
    "\<And>es. mem_holds im es \<Longrightarrow> table_holds z (dbdir fs) meta es"
    using inv by (auto simp: sys_inv_def db_versions_def flush_inv_def)
  obtain ims where im: "db_immutables db = im # ims" using inv by (auto simp: sys_inv_def flush_inv_def)
  note t = mset_AddTable [OF h(3) v]
  obtain d1 where d1: "Manifest_Append no_faults (add_edit meta) manifestName (dbdir fs) = (d1, None)" "manifested d1 v"
    "\<forall>q. q \<noteq> manifestName \<longrightarrow> map_of d1 q = map_of (dbdir fs) q"
    using manifested_append [OF _ m(1), of "dbdir fs" "db_version db" v] d v by (auto simp: durable_def)
  have "db_holds z ?db fs M" using db_holds_flushed(2) [OF h(1) im h(6) t(1)] im by simp
  then have holds: "db_holds z ?db (fs\<lparr>dbdir := d1\<rparr>) M" by (rule db_holds_dir) (use d1(3) sstName_manifest in \<open>simp add: file_at_def\<close>)
  obtain es mss where mss: "memtables_hold db (es # mss)" "sorted_wrt earlier (es # mss)" "set (concat (es # mss)) \<subseteq> logged_above (WALCutoffSeq (db_version db)) lg"
    using d im by (auto simp: durable_def memtables_hold_def list_all2_Cons1)
  have "durable z ?db (fs\<lparr>dbdir := d1\<rparr>) lg M"
  proof (rule durableI [where mss = mss])
    show "memtables_hold ?db mss" using mss(1) im by (simp add: memtables_hold_def)
    show "log_holds ?db (fs\<lparr>dbdir := d1\<rparr>) lg" using d by (simp add: durable_def log_holds_def)
    show "map_of (dbdir (fs\<lparr>dbdir := d1\<rparr>)) (sstName n) \<noteq> Some DirE" for n using d d1(3) sstName_manifest by (simp add: durable_def)
    show "small_seqs (db_version ?db)" "WALCutoffSeq (db_version ?db) < db_nextSeq ?db"
      using small_seqs_AddTable [OF _ h(3) v m(2)] d by (auto simp: durable_def)
    show "set (concat mss) \<subseteq> logged_above (WALCutoffSeq (db_version ?db)) lg" using mss(3) small_seqs_AddTable(2) [OF _ h(3) v m(2)] d by (simp add: durable_def)
  qed (use d1(2) mss(2) d in \<open>auto simp: durable_def\<close>)
  moreover have "set (GetAllTables v) = insert meta (set (GetAllTables (db_version db)))" using t(1) by (metis set_mset_mset set_mset_add_mset_insert)
  ultimately show ?thesis using d1(1) holds h(2,4,5) t(2) by (auto simp: db_versions_def files_below_def)
qed

text \<open>Advancing the cutoff, when the remaining memtables are newer.\<close>

lemma durable_cutoff:
  assumes d: "durable z db fs lg M" and s: "drop_bit 56 seq = 0" "seq < db_nextSeq db"
    and newer: "\<And>mss es e. memtables_hold db mss \<Longrightarrow> es \<in> set mss \<Longrightarrow> e \<in> set es \<Longrightarrow> seq = 0 \<or> seq < trailer_seq (fst e)"
  shows "\<exists>d1. Manifest_Append no_faults (cutoff_edit seq) manifestName (dbdir fs) = (d1, None) \<and>
    durable z (db\<lparr>db_version := SetWALCutoff seq (db_version db)\<rparr>) (fs\<lparr>dbdir := d1\<rparr>) lg M"
proof -
  let ?v = "SetWALCutoff seq (db_version db)"
  obtain d1 where d1: "Manifest_Append no_faults (cutoff_edit seq) manifestName (dbdir fs) = (d1, None)" "manifested d1 ?v"
    "\<forall>q. q \<noteq> manifestName \<longrightarrow> map_of d1 q = map_of (dbdir fs) q"
    using manifested_append [OF _ writable_cutoff, of "dbdir fs" "db_version db" seq] d by (auto simp: durable_def)
  have api: "\<forall>b\<in>set lg. api_batch b" using d by (simp add: durable_def)
  obtain mss where mss: "memtables_hold db mss" "sorted_wrt earlier mss" "set (concat mss) \<subseteq> logged_above (WALCutoffSeq (db_version db)) lg"
    using d by (auto simp: durable_def)
  have "e \<in> logged_above (WALCutoffSeq ?v) lg" if e: "e \<in> set (concat mss)" for e
  proof -
    obtain b where b: "b \<in> set lg" "WALCutoffSeq (db_version db) < batchMax b" "e \<in> set (batch_versions b)" using mss(3) e by (auto simp: logged_above_def)
    obtain es where "es \<in> set mss" "e \<in> set es" using e by auto
    then have "seq = 0 \<or> seq < trailer_seq (fst e)" by (rule newer [OF mss(1)])
    moreover have "trailer_seq (fst e) \<le> batchMax b" using batch_versions_max b(1,3) api by blast
    moreover have "0 < batchMax b" using b(2) by (rule le_less_trans [rotated]) simp
    ultimately have "WALCutoffSeq ?v < batchMax b" using b(2) by (auto simp: SetWALCutoff_def)
    then show ?thesis using b(1,3) unfolding logged_above_def by blast
  qed
  then have above: "set (concat mss) \<subseteq> logged_above (WALCutoffSeq ?v) lg" by blast
  have "durable z (db\<lparr>db_version := ?v\<rparr>) (fs\<lparr>dbdir := d1\<rparr>) lg M"
  proof (rule durableI [where mss = mss])
    show "log_holds (db\<lparr>db_version := ?v\<rparr>) (fs\<lparr>dbdir := d1\<rparr>) lg" using d by (simp add: durable_def log_holds_def)
    show "set (concat mss) \<subseteq> logged_above (WALCutoffSeq (db_version (db\<lparr>db_version := ?v\<rparr>))) lg" using above by simp
    show "small_seqs (db_version (db\<lparr>db_version := ?v\<rparr>))" "WALCutoffSeq (db_version (db\<lparr>db_version := ?v\<rparr>)) < db_nextSeq (db\<lparr>db_version := ?v\<rparr>)"
      using d s by (auto simp: durable_def small_seqs_def SetWALCutoff_def GetAllTables_def)
  qed (use d d1(2,3) mss(1,2) sstName_manifest in \<open>auto simp: durable_def memtables_hold_def\<close>)
  then show ?thesis using d1(1) by blast
qed

lemma durable_dir:
  assumes "durable z db fs lg M" and "\<And>q. q \<noteq> sstName n \<Longrightarrow> map_of d q = map_of (dbdir fs) q"
    and "\<And>q. map_of d q = Some DirE \<Longrightarrow> map_of (dbdir fs) q = Some DirE"
  shows "durable z db (fs\<lparr>dbdir := d\<rparr>) lg M"
proof -
  have "map_of d manifestName = map_of (dbdir fs) manifestName" using assms(2) sstName_manifest by metis
  then show ?thesis using assms(1,3) manifested_frame [of d "dbdir fs"] unfolding durable_def log_holds_def by auto
qed

lemma durable_commit:
  assumes inv: "dur_inv z \<lparr>sys_db = db, sys_fs = fs, sys_flush = Written im meta\<rparr> M" and c: "flush_commit (\<lambda>_. no_faults) meta db fs = (db', fs', e)"
  shows "\<exists>lg. durable z db' fs' lg M" and "e = None" and "LargestSeq meta \<le> WALCutoffSeq (db_version db')"
proof -
  obtain lg where i: "sys_inv z \<lparr>sys_db = db, sys_fs = fs, sys_flush = Written im meta\<rparr> M" "durable z db fs lg M" "writable (add_edit meta)" "drop_bit 56 (LargestSeq meta) = 0"
    "\<And>es. mem_holds im es \<Longrightarrow> LargestSeq meta = st_largestSeq (fold update_stats (map fst es) no_stats)"
    using inv by (auto simp: dur_inv_def meta_ready_def)
  obtain ims where im: "db_immutables db = im # ims" "Level meta = 0" using i(1) by (auto simp: sys_inv_def flush_inv_def)
  obtain v where v: "AddTable meta (db_version db) = (v, None)" using im(2) by (simp add: AddTable_def NumLevels_def Let_def)
  let ?db = "db\<lparr>db_version := v, db_immutables := tl (db_immutables db)\<rparr>" and ?L = "LargestSeq meta"
  obtain d1 where d1: "Manifest_Append no_faults (add_edit meta) manifestName (dbdir fs) = (d1, None)" "durable z ?db (fs\<lparr>dbdir := d1\<rparr>) lg M"
    using durable_added [OF i(1-4) v] by blast
  obtain es mss where mss: "memtables_hold db (es # mss)" "sorted_wrt earlier (es # mss)"
    using i(2) im by (auto simp: durable_def memtables_hold_def list_all2_Cons1)
  have es: "mem_holds im es" "memtables_hold ?db mss" using mss(1) im by (auto simp: memtables_hold_def)
  have below: "\<forall>e\<in>set M. trailer_seq (fst e) < db_nextSeq db" "0 < db_nextSeq db"
    using i(1,2) by (auto simp: sys_inv_def db_versions_def durable_def intro: le_less_trans [rotated])
  have "db_holds z db fs M" using i(1) by (simp add: sys_inv_def db_versions_def)
  then obtain ms tss where ms: "memtables_hold db ms" "set (concat ms) \<union> set (concat tss) = set M" by (rule db_holds_memtables)
  have "set es \<subseteq> set M" unfolding ms(2) [symmetric] memtables_unique [OF ms(1) mss(1)] by auto
  then have L: "?L < db_nextSeq db" using i(5) [OF es(1)] below stats_seq_least [of "map fst es" "db_nextSeq db"] by auto
  have newer: "?L = 0 \<or> ?L < trailer_seq (fst e)" if "memtables_hold ?db mss'" "xs \<in> set mss'" "e \<in> set xs" for mss' xs e
  proof (cases "es = []")
    case False
    have "xs \<in> set mss" using that(2) unfolding memtables_unique [OF that(1) es(2)] .
    then have "\<forall>f\<in>set es. trailer_seq (fst f) < trailer_seq (fst e)" using mss(2) that(3) by (simp add: earlier_def)
    moreover from this have "trailer_seq (fst (last es)) < trailer_seq (fst e)" using False by simp
    then have "0 < trailer_seq (fst e)" by (rule le_less_trans [OF word_zero_le])
    ultimately show ?thesis using i(5) [OF es(1)] stats_seq_least [of "map fst es" "trailer_seq (fst e)"] by auto
  qed (use i(5) [OF es(1)] in \<open>simp add: no_stats_def\<close>)
  from durable_cutoff [OF d1(2) i(4)] L newer obtain d2 where d2: "Manifest_Append no_faults (cutoff_edit ?L) manifestName d1 = (d2, None)"
    "durable z (?db\<lparr>db_version := SetWALCutoff ?L v\<rparr>) (fs\<lparr>dbdir := d2\<rparr>) lg M" by auto
  have c': "db' = db\<lparr>db_version := SetWALCutoff ?L v, db_immutables := tl (db_immutables db)\<rparr>" "fs' = fs\<lparr>dbdir := d2\<rparr>" "e = None"
    using c v d1(1) d2(1) by (auto simp: flush_commit_def)
  show "\<exists>lg. durable z db' fs' lg M" using durable_frame [OF d2(2), of db' fs'] c'(1,2) by auto
  show "e = None" by (rule c'(3))
  show "?L \<le> WALCutoffSeq (db_version db')" using c'(1) by (simp add: SetWALCutoff_def not_less)
qed

section \<open>Every step keeps the database on disk\<close>

lemma dur_invD:
  assumes "dur_inv z \<lparr>sys_db = db, sys_fs = fs, sys_flush = fl\<rparr> M"
  obtains lg where "db_holds z db fs M" "db_versions z db fs M" "durable z db fs lg M" "files_below db"
proof -
  have i: "sys_inv z \<lparr>sys_db = db, sys_fs = fs, sys_flush = fl\<rparr> M" and d: "\<exists>lg. durable z db fs lg M" using assms by (auto simp: dur_inv_def)
  then show thesis using sys_inv_files_below [OF i] by (auto simp: sys_inv_def db_versions_def intro: that)
qed

text \<open>Steps of the running engine that write nothing new.\<close>

lemma dur_quiet:
  assumes step: "sys_step z s [] \<lparr>sys_db = db', sys_fs = fs', sys_flush = fl'\<rparr>" and inv: "dur_inv z s M" and z: "zlib_inverse z"
    and h: "db_holds z db' fs' M" and d: "durable z db' fs' lg M" and fl: "meta_ready (db_version db') fl'"
  shows "dur_inv z \<lparr>sys_db = db', sys_fs = fs', sys_flush = fl'\<rparr> M"
proof -
  obtain M' where M': "sys_inv z \<lparr>sys_db = db', sys_fs = fs', sys_flush = fl'\<rparr> M'"
    using sys_step_simulates [OF step _ z, of M] inv by (auto simp: dur_inv_def simulates_def)
  then have "db_holds z db' fs' M'" by (simp add: sys_inv_def db_versions_def)
  then have "M' = M" using h by (rule db_holds_unique)
  then show ?thesis using M' d fl by (auto simp: dur_inv_def)
qed

lemma dur_write:
  assumes inv: "dur_inv z \<lparr>sys_db = db, sys_fs = fs, sys_flush = fl\<rparr> M" and run: "run_write no_faults coins op db fs = (db', fs', None)"
    and b: "loggable (batch_of op db)" "\<forall>r\<in>set (op_records op). api_record r" and room: "activeNum (db_wal db) + 1 < 1000000"
  shows "\<exists>M'. dur_inv z \<lparr>sys_db = db', sys_fs = fs', sys_flush = fl\<rparr> M' \<and> kv M' = apply_logical (op_records op) (kv M)"
proof -
  obtain lg where i: "db_versions z db fs M" "durable z db fs lg M" using inv by (rule dur_invD)
  obtain M1 lg' where M1: "db_versions z db' fs' M1" "durable z db' fs' lg' M1" using durable_write [OF i run b room] by blast
  have "simulates z \<lparr>sys_db = db, sys_fs = fs, sys_flush = fl\<rparr> M (if None = (None :: go_err option) then op_records op else []) \<lparr>sys_db = db', sys_fs = fs', sys_flush = fl\<rparr>"
    by (rule sim_write [OF _ run]) (use inv in \<open>auto simp: dur_inv_def\<close>)
  then obtain M2 where M2: "sys_inv z \<lparr>sys_db = db', sys_fs = fs', sys_flush = fl\<rparr> M2" "kv M2 = apply_logical (op_records op) (kv M)"
    by (auto simp: simulates_def)
  have "db_holds z db' fs' M2" "db_holds z db' fs' M1" using M1(1) M2(1) by (simp_all add: sys_inv_def db_versions_def)
  then have "M2 = M1" by (rule db_holds_unique)
  moreover have "db_version db' = db_version db" using run_write_ok [OF i(1) run] by (auto simp: stepped_def same_rest_def)
  ultimately show ?thesis using M1(2) M2 inv by (auto simp: dur_inv_def)
qed

lemma dur_table:
  assumes inv: "dur_inv z \<lparr>sys_db = db, sys_fs = fs, sys_flush = Begun im n\<rparr> M" and z: "zlib_inverse z"
    and f: "flushMemtable env z im n (dbdir fs) = (d, Inr meta)" and small: "small_memtable im"
  shows "dur_inv z \<lparr>sys_db = db, sys_fs = fs\<lparr>dbdir := d\<rparr>, sys_flush = Written im meta\<rparr> M"
proof -
  obtain lg where i: "sys_inv z \<lparr>sys_db = db, sys_fs = fs, sys_flush = Begun im n\<rparr> M" "durable z db fs lg M" using inv by (auto simp: dur_inv_def)
  obtain es where es: "mem_holds im es" using i(1) by (rule sys_inv_begun)
  have "durable z db (fs\<lparr>dbdir := d\<rparr>) lg M" using i(2) flushMemtable_dir [OF es f] by (intro durable_dir [where n = n]) blast+
  moreover have "cost es < 2 ^ 31" using small es by (simp add: small_memtable_def)
  from flushed_writable [OF es f this, of "FileSize meta" "SmallestSeq meta"] have "writable (add_edit meta)" by simp
  ultimately show ?thesis using sim_table [OF i(1) z f small] flushed_seq [OF es f] flushMemtable_table(6) [OF _ f] by (auto simp: dur_inv_def meta_ready_def)
qed

text \<open>Files that hold the database whose versions are \<open>M\<close>: those of some running engine.\<close>

definition left_holds :: "zlib \<Rightarrow> nat \<Rightarrow> Files \<Rightarrow> entries \<Rightarrow> bool" where
  "left_holds z n fs M \<longleftrightarrow> (\<exists>db lg. db_holds z db fs M \<and> durable z db fs lg M \<and> files_below db \<and> unat (db_nextFileNum db) \<le> n)"

lemma left_holdsI:
  "db_holds z db fs M \<Longrightarrow> durable z db fs lg M \<Longrightarrow> files_below db \<Longrightarrow> unat (db_nextFileNum db) \<le> n \<Longrightarrow> left_holds z n fs M"
  unfolding left_holds_def by blast

text \<open>A log with the same batches in other files.\<close>

lemma left_holds_log:
  assumes "db_holds z db fs M" and "durable z db fs lg M" and "files_below db" and "wal_rep w wd ns bss bs" and "concat bss @ bs = lg"
  shows "left_holds z (unat (db_nextFileNum db)) (fs\<lparr>waldir := wd\<rparr>) M"
proof (rule left_holdsI [of z "db\<lparr>db_wal := w\<rparr>" _ _ lg])
  show "db_holds z (db\<lparr>db_wal := w\<rparr>) (fs\<lparr>waldir := wd\<rparr>) M" using assms(1) by (simp add: db_holds_frame)
  have "log_holds (db\<lparr>db_wal := w\<rparr>) (fs\<lparr>waldir := wd\<rparr>) lg" using assms(4,5) unfolding log_holds_def by fastforce
  then show "durable z (db\<lparr>db_wal := w\<rparr>) (fs\<lparr>waldir := wd\<rparr>) lg M" using assms(2) by (simp add: durable_def memtables_hold_def)
qed (use assms(3) in \<open>simp_all add: files_below_def\<close>)

lemma apply_batch_total:
  assumes "mem_holds m es" and "unat seq + length rs \<le> 2 ^ 56"
  shows "\<exists>seq' m'. apply_batch coins seq rs m = (seq', m', None)"
  using assms
proof (induction rs arbitrary: m es seq)
  case (Cons r rs)
  let ?t = "if LType r = logicalTypeDelete then RecordTypeTombstone else RecordTypeValue"
  have s: "drop_bit 56 seq = 0" using Cons.prems(2) by (simp add: seq_56_iff)
  obtain m1 where m1: "Memtable_Insert m (ikey_of (LKey r) seq ?t) (LValue r) (coins (length rs)) = Some m1"
    using mem_rep_Insert Cons.prems(1) unfolding mem_holds_def by blast
  then have i: "insert_version (LKey r) seq ?t (LValue r) (coins (length rs)) m = Inr m1" using ikey_of_facts(1) [OF s, of "LKey r" ?t] by (simp add: insert_version_def)
  have "unat (seq + 1) = unat seq + 1" using s by (simp add: seq_56_iff unat_word_ariths)
  then show ?case using Cons.IH [of m1 _ "seq + 1"] insert_version_ok [OF Cons.prems(1) i] Cons.prems(2) i by (auto simp: Let_def)
qed simp

lemma killed_write:
  assumes inv: "dur_inv z \<lparr>sys_db = db, sys_fs = fs, sys_flush = fl\<rparr> M" and a: "WAL_Append no_faults (batch_of op db) (db_wal db) (waldir fs) = (w, wd, None)"
    and y: "wd' = wd \<or> WAL_Sync no_faults w wd = (wd', None)" and b: "loggable (batch_of op db)" "\<forall>r\<in>set (op_records op). api_record r"
    and room: "activeNum (db_wal db) + 1 < 1000000" "unat (db_nextSeq db) + length (op_records op) \<le> 2 ^ 56"
  shows "\<exists>M'. left_holds z (unat (db_nextFileNum db)) (fs\<lparr>waldir := wd'\<rparr>) M' \<and> kv M' = apply_logical (op_records op) (kv M)"
proof -
  obtain lg where i: "db_versions z db fs M" "durable z db fs lg M" "files_below db" using inv by (rule dur_invD)
  obtain ns bss bs where w0: "wal_rep (db_wal db) (waldir fs) ns bss bs" "concat bss @ bs = lg" using i(2) by (auto simp: durable_def log_holds_def)
  obtain ns' bss' bs' where w: "wal_rep w wd ns' bss' bs'" "concat bss' @ bs' = lg @ [batch_of op db]"
    using WAL_Append_rep [OF w0(1) b(1) room(1)] a w0(2) by auto
  have w': "wal_rep w wd' ns' bss' bs'" using y WAL_Sync_rep [OF w(1)] w(1) by auto
  obtain es where es: "mem_holds (db_memtable db) es" using i(1) by (auto simp: db_versions_def db_holds_def list_all2_Cons1)
  obtain seq m where ap: "apply_batch (\<lambda>_ _. False) (db_nextSeq db) (op_records op) (db_memtable db) = (seq, m, None)"
    using apply_batch_total [OF es room(2)] by blast
  let ?db = "db\<lparr>db_wal := w\<rparr>" and ?fs = "fs\<lparr>waldir := wd'\<rparr>"
  have "db_versions z ?db ?fs M" using i(1) by (simp add: db_versions_def db_holds_frame)
  from apply_batch_ok [OF this, of "\<lambda>_ _. False" "op_records op" seq m] ap obtain M' where M': "db_versions z (?db\<lparr>db_memtable := m, db_nextSeq := seq\<rparr>) ?fs M'"
    "kv M' = apply_logical (op_records op) (kv M)" "db_nextSeq db \<le> seq" by auto
  have ne: "op_records op \<noteq> []" using loggable_enc(1) [OF b(1)] by (auto simp: EncodeRecord_eq batch_of_def valid_batch_def)
  have d: "durable z (?db\<lparr>db_memtable := m, db_nextSeq := seq\<rparr>) ?fs (lg @ [batch_of op db]) M'"
    using durable_append [OF i(1,2) ne b(2) batch_of_def ap w' w(2), of M'] M'(1,3) by simp
  show ?thesis
    by (intro exI [of _ M'] conjI left_holdsI [OF _ d]) (use M' i(3) in \<open>auto simp: db_versions_def files_below_def\<close>)
qed

lemma killed_holds:
  assumes inv: "dur_inv z \<lparr>sys_db = db, sys_fs = fs, sys_flush = fl\<rparr> M" and k: "killed db fs fl rs fs1"
  shows "\<exists>M'. left_holds z (unat (db_nextFileNum db)) fs1 M' \<and> kv M' = apply_logical rs (kv M)"
proof -
  obtain lg where i: "db_holds z db fs M" "durable z db fs lg M" "files_below db" using inv by (rule dur_invD)
  obtain ns bss bs where w: "wal_rep (db_wal db) (waldir fs) ns bss bs" "concat bss @ bs = lg" using i(2) by (auto simp: durable_def log_holds_def)
  have same: ?thesis if "rs = []" "left_holds z (unat (db_nextFileNum db)) fs1 M" using that by auto
  show ?thesis using k
  proof cases
    case between
    then show ?thesis using left_holdsI [OF i] by (intro same) auto
  next
    case (in_sync wd)
    then have "wal_rep (db_wal db) wd ns bss bs" using WAL_Sync_rep [OF w(1)] by auto
    then show ?thesis using in_sync left_holds_log [OF i _ w(2)] by (intro same) auto
  next
    case (in_rotate w' wd)
    then have "wal_rep w' wd (ns @ [activeNum (db_wal db)]) (bss @ [bs]) []" using rotate_rep [OF w(1)] by auto
    then show ?thesis using in_rotate left_holds_log [OF i, of w' wd _ "bss @ [bs]" "[]"] w(2) by (intro same) auto
  next
    case (in_write op w' wd wd')
    then show ?thesis using killed_write [OF inv in_write(3,4,6-9)] by auto
  next
    case (in_table n d im)
    have s: "sys_inv z \<lparr>sys_db = db, sys_fs = fs, sys_flush = Begun im n\<rparr> M" using inv in_table(1) by (simp add: dur_inv_def)
    have "db_holds z db (fs\<lparr>dbdir := d\<rparr>) M" using sys_inv_dir [OF s, of d] in_table by (auto simp: db_versions_def file_at_def)
    moreover have "durable z db (fs\<lparr>dbdir := d\<rparr>) lg M" using in_table by (intro durable_dir [OF i(2), of n]) metis+
    ultimately show ?thesis using in_table left_holdsI i(3) by (intro same) auto
  next
    case (in_commit meta d im)
    have m: "sys_inv z \<lparr>sys_db = db, sys_fs = fs, sys_flush = Written im meta\<rparr> M" "writable (add_edit meta)" "drop_bit 56 (LargestSeq meta) = 0"
      using inv in_commit(1) by (auto simp: dur_inv_def meta_ready_def)
    have "Level meta = 0" using m(1) by (auto simp: sys_inv_def flush_inv_def)
    then obtain v where v: "AddTable meta (db_version db) = (v, None)" by (simp add: AddTable_def NumLevels_def Let_def)
    show ?thesis using durable_added [OF m(1) i(2) m(2,3) v] in_commit
      by (intro same left_holdsI [of z "db\<lparr>db_version := v, db_immutables := tl (db_immutables db)\<rparr>" _ _ lg]) (auto simp: db_versions_def)
  next
    case (in_truncate seq env)
    then have "seq \<le> WALCutoffSeq (db_version db)" using inv by (simp add: dur_inv_def meta_ready_def)
    from durable_truncate [OF i(2) this, of env] obtain lg' where "durable z db fs1 lg' M" using in_truncate by auto
    moreover have "db_holds z db fs1 M" using i(1) in_truncate by (simp add: db_holds_def)
    ultimately show ?thesis using in_truncate left_holdsI i(3) by (intro same) auto
  qed
qed

section \<open>Killed recoveries\<close>

lemma mem_exists: "sorted_entries es \<Longrightarrow> wf_entries es \<Longrightarrow> \<exists>m. mem_holds m es"
proof (induction es rule: rev_induct)
  case Nil
  then show ?case using mem_rep_New by (auto simp: mem_holds_def)
next
  case (snoc e es)
  have s: "sorted_entries es" "wf_entries es" "wf_ikey (fst e)" using snoc.prems by (auto simp: sorted_wrt_append)
  obtain m where m: "mem_holds m es" using snoc.IH s by blast
  have "fst e \<notin> fst ` set es" using sorted_entries_distinct [OF snoc.prems(1)] by auto
  then have set: "set (upd_entry (fst e) (snd e) es) = set (es @ [e])" using set_upd_entry [OF s(2,3), of "snd e"] by simp
  obtain m' where m': "mem_rep m' (upd_entry (fst e) (snd e) es)" using mem_rep_Insert m unfolding mem_holds_def by blast
  have "sorted_entries (upd_entry (fst e) (snd e) es)" using m' mem_rep_sorted by blast
  moreover have "wf_entries (upd_entry (fst e) (snd e) es)" using set snoc.prems(2) by (metis)
  ultimately have "upd_entry (fst e) (snd e) es = es @ [e]" using snoc.prems(1) set by (intro sorted_set_unique)
  then show ?case using m' snoc.prems(2) by (auto simp: mem_holds_def)
qed

lemma max_file_below:
  assumes "files_below db"
  shows "unat (max_file_of (GetAllTables (db_version db))) \<le> unat (db_nextFileNum db)"
proof -
  let ?ts = "GetAllTables (db_version db)"
  have "max_file_of ?ts = 0 \<or> max_file_of ?ts \<in> FileNum ` set ?ts" using fold_max [of ?ts FileNum 0] by (auto simp: max_file_of_def)
  then show ?thesis using assms by (auto simp: files_below_def word_less_nat_alt)
qed

text \<open>The state of the replay after the first batches of the log.\<close>

lemma replay_prefix:
  assumes i: "db_holds z db fs M" "durable z db fs lg M" "files_below db" and z: "zlib_inverse z" and small: "small_log lg" and bs: "lg = bs @ bs'"
    and n: "unat (db_nextFileNum db) + length bs + 1 < 2 ^ 64"
    and run: "replay_batches (\<lambda>_. no_faults) z coins memtableLimit bs (replay_begin (db_version db)) (dbdir fs) = (d, Inr rp)"
  obtains M1 where "replay_inv z (logged_above (WALCutoffSeq (db_version db)) lg) rp d M1" and "set M1 \<union> logged_above (WALCutoffSeq (db_version db)) lg = set M"
    and "unat (rp_maxFileNum rp) \<le> unat (db_nextFileNum db) + length bs" and "WALCutoffSeq (rp_vs rp) = WALCutoffSeq (db_version db)"
proof -
  let ?v = "db_version db" and ?rp = "replay_begin (db_version db)"
  let ?E = "logged_above (WALCutoffSeq ?v) lg"
  obtain tss where t: "list_all2 (table_holds z (dbdir fs)) (GetAllTables ?v) tss" "set (concat tss) \<union> ?E = set M" using durable_tables [OF i(1,2)] .
  obtain M0 where M0: "replay_inv z ?E ?rp (dbdir fs) M0" "set M0 = set (concat tss)"
    using replay_start [OF i replay_begin_def [of ?v, unfolded Let_def] t(1), of ?E] t(2) by blast
  have api: "\<forall>b\<in>set bs. api_batch b" and sub: "(\<Union>b\<in>set bs. set (batch_versions b)) \<subseteq> set M" using i(2) bs by (auto simp: durable_def)
  then have "set M0 \<union> (\<Union>b\<in>set bs. set (batch_versions b)) \<subseteq> set M" using t(2) M0(2) by blast
  moreover have "agree (set M)" using i(1) sorted_agree by (simp add: db_holds_def)
  ultimately have ag: "agree (set M0 \<union> (\<Union>b\<in>set bs. set (batch_versions b)))" by (rule agree_mono [rotated])
  have c: "WALCutoffSeq (rp_vs ?rp) = WALCutoffSeq ?v" by (simp add: replay_begin_def Let_def)
  have num: "unat (rp_maxFileNum ?rp) \<le> unat (db_nextFileNum db)" using max_file_below [OF i(3)] by (simp add: replay_begin_def Let_def)
  then have room: "unat (rp_maxFileNum ?rp) + length bs < 2 ^ 64" using n by linarith
  have E: "logged_above (WALCutoffSeq (rp_vs ?rp)) bs \<subseteq> ?E" unfolding c bs by (auto simp: logged_above_append)
  obtain M1 where r: "replay_inv z ?E rp d M1" "set M1 = set M0 \<union> logged_above (WALCutoffSeq ?v) bs"
    "unat (rp_maxFileNum rp) \<le> unat (rp_maxFileNum ?rp) + length bs" "WALCutoffSeq (rp_vs rp) = WALCutoffSeq ?v"
    using replay_batches_ok [OF M0(1) api ag E small_log_fits [OF small] z room, of coins memtableLimit] run unfolding c by auto
  have "set M1 \<union> ?E = set M" using r(2) M0(2) t(2) E unfolding c by blast
  then show thesis using r(1,3,4) num by (intro that [of M1]) simp_all
qed

text \<open>Whatever is left of the next table, these files hold the database: that of an engine with all logged versions in its memtable.\<close>

lemma replayed_holds:
  assumes i: "db_holds z db fs M" "durable z db fs lg M" "files_below db"
    and r: "replay_inv z (logged_above (WALCutoffSeq (db_version db)) lg) rp d M1" "set M1 \<union> logged_above (WALCutoffSeq (db_version db)) lg = set M"
      "unat (rp_maxFileNum rp) \<le> unat (db_nextFileNum db) + n" "WALCutoffSeq (rp_vs rp) = WALCutoffSeq (db_version db)"
    and n: "unat (db_nextFileNum db) + n + 1 < 2 ^ 64"
    and d': "\<forall>q. q \<noteq> sstName (rp_maxFileNum rp + 1) \<longrightarrow> map_of d' q = map_of d q" "map_of d' (sstName (rp_maxFileNum rp + 1)) \<noteq> Some DirE"
  shows "left_holds z (unat (db_nextFileNum db) + n + 1) (fs\<lparr>dbdir := d'\<rparr>) M"
proof -
  let ?E = "logged_above (WALCutoffSeq (db_version db)) lg" and ?n = "rp_maxFileNum rp + 1" and ?fs = "fs\<lparr>dbdir := d'\<rparr>"
  have room: "unat ?n = unat (rp_maxFileNum rp) + 1" using r(3) n by (simp add: unat_word_ariths)
  have tabs: "FileNum t < ?n" if "t \<in> set (GetAllTables (rp_vs rp))" for t
    using that r(1) room by (auto simp: replay_inv_def word_less_nat_alt word_le_nat_alt)
  then have "file_at d' (sstName (FileNum t)) = file_at d (sstName (FileNum t))" if "t \<in> set (GetAllTables (rp_vs rp))" for t
    using that d'(1) sstName_inj by (force simp: file_at_def)
  then have "state_holds z d' (rp_vs rp) (rp_mt rp) M1" using r(1) by (auto simp: replay_inv_def intro: state_holds_dir)
  then obtain es tss where T: "mem_holds (rp_mt rp) es" "list_all2 (table_holds z d') (GetAllTables (rp_vs rp)) tss" "set es \<union> set (concat tss) = set M1"
    unfolding state_holds_def by blast
  have "set es \<subseteq> ?E" using r(1) mem_holds_unique [OF T(1)] by (auto simp: replay_inv_def)
  then have all: "?E \<union> set (concat tss) = set M" using T(3) r(2) by blast
  have M: "sorted_entries M" "wf_entries M" using i(1) by (simp_all add: db_holds_def)
  define xs where "xs = filter (\<lambda>e. e \<in> ?E) M"
  have xs: "set xs = ?E" "sorted_entries xs" "wf_entries xs" using all M sorted_filter [of M] by (auto simp: xs_def)
  obtain m where m: "mem_holds m xs" using mem_exists [OF xs(2,3)] by blast
  define db2 where "db2 = db\<lparr>db_memtable := m, db_immutables := [], db_version := rp_vs rp, db_nextFileNum := ?n\<rparr>"
  have "state_holds z d' (rp_vs rp) m M" unfolding state_holds_def using M m T(2) all xs(1) by blast
  then have holds: "db_holds z db2 ?fs M" by (simp add: db_holds_state db2_def)
  have "map_of d' manifestName = map_of d manifestName" using d'(1) sstName_manifest by metis
  then have man: "manifested d' (rp_vs rp)" using r(1) by (simp add: replay_inv_def manifested_frame [of d' d])
  have "durable z db2 ?fs lg M"
  proof (rule durableI [where mss = "[xs]"])
    show "map_of (dbdir ?fs) (sstName k) \<noteq> Some DirE" for k
      using r(1) d' by (cases "sstName k = sstName ?n") (auto simp: replay_inv_def)
    show "log_holds db2 ?fs lg" using i(2) by (simp add: durable_def log_holds_def db2_def)
    show "memtables_hold db2 [xs]" using m by (simp add: memtables_hold_def db2_def)
  qed (use man i(2) r(1,4) xs(1) in \<open>auto simp: durable_def db2_def replay_inv_def\<close>)
  moreover have "files_below db2" using tabs r(1) by (simp add: files_below_def db2_def replay_inv_def)
  moreover have "unat (db_nextFileNum db2) \<le> unat (db_nextFileNum db) + n + 1" using room r(3) by (simp add: db2_def)
  ultimately show ?thesis using holds left_holdsI by blast
qed

lemma killed_open_holds:
  assumes h: "left_holds z n fs M" and k: "killed_open z fs fs'" and z: "zlib_inverse z" and small: "small_log (replay_dir (waldir fs))"
    and n: "n + length (replay_dir (waldir fs)) + 1 < 2 ^ 64"
  shows "left_holds z (n + length (replay_dir (waldir fs)) + 1) fs' M"
proof -
  obtain db lg where i: "db_holds z db fs M" "durable z db fs lg M" "files_below db" "unat (db_nextFileNum db) \<le> n" using h unfolding left_holds_def by blast
  have lg: "replay_dir (waldir fs) = lg" using durable_log [OF i(2)] .
  have man: "ReplayManifest no_faults manifestName (dbdir fs) = Inr (db_version db)" using i(2) manifested_replay by (simp add: durable_def)
  from k obtain vs bs bs' coins memtableLimit d rp d' where "ReplayManifest no_faults manifestName (dbdir fs) = Inr vs" "replay_dir (waldir fs) = bs @ bs'"
    "replay_batches (\<lambda>_. no_faults) z coins memtableLimit bs (replay_begin vs) (dbdir fs) = (d, Inr rp)" "fs' = fs\<lparr>dbdir := d'\<rparr>"
    "\<forall>q. q \<noteq> sstName (rp_maxFileNum rp + 1) \<longrightarrow> map_of d' q = map_of d q" "map_of d' (sstName (rp_maxFileNum rp + 1)) \<noteq> Some DirE"
    by cases
  then have k: "lg = bs @ bs'" "fs' = fs\<lparr>dbdir := d'\<rparr>"
    "replay_batches (\<lambda>_. no_faults) z coins memtableLimit bs (replay_begin (db_version db)) (dbdir fs) = (d, Inr rp)"
    "\<forall>q. q \<noteq> sstName (rp_maxFileNum rp + 1) \<longrightarrow> map_of d' q = map_of d q" "map_of d' (sstName (rp_maxFileNum rp + 1)) \<noteq> Some DirE"
    unfolding man lg by simp_all
  have bound: "unat (db_nextFileNum db) + length bs + 1 < 2 ^ 64" using i(4) n lg k(1) by simp
  obtain M1 where "replay_inv z (logged_above (WALCutoffSeq (db_version db)) lg) rp d M1" "set M1 \<union> logged_above (WALCutoffSeq (db_version db)) lg = set M"
    "unat (rp_maxFileNum rp) \<le> unat (db_nextFileNum db) + length bs" "WALCutoffSeq (rp_vs rp) = WALCutoffSeq (db_version db)"
    using replay_prefix [OF i(1-3) z small [unfolded lg] k(1) bound k(3)] .
  then have "left_holds z (unat (db_nextFileNum db) + length bs + 1) (fs\<lparr>dbdir := d'\<rparr>) M" by (rule replayed_holds [OF i(1-3) _ _ _ _ bound k(4,5)])
  then show ?thesis using k(1,2) i(4) lg unfolding left_holds_def by fastforce
qed

lemma left_files_holds:
  assumes "left_files z s rs n fs" and "dur_inv z s M" and "zlib_inverse z"
  shows "\<exists>M'. left_holds z n fs M' \<and> kv M' = apply_logical rs (kv M)"
  using assms
proof (induction rule: left_files.induct)
  case (kill rs fs)
  then show ?case using killed_holds [of z "sys_db s" "sys_fs s" "sys_flush s" M rs fs] by (cases s) auto
next
  case (again rs n fs fs')
  then show ?case using killed_open_holds by blast
qed

lemma dur_reopen:
  assumes inv: "dur_inv z s M" and z: "zlib_inverse z" and l: "left_files z s rs n fs1"
    and small: "small_log (replay_dir (waldir fs1))" and n: "n + length (replay_dir (waldir fs1)) + 1 < 2 ^ 64"
  shows "\<exists>fs' db' M'. Open no_faults (\<lambda>_. no_faults) z coins opts order fs1 = (fs', Inr db') \<and>
    dur_inv z \<lparr>sys_db = db', sys_fs = fs', sys_flush = Idle\<rparr> M' \<and> kv M' = apply_logical rs (kv M) \<and> db_bgErr db' = None"
proof -
  obtain M' where M': "left_holds z n fs1 M'" "kv M' = apply_logical rs (kv M)" using left_files_holds [OF l inv z] by blast
  then obtain db1 lg where i: "db_holds z db1 fs1 M'" "durable z db1 fs1 lg M'" "files_below db1" "unat (db_nextFileNum db1) \<le> n"
    unfolding left_holds_def by blast
  from Open_ok [OF i(1-3) z, of coins opts order] small n i(4) durable_log [OF i(2)] obtain fs' db' where
    o: "Open no_faults (\<lambda>_. no_faults) z coins opts order fs1 = (fs', Inr db')" "db_versions z db' fs' M'" "durable z db' fs' lg M'"
    "files_below db'" "db_bgErr db' = None" by auto
  have "dur_inv z \<lparr>sys_db = db', sys_fs = fs', sys_flush = Idle\<rparr> M'"
    using o(2-4) by (auto simp: dur_inv_def sys_inv_def files_below_def flush_inv_def meta_ready_def)
  then show ?thesis using o(1,5) M'(2) by blast
qed

lemma dur_step_inv:
  assumes "dur_step z s rs s'" and "dur_inv z s M" and z: "zlib_inverse z"
  shows "\<exists>M'. dur_inv z s' M' \<and> kv M' = apply_logical rs (kv M)"
  using assms(1,2)
proof (induction rule: dur_step.induct)
  case (wr coins op db fs db' fs' fl)
  then show ?case using dur_write by blast
next
  case (freeze db fs fl)
  obtain lg where i: "db_holds z db fs M" "durable z db fs lg M" using freeze by (rule dur_invD)
  show ?case using dur_quiet [OF sys_step.freeze freeze z db_holds_rotate [OF i(1)] durable_rotate [OF i(2)]] freeze by (auto simp: dur_inv_def rotateMemtableLocked_def)
next
  case (snap db fs fl)
  obtain lg where i: "db_holds z db fs M" "durable z db fs lg M" using snap by (rule dur_invD)
  have "dur_inv z \<lparr>sys_db = db\<lparr>db_snapshots := fst (GetSnapshot (db_nextSeq db) (db_snapshots db))\<rparr>, sys_fs = fs, sys_flush = fl\<rparr> M"
    by (rule dur_quiet [OF sys_step.snap snap z _ durable_frame [OF i(2)]]) (use snap i(1) in \<open>auto simp: dur_inv_def db_holds_def\<close>)
  then show ?case by auto
next
  case (release db fs fl s)
  obtain lg where i: "db_holds z db fs M" "durable z db fs lg M" using release by (rule dur_invD)
  have "dur_inv z \<lparr>sys_db = db\<lparr>db_snapshots := ReleaseSnapshot s (db_snapshots db)\<rparr>, sys_fs = fs, sys_flush = fl\<rparr> M"
    by (rule dur_quiet [OF sys_step.release release z _ durable_frame [OF i(2)]]) (use release i(1) in \<open>auto simp: dur_inv_def db_holds_def\<close>)
  then show ?case by auto
next
  case (start db db' im n fs)
  obtain lg where i: "db_holds z db fs M" "durable z db fs lg M" using start(3) by (rule dur_invD)
  have "db' = db\<lparr>db_nextFileNum := db_nextFileNum db + 1\<rparr>" using flush_begin_Some [OF start(1)] by blast
  then show ?case using dur_quiet [OF sys_step.start [OF start(1,2)] start(3) z _ durable_frame [OF i(2)]] i(1)
    by (auto simp: db_holds_def meta_ready_def)
next
  case (table env im n fs d meta db)
  then show ?case using dur_table [OF table(3) z table(1,2)] by auto
next
  case (table_fails env im n fs d e db)
  obtain lg where i: "sys_inv z \<lparr>sys_db = db, sys_fs = fs, sys_flush = Begun im n\<rparr> M" "durable z db fs lg M" using table_fails(2) by (auto simp: dur_inv_def)
  obtain es where es: "mem_holds im es" using i(1) by (rule sys_inv_begun)
  note f = flushMemtable_dir [OF es table_fails(1)]
  have "db_versions z db (fs\<lparr>dbdir := d\<rparr>) M" using sys_inv_dir [OF i(1), of d] f file_at_cong by blast
  then have "db_holds z (setBackgroundError e db) (fs\<lparr>dbdir := d\<rparr>) M" by (simp add: db_versions_def db_holds_def setBackgroundError_def)
  moreover have "durable z db (fs\<lparr>dbdir := d\<rparr>) lg M" using i(2) f by (intro durable_dir [where n = n]) blast+
  then have "durable z (setBackgroundError e db) (fs\<lparr>dbdir := d\<rparr>) lg M" by (rule durable_frame) (simp_all add: setBackgroundError_def)
  ultimately show ?case using dur_quiet [OF sys_step.table_fails [OF table_fails(1)] table_fails(2) z] by (auto simp: meta_ready_def)
next
  case (commit meta db fs db' fs' e im)
  have "sys_inv z \<lparr>sys_db = db', sys_fs = fs', sys_flush = (if e = None then Committed (LargestSeq meta) else Idle)\<rparr> M"
    using sim_commit [OF _ commit(1)] commit(2) by (auto simp: dur_inv_def)
  then show ?case using durable_commit [OF commit(2,1)] by (auto simp: dur_inv_def meta_ready_def)
next
  case (truncate env seq db fs db' fs' e)
  obtain lg where i: "db_holds z db fs M" "durable z db fs lg M" using truncate(2) by (rule dur_invD)
  obtain bg where t: "db' = db\<lparr>db_bgErr := bg\<rparr>" "fs' = fs\<lparr>waldir := fst (truncate_log env seq (waldir fs))\<rparr>"
    using flush_truncate_frame [OF truncate(1)] by blast
  have "seq \<le> WALCutoffSeq (db_version db)" using truncate(2) by (simp add: dur_inv_def meta_ready_def)
  from durable_truncate [OF i(2) this, of env] obtain lg' where "durable z db fs' lg' M" unfolding t(2) by blast
  then have d: "durable z db' fs' lg' M" by (rule durable_frame) (simp_all add: t(1))
  have h: "db_holds z db' fs' M" using i(1) by (simp add: t db_holds_def)
  show ?case using dur_quiet [OF sys_step.truncate [OF truncate(1)] truncate(2) z h d] by (auto simp: meta_ready_def)
next
  case (reopen s rs n fs1 coins opts order fs' db')
  then show ?case using dur_reopen [OF reopen(5) z reopen(1-3), of coins opts order] by auto
qed

lemma dur_run_inv:
  assumes "dur_run z s rs s'" and "dur_inv z s M" and z: "zlib_inverse z"
  shows "\<exists>M'. dur_inv z s' M' \<and> kv M' = apply_logical rs (kv M)"
  using assms(1,2)
proof (induction rule: dur_run.induct)
  case (more s rs s1 rs' s2)
  then obtain M1 where "dur_inv z s1 M1" "kv M1 = apply_logical rs (kv M)" by blast
  then show ?case using dur_step_inv [OF more.hyps(2) _ z] by (fastforce simp: apply_logical_append)
qed auto

section \<open>A new database\<close>

definition no_files :: Files where
  "no_files = \<lparr>dbdir = [], waldir = []\<rparr>"

lemma Open_new:
  "\<exists>w wd. Open no_faults (\<lambda>_. no_faults) z coins opts order no_files =
      (\<lparr>dbdir = file_truncate manifestName [], waldir = wd\<rparr>, Inr ((fresh_db w)\<lparr>db_opts := opts\<rparr>)) \<and> wal_rep w wd [] [] [] \<and> activeNum w = 1"
proof -
  obtain w wd where w: "OpenWAL no_faults (64 * 1024 * 1024) [] = (wd, Inr w)" "wal_rep w wd [] [] []" "activeNum w = 1"
    using OpenWAL_fresh [of "64 * 1024 * 1024"] by blast
  have "map_of (file_truncate manifestName []) manifestName = Some (FileE \<lparr>fdata = [], fsynced = 0\<rparr>)" by (simp add: map_of_truncate)
  then have "OpenManifest no_faults manifestName (file_truncate manifestName []) = (file_truncate manifestName [], Inr manifestName)"
    by (rule OpenManifest_existing)
  then show ?thesis using w
    by (intro exI [of _ w] exI [of _ wd]) (simp add: Open_def initial_state_def no_files_def fresh_db_def NewVersionSet_def GetAllTables_def NumLevels_def)
qed

lemma dur_inv_new:
  assumes "wal_rep w wd [] [] []"
  shows "dur_inv z \<lparr>sys_db = (fresh_db w)\<lparr>db_opts := opts\<rparr>, sys_fs = \<lparr>dbdir = file_truncate manifestName [], waldir = wd\<rparr>, sys_flush = Idle\<rparr> []"
proof -
  let ?db = "(fresh_db w)\<lparr>db_opts := opts\<rparr>" and ?fs = "\<lparr>dbdir = file_truncate manifestName [], waldir = wd\<rparr>"
  have "sys_inv z \<lparr>sys_db = ?db, sys_fs = ?fs, sys_flush = Idle\<rparr> []" by (rule sys_inv_empty) (simp add: empty_sys_def fresh_db_def)
  moreover have "durable z ?db ?fs [] []"
  proof (rule durableI [where mss = "[[]]"])
    show "manifested (dbdir ?fs) (db_version ?db)"
      by (auto simp: manifested_def file_at_def map_of_truncate fresh_db_def intro: exI [of _ "[]"])
    show "map_of (dbdir ?fs) (sstName n) \<noteq> Some DirE" for n using sstName_manifest by (simp add: map_of_truncate)
    show "small_seqs (db_version ?db)" by (simp add: fresh_db_def small_seqs_def NewVersionSet_def GetAllTables_def)
    show "log_holds ?db ?fs []" using assms unfolding log_holds_def by (intro exI [of _ "[]"]) (simp add: fresh_db_def)
    show "memtables_hold ?db [[]]" using mem_rep_New by (simp add: memtables_hold_def fresh_db_def mem_holds_def)
  qed (simp_all add: fresh_db_def NewVersionSet_def)
  ultimately show ?thesis by (auto simp: dur_inv_def meta_ready_def)
qed

lemma new_run_inv:
  assumes "Open no_faults (\<lambda>_. no_faults) z coins opts order no_files = (fs0, Inr db0)" and "zlib_inverse z"
    and "dur_run z \<lparr>sys_db = db0, sys_fs = fs0, sys_flush = Idle\<rparr> rs s"
  obtains M where "dur_inv z s M" and "kv M = apply_logical rs (\<lambda>_. None)"
proof -
  have "dur_inv z \<lparr>sys_db = db0, sys_fs = fs0, sys_flush = Idle\<rparr> []" using Open_new [of z coins opts order] dur_inv_new assms(1) by fastforce
  from dur_run_inv [OF assms(3) this assms(2)] show thesis by (auto simp: kv_def user_entries_def intro: that)
qed

lemma dur_inv_Get:
  assumes "dur_inv z s M" and "reads_ok env" and "db_bgErr (sys_db s) = None"
  shows "Get env z key (sys_db s) (sys_fs s) = found (kv M key)"
  by (rule GetWithOptions_ok(2) [OF _ assms(2,3)]) (use assms(1) in \<open>simp add: dur_inv_def sys_inv_def db_versions_def\<close>)

section \<open>A sample crash\<close>

lemma left_between: "left_files z \<lparr>sys_db = db, sys_fs = fs, sys_flush = fl\<rparr> [] (unat (db_nextFileNum db)) fs"
  using left_files.kill [of "\<lparr>sys_db = db, sys_fs = fs, sys_flush = fl\<rparr>" "[]" fs z] by (simp add: killed.between)

text \<open>A new database, one write, and a crash.\<close>

lemma sample_crash:
  "\<exists>fs0 db0 db1 fs1. Open no_faults (\<lambda>_. no_faults) plain_zlib (\<lambda>_ _. False) DefaultConfig [] no_files = (fs0, Inr db0) \<and>
     dur_run plain_zlib \<lparr>sys_db = db0, sys_fs = fs0, sys_flush = Idle\<rparr> [put_record 1] \<lparr>sys_db = db1, sys_fs = fs1, sys_flush = Idle\<rparr> \<and>
     small_log (replay_dir (waldir fs1)) \<and> unat (db_nextFileNum db1) + length (replay_dir (waldir fs1)) + 1 < 2 ^ 64"
proof -
  obtain w wd where o: "Open no_faults (\<lambda>_. no_faults) plain_zlib (\<lambda>_ _. False) DefaultConfig [] no_files =
      (\<lparr>dbdir = file_truncate manifestName [], waldir = wd\<rparr>, Inr ((fresh_db w)\<lparr>db_opts := DefaultConfig\<rparr>))" "wal_rep w wd [] [] []" "activeNum w = 1"
    using Open_new by blast
  let ?db = "(fresh_db w)\<lparr>db_opts := DefaultConfig\<rparr>" and ?fs = "\<lparr>dbdir = file_truncate manifestName [], waldir = wd\<rparr>"
  let ?b = "\<lparr>SeqStart = 1, Records = [put_record 1]\<rparr> :: Batch"
  have m: "mem_holds (db_memtable ?db) []" using mem_rep_New by (simp add: mem_holds_def fresh_db_def)
  obtain w1 wd1 ns bss bs m1 where p: "Put no_faults (\<lambda>_. False) [107] [1] ?db ?fs =
      ((maybe_rotate (?db\<lparr>db_wal := w1, db_memtable := m1\<rparr>))\<lparr>db_nextSeq := db_nextSeq ?db + 1\<rparr>, ?fs\<lparr>waldir := wd1\<rparr>, None)"
    "wal_rep w1 wd1 ns bss bs" "concat bss @ bs = [?b]"
    using Put_succeeds [of ?db ?fs "[]" "[]" "[]" "[107]" "[1]" "[]" "\<lambda>_. False", OF _ _ _ _ _ m] o(2,3) by (auto simp: fresh_db_def put_record_def)
  let ?db1 = "(maybe_rotate (?db\<lparr>db_wal := w1, db_memtable := m1\<rparr>))\<lparr>db_nextSeq := db_nextSeq ?db + 1\<rparr>"
  have rec: "op_records (DoPut [107] [1]) = [put_record 1]" "batch_of (DoPut [107] [1]) ?db = ?b"
    by (simp_all add: op_records_def put_record_def batch_of_def fresh_db_def)
  have api: "api_batch ?b" "api_record (put_record 1)" by (simp_all add: api_batch_def api_record_def put_record_def)
  have "run_write no_faults (\<lambda>_ _. False) (DoPut [107] [1]) ?db ?fs = (?db1, ?fs\<lparr>waldir := wd1\<rparr>, None)" using p(1) by (simp add: run_write_def)
  moreover have "loggable ?b" using put_loggable [of "[107]" "[1]" 1] by (simp add: put_record_def)
  ultimately have "dur_step plain_zlib \<lparr>sys_db = ?db, sys_fs = ?fs, sys_flush = Idle\<rparr> [put_record 1] \<lparr>sys_db = ?db1, sys_fs = ?fs\<lparr>waldir := wd1\<rparr>, sys_flush = Idle\<rparr>"
    using dur_step.wr [of "\<lambda>_ _. False" "DoPut [107] [1]" ?db ?fs ?db1 "?fs\<lparr>waldir := wd1\<rparr>" plain_zlib Idle] api(2) o(3) unfolding rec by (simp add: fresh_db_def)
  from dur_run.more [OF dur_run.none this]
  have run: "dur_run plain_zlib \<lparr>sys_db = ?db, sys_fs = ?fs, sys_flush = Idle\<rparr> [put_record 1] \<lparr>sys_db = ?db1, sys_fs = ?fs\<lparr>waldir := wd1\<rparr>, sys_flush = Idle\<rparr>" by simp
  have "replay_dir wd1 = [?b]" using wal_rep_replay [OF p(2)] p(3) batch_on_disk_api [OF api(1)] by simp
  moreover have "small_log [?b]" by (simp add: small_log_def put_record_def ikey_of_def)
  moreover have "db_nextFileNum ?db1 = 1" by (simp add: maybe_rotate_fields(1) fresh_db_def)
  ultimately show ?thesis using o(1) run by fastforce
qed

section \<open>Properties\<close>

text \<open>C1. The engine refines a map across crashes.  From a new database, after any run of writes, freezes, snapshots, flushes whose tables may fail to be
  written, and kills of the process, each followed by \<^verbatim>\<open>Open\<close> on the files that are left, \<^verbatim>\<open>Get\<close> returns what the
  acknowledged writes, applied in order to an empty map, leave at the key.  A kill may come between these steps or inside a write, a rotation of the log, the writing of
  a table, the commit of a flush, the shortening of the log or the replay of an \<^verbatim>\<open>Open\<close>, which may be killed again and again.  Nothing acknowledged is lost or undone;
  the one write during which the process was killed counts as made when its record had reached the log, and nothing else
  appears.  System calls of the log and the manifest succeed and their records are not torn; reads are fault-free and no background error is pending.\<close>

theorem crash_safe_Get:
  assumes "Open no_faults (\<lambda>_. no_faults) z coins opts order no_files = (fs0, Inr db0)"
    and "dur_run z \<lparr>sys_db = db0, sys_fs = fs0, sys_flush = Idle\<rparr> rs s" and "zlib_inverse z" and "reads_ok env" and "db_bgErr (sys_db s) = None"
  shows "Get env z key (sys_db s) (sys_fs s) = found (apply_logical rs (\<lambda>_. None) key)"
proof -
  obtain M where M: "dur_inv z s M" "kv M = apply_logical rs (\<lambda>_. None)" using new_run_inv [OF assms(1,3,2)] .
  then show ?thesis using dur_inv_Get [OF M(1) assms(4,5)] by simp
qed

theorem crash_safe_Get_witness:
  "\<exists>fs0 db0 s. Open no_faults (\<lambda>_. no_faults) plain_zlib (\<lambda>_ _. False) DefaultConfig [] no_files = (fs0, Inr db0) \<and>
     dur_run plain_zlib \<lparr>sys_db = db0, sys_fs = fs0, sys_flush = Idle\<rparr> [put_record 1] s \<and> Get no_faults plain_zlib [107] (sys_db s) (sys_fs s) = Inr [1]"
proof -
  obtain fs0 db0 db1 fs1 where r: "Open no_faults (\<lambda>_. no_faults) plain_zlib (\<lambda>_ _. False) DefaultConfig [] no_files = (fs0, Inr db0)"
    "dur_run plain_zlib \<lparr>sys_db = db0, sys_fs = fs0, sys_flush = Idle\<rparr> [put_record 1] \<lparr>sys_db = db1, sys_fs = fs1, sys_flush = Idle\<rparr>"
    "small_log (replay_dir (waldir fs1))" "unat (db_nextFileNum db1) + length (replay_dir (waldir fs1)) + 1 < 2 ^ 64" using sample_crash by blast
  obtain M where M: "dur_inv plain_zlib \<lparr>sys_db = db1, sys_fs = fs1, sys_flush = Idle\<rparr> M" using new_run_inv [OF r(1) plain_zlib_inverse r(2)] .
  note left = left_between [of plain_zlib db1 fs1 Idle]
  obtain fs2 db2 where o: "Open no_faults (\<lambda>_. no_faults) plain_zlib (\<lambda>_ _. False) DefaultConfig [] fs1 = (fs2, Inr db2)" "db_bgErr db2 = None"
    using dur_reopen [OF M plain_zlib_inverse left r(3,4)] by blast
  from dur_run.more [OF r(2) dur_step.reopen [OF left r(3,4) o(1)]]
  have run: "dur_run plain_zlib \<lparr>sys_db = db0, sys_fs = fs0, sys_flush = Idle\<rparr> [put_record 1] \<lparr>sys_db = db2, sys_fs = fs2, sys_flush = Idle\<rparr>" by simp
  have ok: "reads_ok no_faults" by (simp add: reads_ok_def)
  have "Get no_faults plain_zlib [107] db2 fs2 = Inr [1]"
    using crash_safe_Get [OF r(1) run plain_zlib_inverse ok, of "[107]"] o(2)
    by (simp add: put_record_def found_def logicalTypePut_def logicalTypeDelete_def)
  then show ?thesis using r(1) run by (metis Sys.select_convs(1,2))
qed

text \<open>C4. Recovery always succeeds.  Whatever such a run has left on disk when the process is killed, between any two of its steps or inside one of them, and
  however often an \<^verbatim>\<open>Open\<close> was killed while it replayed the log after that, \<^verbatim>\<open>Open\<close> returns a database without error, and that database shows exactly the acknowledged writes and
  the write that was interrupted after its record had reached the log.  The log to
  replay must fit one table and the file numbers must not run out.\<close>

theorem Open_recovers:
  assumes "Open no_faults (\<lambda>_. no_faults) z coins opts order no_files = (fs0, Inr db0)"
    and "dur_run z \<lparr>sys_db = db0, sys_fs = fs0, sys_flush = Idle\<rparr> rs s" and "left_files z s rs' n fs1"
    and "small_log (replay_dir (waldir fs1))" and "n + length (replay_dir (waldir fs1)) + 1 < 2 ^ 64"
    and "zlib_inverse z" and "reads_ok env"
  shows "\<exists>fs2 db2. Open no_faults (\<lambda>_. no_faults) z coins' opts' order' fs1 = (fs2, Inr db2) \<and>
    (\<forall>key. Get env z key db2 fs2 = found (apply_logical (rs @ rs') (\<lambda>_. None) key))"
proof -
  obtain M where M: "dur_inv z s M" "kv M = apply_logical rs (\<lambda>_. None)" using new_run_inv [OF assms(1,6,2)] .
  from dur_reopen [OF M(1) assms(6,3,4,5), of coins' opts' order'] obtain fs2 db2 M' where
    "Open no_faults (\<lambda>_. no_faults) z coins' opts' order' fs1 = (fs2, Inr db2)" "dur_inv z \<lparr>sys_db = db2, sys_fs = fs2, sys_flush = Idle\<rparr> M'"
    "kv M' = apply_logical rs' (kv M)" "db_bgErr db2 = None" by blast
  then show ?thesis using dur_inv_Get [of z "\<lparr>sys_db = db2, sys_fs = fs2, sys_flush = Idle\<rparr>" M' env] assms(7) M(2) by (auto simp: apply_logical_append)
qed

theorem Open_recovers_witness:
  "\<exists>fs1 fs2 db2. Open no_faults (\<lambda>_. no_faults) plain_zlib (\<lambda>_ _. False) DefaultConfig [] fs1 = (fs2, Inr db2) \<and>
     Get no_faults plain_zlib [107] db2 fs2 = Inr [1] \<and> Get no_faults plain_zlib [7] db2 fs2 = Inl ErrNotFound"
proof -
  obtain fs0 db0 db1 fs1 where r: "Open no_faults (\<lambda>_. no_faults) plain_zlib (\<lambda>_ _. False) DefaultConfig [] no_files = (fs0, Inr db0)"
    "dur_run plain_zlib \<lparr>sys_db = db0, sys_fs = fs0, sys_flush = Idle\<rparr> [put_record 1] \<lparr>sys_db = db1, sys_fs = fs1, sys_flush = Idle\<rparr>"
    "small_log (replay_dir (waldir fs1))" "unat (db_nextFileNum db1) + length (replay_dir (waldir fs1)) + 1 < 2 ^ 64" using sample_crash by blast
  have ok: "reads_ok no_faults" by (simp add: reads_ok_def)
  from Open_recovers [OF r(1,2) left_between r(3,4) plain_zlib_inverse ok, of "\<lambda>_ _. False" DefaultConfig "[]"] obtain fs2 db2 where
    o: "Open no_faults (\<lambda>_. no_faults) plain_zlib (\<lambda>_ _. False) DefaultConfig [] fs1 = (fs2, Inr db2)"
    "\<forall>key. Get no_faults plain_zlib key db2 fs2 = found (apply_logical [put_record 1] (\<lambda>_. None) key)" by auto
  then have "Get no_faults plain_zlib [107] db2 fs2 = Inr [1] \<and> Get no_faults plain_zlib [7] db2 fs2 = Inl ErrNotFound"
    by (simp add: put_record_def found_def logicalTypePut_def logicalTypeDelete_def)
  then show ?thesis using o(1) by blast
qed

end
