(* ===== verification/Compaction.thy ===== *)
theory Compaction
  imports Durability
begin

text \<open>
  Package \<^verbatim>\<open>engine\<close>, \<^verbatim>\<open>compaction.go\<close>, and the whole of \<^verbatim>\<open>MaybeScheduleFlush\<close> that ends with a compaction: choosing the input tables, merging them into
  new tables of the next level, dropping tombstones that nobody can see, and swapping the tables in the manifest and the version set.

  A compaction runs in three parts like a flush: the inputs are chosen under the lock, the merge runs without it, and the commit takes it again.
  The faults of the merge are given by the number of the file it writes, those of the commit by the number of the record it logs.
\<close>

section \<open>Choosing the inputs\<close>

definition DB_PickCompaction :: "DB \<Rightarrow> int \<times> bool" where
  "DB_PickCompaction db = PickCompaction (L0CompactionTrigger (db_opts db)) (L1MaxBytes (db_opts db)) (db_version db)"

definition widen :: "SSTableMeta \<Rightarrow> bytes \<times> bytes \<Rightarrow> bytes \<times> bytes" where
  "widen f r =
     (if Compare (SmallestKey f) (fst r) < 0 then SmallestKey f else fst r,
      if Compare (LargestKey f) (snd r) > 0 then LargestKey f else snd r)"

definition key_range :: "SSTableMeta list \<Rightarrow> bytes \<times> bytes" where
  "key_range l0 = (case l0 of [] \<Rightarrow> ([], []) | f # fs \<Rightarrow> fold widen fs (SmallestKey f, LargestKey f))"

text \<open>No inputs: there is nothing to do.\<close>

definition compaction_inputs :: "nat \<Rightarrow> VersionSet \<Rightarrow> SSTableMeta list" where
  "compaction_inputs lv v =
     (if lv = 0 then
        let l0 = Levels v ! 0
        in if l0 = [] then [] else let (smallest, largest) = key_range l0 in l0 @ GetOverlappingInputs 1 smallest largest v
      else
        let currentLevel = Levels v ! lv
        in case currentLevel of
             [] \<Rightarrow> []
           | picked # _ \<Rightarrow> picked # GetOverlappingInputs (lv + 1) (SmallestKey picked) (LargestKey picked) v)"

section \<open>The output files\<close>

record Compacting =
  cp_builder :: "Builder option"
  cp_fileNum :: u64
  cp_stats :: TableStats
  cp_newFiles :: "SSTableMeta list"
  cp_nextFileNum :: u64

definition nil_builder :: go_err where
  "nil_builder = Panic ''nil pointer dereference''"

definition finishFile :: "(u64 \<Rightarrow> os_env) \<Rightarrow> zlib \<Rightarrow> u32 \<Rightarrow> Compacting \<Rightarrow> dir \<Rightarrow> Compacting \<times> dir \<times> go_err option" where
  "finishFile envs z targetLevel cp d =
     (case cp_builder cp of
        None \<Rightarrow> (cp, d, None)
      | Some b \<Rightarrow>
          (case Builder_Close (envs (cp_fileNum cp)) z b d of
             (b, d, Some e) \<Rightarrow> (cp\<lparr>cp_builder := Some b\<rparr>, d, Some e)
           | (b, d, None) \<Rightarrow>
               let path = sstName (cp_fileNum cp); st = cp_stats cp;
                   meta = \<lparr>FileNum = cp_fileNum cp, Level = targetLevel, SmallestSeq = st_smallestSeq st, LargestSeq = st_largestSeq st,
                     SmallestKey = st_smallest st, LargestKey = st_largest st,
                     FileSize = (if stat_ok (envs (cp_fileNum cp)) path then of_nat (length (data_at d path)) else 0)\<rparr>
               in (cp\<lparr>cp_builder := None, cp_newFiles := cp_newFiles cp @ [meta]\<rparr>, d, None)))"

definition startFile :: "(u64 \<Rightarrow> os_env) \<Rightarrow> Compacting \<Rightarrow> dir \<Rightarrow> Compacting \<times> dir \<times> go_err option" where
  "startFile envs cp d =
     (let fileNum = cp_nextFileNum cp; cp = cp\<lparr>cp_nextFileNum := fileNum + 1\<rparr>
      in case NewBuilder (envs fileNum) (sstName fileNum) d of
           (d, Inl e) \<Rightarrow> (cp, d, Some e)
         | (d, Inr b) \<Rightarrow> (cp\<lparr>cp_builder := Some b, cp_fileNum := fileNum, cp_stats := no_stats\<rparr>, d, None))"

definition splitSize :: u64 where
  "splitSize = 20 * 1024 * 1024"

definition split_file :: "(u64 \<Rightarrow> os_env) \<Rightarrow> zlib \<Rightarrow> u32 \<Rightarrow> Compacting \<Rightarrow> dir \<Rightarrow> Compacting \<times> dir \<times> go_err option" where
  "split_file envs z targetLevel cp d =
     (case cp_builder cp of
        None \<Rightarrow> (cp, d, Some nil_builder)
      | Some b \<Rightarrow> if Builder_Size b \<ge> splitSize then and_then (finishFile envs z targetLevel cp d) (startFile envs) else (cp, d, None))"

definition add_output :: "(u64 \<Rightarrow> os_env) \<Rightarrow> zlib \<Rightarrow> bytes \<Rightarrow> bytes \<Rightarrow> Compacting \<Rightarrow> dir \<Rightarrow> Compacting \<times> dir \<times> go_err option" where
  "add_output envs z key val cp d =
     (case cp_builder cp of
        None \<Rightarrow> (cp, d, Some nil_builder)
      | Some b \<Rightarrow>
          (case Builder_Add (envs (cp_fileNum cp)) z key val b d of
             (b, d, Some e) \<Rightarrow> (cp\<lparr>cp_builder := Some b\<rparr>, d, Some e)
           | (b, d, None) \<Rightarrow> (cp\<lparr>cp_builder := Some b, cp_stats := update_stats key (cp_stats cp)\<rparr>, d, None)))"

section \<open>The merge\<close>

definition isBottom :: "nat \<Rightarrow> VersionSet \<Rightarrow> bool" where
  "isBottom targetLevel v \<longleftrightarrow> (\<forall>l\<in>set [targetLevel + 1..<NumLevels]. Levels v ! l = [])"

text \<open>A version that the compaction drops together with the older versions of its key.\<close>

definition droppable :: "u64 \<Rightarrow> bool \<Rightarrow> bytes \<Rightarrow> bool" where
  "droppable oldestSnapshotSeq bottom key \<longleftrightarrow> is_tombstone key \<and> trailer_seq key \<le> oldestSnapshotSeq \<and> bottom"

partial_function (option) skip_shadowed :: "'it iter_ops \<Rightarrow> bytes \<Rightarrow> 'it \<Rightarrow> 'it option" where
  "skip_shadowed ops userKey it =
     Option.bind (op_Next ops it) (\<lambda>it.
       if \<not> op_Valid ops it then Some it
       else if ExtractUserKey (op_Key ops it) \<noteq> userKey then Some it
       else skip_shadowed ops userKey it)"

partial_function (option) compact_loop ::
  "'it iter_ops \<Rightarrow> (u64 \<Rightarrow> os_env) \<Rightarrow> zlib \<Rightarrow> u32 \<Rightarrow> u64 \<Rightarrow> bool \<Rightarrow> 'it \<Rightarrow> Compacting \<Rightarrow> dir \<Rightarrow> (Compacting \<times> dir \<times> go_err option) option" where
  "compact_loop ops envs z targetLevel oldestSnapshotSeq bottom it cp d =
     (if op_Valid ops it then
        (case split_file envs z targetLevel cp d of
           (cp, d, Some e) \<Rightarrow> Some (cp, d, Some e)
         | (cp, d, None) \<Rightarrow>
             if droppable oldestSnapshotSeq bottom (op_Key ops it) then
               Option.bind (skip_shadowed ops (ExtractUserKey (op_Key ops it)) it) (\<lambda>it.
                 compact_loop ops envs z targetLevel oldestSnapshotSeq bottom it cp d)
             else
               (case add_output envs z (op_Key ops it) (op_Value ops it) cp d of
                  (cp, d, Some e) \<Rightarrow> Some (cp, d, Some e)
                | (cp, d, None) \<Rightarrow>
                    Option.bind (op_Next ops it) (\<lambda>it.
                      compact_loop ops envs z targetLevel oldestSnapshotSeq bottom it cp d)))
      else Some (cp, d, None))"

definition compact_merge ::
  "os_env \<Rightarrow> (u64 \<Rightarrow> os_env) \<Rightarrow> zlib \<Rightarrow> nat \<Rightarrow> u64 \<Rightarrow> SSTableMeta list \<Rightarrow> DB \<Rightarrow> dir \<Rightarrow> DB \<times> dir \<times> SSTableMeta list res" where
  "compact_merge env envs z lv oldestSnapshotSeq inputs db d =
     (case open_tables env z d inputs of
        Inl e \<Rightarrow> (db, d, Inl e)
      | Inr iters \<Rightarrow>
          (case mg_SeekToFirst (ti_ops env z) (NewMergeIterator iters False) of
             None \<Rightarrow> (db, d, Inl iterator_panic)
           | Some merge \<Rightarrow>
               let target = lv + 1;
                   cp = \<lparr>cp_builder = None, cp_fileNum = 0, cp_stats = no_stats, cp_newFiles = [], cp_nextFileNum = db_nextFileNum db\<rparr>
               in case startFile envs cp d of
                    (cp, d, Some e) \<Rightarrow> (db\<lparr>db_nextFileNum := cp_nextFileNum cp\<rparr>, d, Inl e)
                  | (cp, d, None) \<Rightarrow>
                      (case compact_loop (mg_ops (ti_ops env z)) envs z (of_nat target) oldestSnapshotSeq (isBottom target (db_version db)) merge cp d of
                         None \<Rightarrow> (db, d, Inl iterator_panic)
                       | Some r \<Rightarrow>
                           (case and_then r (finishFile envs z (of_nat target)) of
                              (cp, d, Some e) \<Rightarrow> (db\<lparr>db_nextFileNum := cp_nextFileNum cp\<rparr>, d, Inl e)
                            | (cp, d, None) \<Rightarrow> (db\<lparr>db_nextFileNum := cp_nextFileNum cp\<rparr>, d, Inr (cp_newFiles cp))))))"

section \<open>The commit\<close>

fun log_removes :: "(nat \<Rightarrow> os_env) \<Rightarrow> SSTableMeta list \<Rightarrow> DB \<Rightarrow> Files \<Rightarrow> DB \<times> Files \<times> go_err option" where
  "log_removes envs [] db fs = (db, fs, None)"
| "log_removes envs (meta # metas) db fs =
     (case Manifest_Append (envs (length metas)) (remove_edit (FileNum meta)) manifestName (dbdir fs) of
        (d, Some e) \<Rightarrow> (db, fs\<lparr>dbdir := d\<rparr>, Some e)
      | (d, None) \<Rightarrow> log_removes envs metas (db\<lparr>db_version := RemoveTable (FileNum meta) (db_version db)\<rparr>) (fs\<lparr>dbdir := d\<rparr>))"

fun log_adds :: "(nat \<Rightarrow> os_env) \<Rightarrow> SSTableMeta list \<Rightarrow> DB \<Rightarrow> Files \<Rightarrow> DB \<times> Files \<times> go_err option" where
  "log_adds envs [] db fs = (db, fs, None)"
| "log_adds envs (meta # metas) db fs =
     (case Manifest_Append (envs (length metas)) (add_edit meta) manifestName (dbdir fs) of
        (d, Some e) \<Rightarrow> (db, fs\<lparr>dbdir := d\<rparr>, Some e)
      | (d, None) \<Rightarrow>
          (case AddTable meta (db_version db) of
             (v, Some e) \<Rightarrow> (db\<lparr>db_version := v\<rparr>, fs\<lparr>dbdir := d\<rparr>, Some e)
           | (v, None) \<Rightarrow> log_adds envs metas (db\<lparr>db_version := v\<rparr>) (fs\<lparr>dbdir := d\<rparr>)))"

text \<open>The faults of one compaction: of opening the inputs, of the output files, of the two groups of manifest records.\<close>

record compaction_env =
  ce_open :: os_env
  ce_files :: "u64 \<Rightarrow> os_env"
  ce_removes :: "nat \<Rightarrow> os_env"
  ce_adds :: "nat \<Rightarrow> os_env"

text \<open>A walk over a broken snapshot list does not return.\<close>

definition broken_list :: go_err where
  "broken_list = Panic ''snapshot list''"

definition CompactLevel :: "compaction_env \<Rightarrow> zlib \<Rightarrow> int \<Rightarrow> DB \<Rightarrow> Files \<Rightarrow> DB \<times> Files \<times> go_err option" where
  "CompactLevel ce z lv db fs =
     (if lv \<ge> int NumLevels - 1 then (db, fs, Some (Err ''cannot compact max level''))
      else if lv < 0 then (db, fs, Some (Panic ''index out of range''))
      else
        case getOldestSnapshotSeq (db_nextSeq db) (db_snapshots db) of
          None \<Rightarrow> (db, fs, Some broken_list)
        | Some oldestSnapshotSeq \<Rightarrow>
            let inputs = compaction_inputs (nat lv) (db_version db)
            in if inputs = [] then (db, fs, None)
               else
                 (case compact_merge (ce_open ce) (ce_files ce) z (nat lv) oldestSnapshotSeq inputs db (dbdir fs) of
                    (db, d, Inl e) \<Rightarrow> (db, fs\<lparr>dbdir := d\<rparr>, Some e)
                  | (db, d, Inr newFiles) \<Rightarrow>
                      and_then (log_removes (ce_removes ce) inputs db (fs\<lparr>dbdir := d\<rparr>)) (log_adds (ce_adds ce) newFiles)))"

text \<open>The caller drops the error; a panic goes on to the deferred function of \<^verbatim>\<open>MaybeScheduleFlush\<close>.\<close>

definition MaybeScheduleCompaction :: "compaction_env \<Rightarrow> zlib \<Rightarrow> DB \<Rightarrow> Files \<Rightarrow> DB \<times> Files \<times> go_err option" where
  "MaybeScheduleCompaction ce z db fs =
     (let (lv, needs) = DB_PickCompaction db
      in if needs then (case CompactLevel ce z lv db fs of (db, fs, e) \<Rightarrow> (db, fs, panicked e)) else (db, fs, None))"

section \<open>db.go: the whole flush\<close>

text \<open>\<^verbatim>\<open>MaybeScheduleFlush\<close> when nothing else runs: the loop takes one turn for each frozen memtable.\<close>

definition MaybeScheduleFlush :: "(nat \<Rightarrow> nat \<Rightarrow> os_env) \<Rightarrow> compaction_env \<Rightarrow> os_env \<Rightarrow> zlib \<Rightarrow> DB \<Rightarrow> Files \<Rightarrow> DB \<times> Files" where
  "MaybeScheduleFlush envss ce env z db fs =
     (case flush_all envss z (length (db_immutables db)) db fs of
        (db, fs, Some e) \<Rightarrow> (db, fs)
      | (db, fs, None) \<Rightarrow>
          (case MaybeScheduleCompaction ce z db fs of
             (db, fs, Some e) \<Rightarrow> (setBackgroundError e db, fs)
           | (db, fs, None) \<Rightarrow> cleanupObsoleteFiles env db fs))"

definition freezeMemtable :: "(nat \<Rightarrow> nat \<Rightarrow> os_env) \<Rightarrow> compaction_env \<Rightarrow> os_env \<Rightarrow> zlib \<Rightarrow> DB \<Rightarrow> Files \<Rightarrow> DB \<times> Files" where
  "freezeMemtable envss ce env z db fs = MaybeScheduleFlush envss ce env z (rotateMemtableLocked db) fs"

section \<open>What a compaction drops\<close>


text \<open>The versions that a compaction is to write out: all, except that a tombstone which no snapshot can miss goes at the bottom, together with the older versions of
  its key.  The condition is stated here on its own; the lemma after it relates it to the test of the loop.\<close>

function gc :: "u64 \<Rightarrow> bool \<Rightarrow> entries \<Rightarrow> entries" where
  "gc oldest bottom [] = []"
| "gc oldest bottom (e # es) =
     (if bottom \<and> trailer_type (fst e) = RecordTypeTombstone \<and> trailer_seq (fst e) \<le> oldest
      then gc oldest bottom (dropWhile (\<lambda>x. ExtractUserKey (fst x) = ExtractUserKey (fst e)) es)
      else e # gc oldest bottom es)"
  by pat_completeness auto
termination
  by (relation "measure (\<lambda>(_, _, es). length es)") (auto simp: le_imp_less_Suc length_dropWhile_le)

lemma droppable_iff: "droppable oldest bottom k \<longleftrightarrow> bottom \<and> trailer_type k = RecordTypeTombstone \<and> trailer_seq k \<le> oldest"
  by (auto simp: droppable_def is_tombstone_def)

lemmas gc_Cons = gc.simps(2) [folded droppable_iff]

lemmas gc_drops_induct [case_names 1 2] = gc.induct [folded droppable_iff]

declare gc.simps(2) [simp del] gc_Cons [simp]

lemma gc_subset: "set (gc oldest bottom es) \<subseteq> set es"
  by (induction oldest bottom es rule: gc_drops_induct) (auto dest: set_dropWhileD)

lemma dropped_user:
  assumes "sorted_entries (e # es)" and "f \<in> set (dropWhile (\<lambda>x. ExtractUserKey (fst x) = ExtractUserKey (fst e)) es)"
  shows "ExtractUserKey (fst f) \<noteq> ExtractUserKey (fst e)"
proof -
  let ?P = "\<lambda>x. ExtractUserKey (fst x) = ExtractUserKey (fst e)"
  obtain g gs where g: "dropWhile ?P es = g # gs" using assms(2) by (cases "dropWhile ?P es") auto
  have "\<not> ?P g" using hd_dropWhile [of ?P es] g by simp
  moreover have s: "sorted_entries (e # takeWhile ?P es @ g # gs)" using assms(1) by (simp flip: g)
  then have "ExtractUserKey (fst e) \<le> ExtractUserKey (fst g)" by (auto simp: sorted_wrt_append intro!: user_le)
  ultimately have lt: "ExtractUserKey (fst e) < ExtractUserKey (fst g)" by simp
  have "f = g \<or> ikey_less (fst g) (fst f)" using assms(2) s g by (auto simp: sorted_wrt_append)
  then have "ExtractUserKey (fst g) \<le> ExtractUserKey (fst f)" using user_le by auto
  then show ?thesis using lt by auto
qed

lemma gc_dropped:
  assumes "sorted_entries es" and "e \<in> set es" and "e \<notin> set (gc oldest bottom es)"
  shows "\<exists>t\<in>set es. droppable oldest bottom (fst t) \<and> ExtractUserKey (fst t) = ExtractUserKey (fst e) \<and> (e = t \<or> ikey_less (fst t) (fst e)) \<and>
    (\<forall>f\<in>set (gc oldest bottom es). ExtractUserKey (fst f) = ExtractUserKey (fst e) \<longrightarrow> ikey_less (fst f) (fst t))"
  using assms
proof (induction oldest bottom es rule: gc_drops_induct)
  case (2 oldest bottom e0 es)
  let ?P = "\<lambda>x. ExtractUserKey (fst x) = ExtractUserKey (fst e0)"
  show ?case
  proof (cases "droppable oldest bottom (fst e0)")
    case False
    then have "e \<in> set es" "e \<notin> set (gc oldest bottom es)" using 2(4,5) by auto
    moreover have "sorted_entries es" using 2(3) by simp
    ultimately obtain t where "t \<in> set es" "droppable oldest bottom (fst t) \<and> ExtractUserKey (fst t) = ExtractUserKey (fst e) \<and> (e = t \<or> ikey_less (fst t) (fst e)) \<and>
      (\<forall>f\<in>set (gc oldest bottom es). ExtractUserKey (fst f) = ExtractUserKey (fst e) \<longrightarrow> ikey_less (fst f) (fst t))" using 2(2) [OF False] by blast
    moreover have "ikey_less (fst e0) (fst t)" using 2(3) \<open>t \<in> set es\<close> by auto
    ultimately show ?thesis using False by (intro bexI [of _ t]) auto
  next
    case True
    have sd: "sorted_entries (dropWhile ?P es)" using 2(3) by (simp add: sorted_wrt_map sorted_wrt_dropWhile)
    show ?thesis
    proof (cases "e \<in> set (dropWhile ?P es)")
      case e: True
      then show ?thesis using 2(1) [OF True sd e] 2(5) True by (auto dest: set_dropWhileD)
    next
      case False
      have "es = takeWhile ?P es @ dropWhile ?P es" by simp
      then have "e = e0 \<or> e \<in> set (takeWhile ?P es)" using 2(4) False by (metis Un_iff set_ConsD set_append)
      then have "?P e" "e = e0 \<or> e \<in> set es" by (auto dest: set_takeWhileD)
      then have old: "?P e" "e = e0 \<or> ikey_less (fst e0) (fst e)" using 2(3) by auto
      have new: "ExtractUserKey (fst f) \<noteq> ExtractUserKey (fst e0)" if f: "f \<in> set (gc oldest bottom (e0 # es))" for f
      proof -
        have "f \<in> set (gc oldest bottom (dropWhile ?P es))" using f True by simp
        then show ?thesis using gc_subset by (intro dropped_user [OF 2(3)]) blast
      qed
      show ?thesis
      proof (intro bexI [of _ e0] conjI ballI impI)
        show "ExtractUserKey (fst e0) = ExtractUserKey (fst e)" using old(1) by simp
      qed (use True old new in \<open>simp_all del: gc.simps gc_Cons\<close>)
    qed
  qed
qed simp

text \<open>Leaving out versions that a tombstone hides, and the tombstone, changes nothing for readers that see the tombstone.\<close>

lemma kv_at_hidden:
  assumes M: "sorted_entries M" and N: "sorted_entries N" and sub: "set N \<subseteq> set M"
    and hid: "\<And>e. e \<in> set M \<Longrightarrow> e \<notin> set N \<Longrightarrow> \<exists>t\<in>set M. is_tombstone (fst t) \<and> ExtractUserKey (fst t) = ExtractUserKey (fst e) \<and> trailer_seq (fst t) \<le> r \<and>
      (e = t \<or> ikey_less (fst t) (fst e)) \<and> (\<forall>f\<in>set N. ExtractUserKey (fst f) = ExtractUserKey (fst e) \<longrightarrow> ikey_less (fst f) (fst t))"
  shows "kv_at r N = kv_at r M"
proof
  fix u
  have "kv_at r N u = Some v \<longleftrightarrow> kv_at r M u = Some v" for v
  proof
    assume "kv_at r M u = Some v"
    then obtain k where k: "(k, v) \<in> set M" "ExtractUserKey k = u" "trailer_seq k \<le> r" "\<not> is_tombstone k"
      "\<forall>e\<in>set M. ExtractUserKey (fst e) = u \<and> visible r e \<longrightarrow> \<not> ikey_less (fst e) k" unfolding kv_at_iff [OF M] by blast
    have "(k, v) \<in> set N" using hid [OF k(1)] k(2,4,5) by (fastforce simp: visible_def)
    then show "kv_at r N u = Some v" unfolding kv_at_iff [OF N] using k sub by blast
  next
    assume "kv_at r N u = Some v"
    then obtain k where k: "(k, v) \<in> set N" "ExtractUserKey k = u" "trailer_seq k \<le> r" "\<not> is_tombstone k"
      "\<forall>e\<in>set N. ExtractUserKey (fst e) = u \<and> visible r e \<longrightarrow> \<not> ikey_less (fst e) k" unfolding kv_at_iff [OF N] by blast
    have "\<not> ikey_less (fst e) k" if e: "e \<in> set M" "ExtractUserKey (fst e) = u" "visible r e" for e
    proof (cases "e \<in> set N")
      case False
      then obtain t where "e = t \<or> ikey_less (fst t) (fst e)" "ikey_less k (fst t)" using hid [OF e(1) False] k(1,2) e(2) by fastforce
      then have "ikey_less k (fst e)" using ikey.cmp_trans by blast
      then show ?thesis using ikey.cmp_trans ikey.cmp_refl by (metis less_irrefl)
    qed (use k(5) e in blast)
    then show "kv_at r M u = Some v" unfolding kv_at_iff [OF M] using k sub by blast
  qed
  then show "kv_at r N u = kv_at r M u" by (metis option.exhaust)
qed

section \<open>The output files hold the output\<close>

text \<open>The file being written, and the files already written, as chunks of the output.\<close>

definition open_file :: "(u64 \<Rightarrow> os_env) \<Rightarrow> zlib \<Rightarrow> Compacting \<Rightarrow> dir \<Rightarrow> entries \<Rightarrow> bool" where
  "open_file envs z cp d cur \<longleftrightarrow> (\<exists>d0 d1 b0 b. NewBuilder (envs (cp_fileNum cp)) (sstName (cp_fileNum cp)) d0 = (d1, Inr b0) \<and>
     add_all (envs (cp_fileNum cp)) z cur b0 d1 = (b, d, None) \<and> cp_builder cp = Some b \<and> cp_stats cp = fold update_stats (map fst cur) no_stats)"

definition new_files :: "zlib \<Rightarrow> u32 \<Rightarrow> u64 \<Rightarrow> u64 \<Rightarrow> SSTableMeta list \<Rightarrow> dir \<Rightarrow> entries list \<Rightarrow> bool" where
  "new_files z target lo hi metas d chunks \<longleftrightarrow> list_all2 (table_holds z d) metas chunks \<and>
     (\<forall>m\<in>set metas. lo \<le> FileNum m \<and> FileNum m < hi \<and> Level m = target) \<and> distinct (map FileNum metas)"

text \<open>Only files with numbers from \<open>lo\<close> up to \<open>hi\<close> differ, and no directory is new.\<close>

definition changed_files :: "u64 \<Rightarrow> u64 \<Rightarrow> dir \<Rightarrow> dir \<Rightarrow> bool" where
  "changed_files lo hi D d \<longleftrightarrow> (\<forall>q. (\<forall>n. lo \<le> n \<longrightarrow> n < hi \<longrightarrow> q \<noteq> sstName n) \<longrightarrow> map_of d q = map_of D q) \<and>
     (\<forall>q. map_of d q = Some DirE \<longrightarrow> map_of D q = Some DirE)"

definition older_tables_kept :: "u64 \<Rightarrow> dir \<Rightarrow> dir \<Rightarrow> bool" where
  "older_tables_kept lo D d \<longleftrightarrow> (\<forall>n. n < lo \<longrightarrow> file_at d (sstName n) = file_at D (sstName n))"

definition cp_inv :: "(u64 \<Rightarrow> os_env) \<Rightarrow> zlib \<Rightarrow> u32 \<Rightarrow> dir \<Rightarrow> u64 \<Rightarrow> Compacting \<Rightarrow> dir \<Rightarrow> entries list \<Rightarrow> entries \<Rightarrow> bool" where
  "cp_inv envs z target D lo cp d chunks cur \<longleftrightarrow> open_file envs z cp d cur \<and> new_files z target lo (cp_fileNum cp) (cp_newFiles cp) d chunks \<and>
     lo \<le> cp_fileNum cp \<and> cp_nextFileNum cp = cp_fileNum cp + 1 \<and> cp_fileNum cp < cp_nextFileNum cp \<and>
     changed_files lo (cp_nextFileNum cp) D d"

definition fin_inv :: "zlib \<Rightarrow> u32 \<Rightarrow> dir \<Rightarrow> u64 \<Rightarrow> Compacting \<Rightarrow> dir \<Rightarrow> entries list \<Rightarrow> bool" where
  "fin_inv z target D lo cp d chunks \<longleftrightarrow> new_files z target lo (cp_nextFileNum cp) (cp_newFiles cp) d chunks \<and> lo \<le> cp_nextFileNum cp \<and>
     changed_files lo (cp_nextFileNum cp) D d"

lemma add_all_append: "add_all env z (xs @ ys) b d = and_then (add_all env z xs b d) (add_all env z ys)"
  by (induction xs arbitrary: b d) (auto simp: and_then_def split: prod.splits option.splits)

lemma open_file_touches:
  assumes "open_file envs z cp d cur"
  obtains b where "cp_builder cp = Some b" and "b_file b = sstName (cp_fileNum cp)"
proof -
  obtain d0 d1 b0 b where f: "NewBuilder (envs (cp_fileNum cp)) (sstName (cp_fileNum cp)) d0 = (d1, Inr b0)"
    "add_all (envs (cp_fileNum cp)) z cur b0 d1 = (b, d, None)" "cp_builder cp = Some b" using assms by (auto simp: open_file_def)
  have "b_file b = b_file b0" using touches_add_all [OF f(2)] by (simp add: touches_def)
  then show thesis using that f(1,3) NewBuilder_rep [OF f(1)] by auto
qed

lemma touched_file:
  assumes t: "touches b d b' d'" and n: "b_file b = sstName n" and nf: "new_files z target lo n metas d chunks" and c: "changed_files lo hi D d" and lo: "lo \<le> n" "n < hi"
  shows "new_files z target lo n metas d' chunks" and "changed_files lo hi D d'"
proof -
  have "map_of d' (sstName (FileNum m)) = map_of d (sstName (FileNum m))" if "m \<in> set metas" for m
    using t n nf that by (auto simp: touches_def new_files_def sstName_inj)
  then show "new_files z target lo n metas d' chunks" using nf tables_frame [of z d metas chunks d'] by (simp add: new_files_def file_at_def)
  have "map_of d' q = map_of d q" if "\<forall>k. lo \<le> k \<longrightarrow> k < hi \<longrightarrow> q \<noteq> sstName k" for q using t n lo that unfolding touches_def by auto
  then show "changed_files lo hi D d'" using c t unfolding changed_files_def touches_def by simp
qed

lemma add_output_ok:
  assumes inv: "cp_inv envs z target D lo cp d chunks cur" and a: "add_output envs z k v cp d = (cp', d', e)"
  shows "e = None \<Longrightarrow> cp_inv envs z target D lo cp' d' chunks (cur @ [(k, v)]) \<and> cp_fileNum cp' = cp_fileNum cp"
    and "envs = (\<lambda>_. no_faults) \<Longrightarrow> e = None"
proof -
  let ?n = "cp_fileNum cp"
  obtain d0 d1 b0 b where f: "NewBuilder (envs ?n) (sstName ?n) d0 = (d1, Inr b0)" "add_all (envs ?n) z cur b0 d1 = (b, d, None)"
    "cp_builder cp = Some b" "cp_stats cp = fold update_stats (map fst cur) no_stats" using inv by (auto simp: cp_inv_def open_file_def)
  have name: "b_file b = sstName ?n" using open_file_touches inv f(3) by (metis cp_inv_def option.inject)
  obtain b' d2 e2 where ba: "Builder_Add (envs ?n) z k v b d = (b', d2, e2)" by (cases "Builder_Add (envs ?n) z k v b d")
  have s: "add_all (envs ?n) z (cur @ [(k, v)]) b0 d1 = (b', d2, e2)" using f(2) ba by (cases e2) (simp_all add: add_all_append)
  have res: "e = e2" "d' = d2" "e2 = None \<Longrightarrow> cp' = cp\<lparr>cp_builder := Some b', cp_stats := update_stats k (cp_stats cp)\<rparr>"
    using a f(3) ba by (cases e2; auto simp: add_output_def)+
  show "cp_inv envs z target D lo cp' d' chunks (cur @ [(k, v)]) \<and> cp_fileNum cp' = ?n" if "e = None"
    using inv res that f s touched_file [OF touches_Add [OF ba] name, of z target lo "cp_newFiles cp" chunks "cp_nextFileNum cp" D]
    by (auto simp: cp_inv_def open_file_def)
  show "e = None" if "envs = (\<lambda>_. no_faults)"
  proof -
    have "tb_rep z b0 d1 [] []" using NewBuilder_rep [OF f(1)] by auto
    then show ?thesis using add_all_succeeds [of no_faults z b0 d1 "[]" "[]" "cur @ [(k, v)]"] s res(1) that by (auto simp: no_faults_def)
  qed
qed

lemma finishFile_ok:
  assumes inv: "cp_inv envs z target D lo cp d chunks cur" and f: "finishFile envs z target cp d = (cp', d', e)"
    and cur: "sorted_entries cur" "wf_entries cur" "cost cur < 2 ^ 31" and z: "zlib_inverse z"
  shows "e = None \<Longrightarrow> fin_inv z target D lo cp' d' (chunks @ [cur]) \<and> cp_nextFileNum cp' = cp_nextFileNum cp"
    and "envs = (\<lambda>_. no_faults) \<Longrightarrow> e = None"
proof -
  let ?n = "cp_fileNum cp"
  obtain d0 d1 b0 b where o: "NewBuilder (envs ?n) (sstName ?n) d0 = (d1, Inr b0)" "add_all (envs ?n) z cur b0 d1 = (b, d, None)"
    "cp_builder cp = Some b" "cp_stats cp = fold update_stats (map fst cur) no_stats" using inv by (auto simp: cp_inv_def open_file_def)
  have name: "b_file b = sstName ?n" using open_file_touches inv o(3) by (metis cp_inv_def option.inject)
  obtain b' d2 e2 where c: "Builder_Close (envs ?n) z b d = (b', d2, e2)" by (cases "Builder_Close (envs ?n) z b d")
  have bt: "build_table (envs ?n) z (sstName ?n) cur d0 = (d2, e2)" using o(1,2) c by (simp add: build_table_def)
  have res: "e = e2" "d' = d2" using f o(3) c by (cases e2; auto simp: finishFile_def Let_def)+
  show "e = None" if "envs = (\<lambda>_. no_faults)"
  proof -
    have "map_of d0 (sstName ?n) \<noteq> Some DirE" using o(1) by (auto simp: NewBuilder_def split: if_splits)
    moreover have "length cur \<le> 2 ^ 28" using length_concat_cost [of cur] cur(3) by simp
    ultimately show ?thesis using build_table_succeeds [of cur d0 "sstName ?n" z] bt res(1) that by auto
  qed
  show "fin_inv z target D lo cp' d' (chunks @ [cur]) \<and> cp_nextFileNum cp' = cp_nextFileNum cp" if e: "e = None"
  proof -
    let ?st = "cp_stats cp"
    obtain meta where cp': "cp' = cp\<lparr>cp_builder := None, cp_newFiles := cp_newFiles cp @ [meta]\<rparr>" and meta: "FileNum meta = ?n" "Level meta = target"
      "LargestSeq meta = st_largestSeq ?st" "SmallestKey meta = st_smallest ?st" "LargestKey meta = st_largest ?st"
      using f o(3) c res(1) e by (auto simp: finishFile_def Let_def)
    have "table_holds z d2 meta cur" using bt res(1) e meta o(4) by (intro built_table_holds [OF cur(1,2) _ z cur(3)]) auto
    moreover have i: "new_files z target lo ?n (cp_newFiles cp) d chunks" "changed_files lo (cp_nextFileNum cp) D d" "lo \<le> ?n" "?n < cp_nextFileNum cp"
      using inv by (auto simp: cp_inv_def)
    note t = touched_file [OF touches_Close [OF c] name i]
    ultimately show ?thesis using i(3,4) t cp' meta(1,2) res(2)
      by (fastforce simp: fin_inv_def new_files_def list_all2_appendI dest: order_less_trans)
  qed
qed

lemma startFile_ok:
  assumes inv: "fin_inv z target D lo cp d chunks" and s: "startFile envs cp d = (cp', d', e)" and n: "cp_nextFileNum cp < cp_nextFileNum cp + 1"
  shows "e = None \<Longrightarrow> cp_inv envs z target D lo cp' d' chunks [] \<and> cp_fileNum cp' = cp_nextFileNum cp"
    and "envs = (\<lambda>_. no_faults) \<Longrightarrow> \<forall>n. map_of D (sstName n) \<noteq> Some DirE \<Longrightarrow> e = None"
proof -
  let ?n = "cp_nextFileNum cp"
  have i: "new_files z target lo ?n (cp_newFiles cp) d chunks" "lo \<le> ?n" "changed_files lo ?n D d" using inv by (auto simp: fin_inv_def)
  obtain d1 r where nb: "NewBuilder (envs ?n) (sstName ?n) d = (d1, r)" by (cases "NewBuilder (envs ?n) (sstName ?n) d")
  show "e = None" if "envs = (\<lambda>_. no_faults)" "\<forall>n. map_of D (sstName n) \<noteq> Some DirE"
    using s that i(3) by (auto simp: startFile_def NewBuilder_def changed_files_def Let_def split: if_splits)
  show "cp_inv envs z target D lo cp' d' chunks [] \<and> cp_fileNum cp' = ?n" if e: "e = None"
  proof -
    obtain b where r: "r = Inr b" using s nb e by (cases r) (auto simp: startFile_def Let_def)
    have cp': "cp' = cp\<lparr>cp_nextFileNum := ?n + 1, cp_builder := Some b, cp_fileNum := ?n, cp_stats := no_stats\<rparr>" "d' = d1"
      using s nb r by (auto simp: startFile_def Let_def)
    have d1: "d1 = file_truncate (sstName ?n) d" using NewBuilder_rep nb r by auto
    have "\<forall>t\<in>set (cp_newFiles cp). file_at d1 (sstName (FileNum t)) = file_at d (sstName (FileNum t))"
      using i(1) by (auto simp: new_files_def d1 file_at_def map_of_truncate sstName_inj)
    then have "new_files z target lo ?n (cp_newFiles cp) d1 chunks" using i(1) tables_frame [of z d "cp_newFiles cp" chunks d1] by (simp add: new_files_def)
    moreover have "changed_files lo (?n + 1) D d1"
    proof -
      have "map_of d1 q = map_of D q" if q: "\<forall>k. lo \<le> k \<longrightarrow> k < ?n + 1 \<longrightarrow> q \<noteq> sstName k" for q
      proof -
        have "q \<noteq> sstName ?n" using q i(2) n by blast
        moreover have "\<forall>k. lo \<le> k \<longrightarrow> k < ?n \<longrightarrow> q \<noteq> sstName k" using q n by (auto dest: order_less_trans)
        ultimately show ?thesis using i(3) by (simp add: changed_files_def d1 map_of_truncate)
      qed
      then show ?thesis using i(3) by (auto simp: changed_files_def d1 map_of_truncate split: if_splits)
    qed
    ultimately show ?thesis using cp' i(2) n nb r by (auto simp: cp_inv_def open_file_def)
  qed
qed

lemma sorted_piece: "sorted_entries (xs @ ys @ zs) \<Longrightarrow> sorted_entries ys"
  by (simp add: sorted_wrt_append)

text \<open>What the output state says about the output as a whole.\<close>

definition output_ok :: "entries \<Rightarrow> bool" where
  "output_ok T \<longleftrightarrow> sorted_entries T \<and> wf_entries T \<and> cost T < 2 ^ 31"

lemma output_piece: "output_ok (xs @ ys @ zs) \<Longrightarrow> sorted_entries ys \<and> wf_entries ys \<and> cost ys < 2 ^ 31"
  using sorted_piece by (auto simp: output_ok_def)

lemma split_file_ok:
  assumes inv: "cp_inv envs z target D lo cp d chunks cur" and s: "split_file envs z target cp d = (cp', d', e)"
    and T: "output_ok (concat chunks @ cur @ rest)" and z: "zlib_inverse z" and n: "unat (cp_fileNum cp) + 2 < 2 ^ 64"
  shows "e = None \<Longrightarrow> \<exists>chunks' cur'. cp_inv envs z target D lo cp' d' chunks' cur' \<and> concat chunks' @ cur' = concat chunks @ cur \<and>
      unat (cp_fileNum cp') \<le> unat (cp_fileNum cp) + 1"
    and "envs = (\<lambda>_. no_faults) \<Longrightarrow> \<forall>n. map_of D (sstName n) \<noteq> Some DirE \<Longrightarrow> e = None"
proof -
  obtain b where b: "cp_builder cp = Some b" using inv open_file_touches unfolding cp_inv_def by blast
  obtain cp1 d1 e1 where f: "finishFile envs z target cp d = (cp1, d1, e1)" by (cases "finishFile envs z target cp d")
  obtain cp2 d2 e2 where st: "startFile envs cp1 d1 = (cp2, d2, e2)" by (cases "startFile envs cp1 d1")
  have cur: "sorted_entries cur" "wf_entries cur" "cost cur < 2 ^ 31" using output_piece [OF T] by auto
  note fin = finishFile_ok [OF inv f cur z]
  have num: "cp_nextFileNum cp = cp_fileNum cp + 1" using inv by (simp add: cp_inv_def)
  have next_ok: "cp_nextFileNum cp < cp_nextFileNum cp + 1" using n num by (simp add: word_less_nat_alt unat_word_ariths)
  have s': "(cp', d', e) = (if Builder_Size b \<ge> splitSize then (case e1 of Some x \<Rightarrow> (cp1, d1, Some x) | None \<Rightarrow> (cp2, d2, e2)) else (cp, d, None))"
    using s b f st by (cases e1) (auto simp: split_file_def)
  show "\<exists>chunks' cur'. cp_inv envs z target D lo cp' d' chunks' cur' \<and> concat chunks' @ cur' = concat chunks @ cur \<and>
      unat (cp_fileNum cp') \<le> unat (cp_fileNum cp) + 1" if e: "e = None"
  proof (cases "Builder_Size b \<ge> splitSize")
    case True
    then have "e1 = None" "cp' = cp2" "d' = d2" "e2 = None" using s' e by (auto split: option.splits)
    moreover have "cp_inv envs z target D lo cp2 d2 (chunks @ [cur]) [] \<and> cp_fileNum cp2 = cp_fileNum cp + 1"
      using startFile_ok(1) [OF _ st, of z target D lo "chunks @ [cur]"] fin(1) calculation num next_ok by auto
    ultimately show ?thesis by (intro exI [of _ "chunks @ [cur]"] exI [of _ "[]"]) (simp add: unat_word_ariths)
  qed (use s' inv in auto)
  show "e = None" if "envs = (\<lambda>_. no_faults)" "\<forall>n. map_of D (sstName n) \<noteq> Some DirE"
    using s' fin that startFile_ok(2) [OF _ st, of z target D lo "chunks @ [cur]"] next_ok by (auto split: if_splits option.splits)
qed

context internal_iterator
begin

lemma skip_shadowed_ok:
  assumes "R it es (e # rest)"
  shows "\<exists>it'. skip_shadowed ops u it = Some it' \<and> R it' es (dropWhile (\<lambda>x. ExtractUserKey (fst x) = u) rest)"
  using assms
proof (induction rest arbitrary: it e)
  case Nil
  obtain it' where "op_Next ops it = Some it'" "R it' es []" using next_ok [OF Nil] by blast
  then show ?case using valid [of it' es "[]"] by (subst skip_shadowed.simps) simp
next
  case (Cons f rest)
  obtain it' where it': "op_Next ops it = Some it'" "R it' es (f # rest)" using next_ok [OF Cons.prems] by blast
  note v = valid [OF it'(2)] key [OF it'(2)]
  show ?case
  proof (cases "ExtractUserKey (fst f) = u")
    case True
    then show ?thesis using Cons.IH [OF it'(2)] it'(1) v by (subst skip_shadowed.simps) simp
  next
    case False
    then show ?thesis using it' v by (subst skip_shadowed.simps) simp
  qed
qed

lemma compact_loop_ok:
  assumes "R it es rest" and "cp_inv envs z target D lo cp d chunks cur" and "(concat chunks @ cur) @ gc oldest bottom rest = T"
    and "output_ok T" and "zlib_inverse z" and "unat (cp_fileNum cp) + length rest + 2 < 2 ^ 64"
  shows "\<exists>cp' d' e. compact_loop ops envs z target oldest bottom it cp d = Some (cp', d', e) \<and>
    (e = None \<longrightarrow> (\<exists>chunks' cur'. cp_inv envs z target D lo cp' d' chunks' cur' \<and> concat chunks' @ cur' = T)) \<and>
    (envs = (\<lambda>_. no_faults) \<longrightarrow> (\<forall>n. map_of D (sstName n) \<noteq> Some DirE) \<longrightarrow> e = None)"
  using assms
proof (induction "length rest" arbitrary: it rest cp d chunks cur rule: less_induct)
  case less
  show ?case
  proof (cases rest)
    case Nil
    then show ?thesis using less.prems(2,3) valid [OF less.prems(1)] by (subst compact_loop.simps) auto
  next
    case (Cons e0 rest')
    note it = less.prems(1) [unfolded Cons]
    note v = valid [OF it] key [OF it] val [OF it]
    obtain cp1 d1 e1 where sp: "split_file envs z target cp d = (cp1, d1, e1)" by (cases "split_file envs z target cp d")
    have T: "output_ok (concat chunks @ cur @ gc oldest bottom rest)" using less.prems(3,4) by simp
    have n: "unat (cp_fileNum cp) + 2 < 2 ^ 64" using less.prems(6) by linarith
    note s = split_file_ok [OF less.prems(2) sp T less.prems(5) n]
    show ?thesis
    proof (cases e1)
      case (Some x)
      then have "compact_loop ops envs z target oldest bottom it cp d = Some (cp1, d1, Some x)" using sp v by (subst compact_loop.simps) simp
      then show ?thesis using s(2) Some by auto
    next
      case None
      then obtain ch1 cur1 where c1: "cp_inv envs z target D lo cp1 d1 ch1 cur1" "concat ch1 @ cur1 = concat chunks @ cur"
        "unat (cp_fileNum cp1) \<le> unat (cp_fileNum cp) + 1" using s(1) by blast
      show ?thesis
      proof (cases "droppable oldest bottom (fst e0)")
        case True
        let ?rest = "dropWhile (\<lambda>x. ExtractUserKey (fst x) = ExtractUserKey (fst e0)) rest'"
        obtain it' where it': "skip_shadowed ops (ExtractUserKey (fst e0)) it = Some it'" "R it' es ?rest" using skip_shadowed_ok [OF it] by blast
        have l: "length ?rest \<le> length rest'" by (rule length_dropWhile_le)
        have "compact_loop ops envs z target oldest bottom it cp d = compact_loop ops envs z target oldest bottom it' cp1 d1"
          using sp None v True it'(1) by (subst compact_loop.simps) simp
        then show ?thesis using less.hyps [OF _ it'(2) c1(1) _ less.prems(4,5)] l Cons True c1(2,3) less.prems(3,6) by simp
      next
        case False
        obtain it' where it': "op_Next ops it = Some it'" "R it' es rest'" using next_ok [OF it] by blast
        obtain cp2 d2 e2 where ao: "add_output envs z (fst e0) (snd e0) cp1 d1 = (cp2, d2, e2)" by (cases "add_output envs z (fst e0) (snd e0) cp1 d1")
        note a = add_output_ok [OF c1(1) ao]
        show ?thesis
        proof (cases e2)
          case (Some x)
          then have "compact_loop ops envs z target oldest bottom it cp d = Some (cp2, d2, Some x)" using sp None v False ao by (subst compact_loop.simps) simp
          then show ?thesis using a(2) Some by auto
        next
          case n2: None
          have "compact_loop ops envs z target oldest bottom it cp d = compact_loop ops envs z target oldest bottom it' cp2 d2"
            using sp None n2 v False ao it'(1) by (subst compact_loop.simps) simp
          moreover have "(concat ch1 @ cur1) @ e0 # gc oldest bottom rest' = T" unfolding c1(2) using less.prems(3) Cons False by simp
          then have "(concat ch1 @ cur1 @ [(fst e0, snd e0)]) @ gc oldest bottom rest' = T" by simp
          ultimately show ?thesis
            using less.hyps [OF _ it'(2) conjunct1 [OF a(1) [OF n2]] _ less.prems(4,5)] conjunct2 [OF a(1) [OF n2]] Cons c1(3) less.prems(6) by simp
        qed
      qed
    qed
  qed
qed

end

section \<open>The merge as a whole\<close>

interpretation table_merge: internal_iterator "mg_ops (ti_ops env z)" "mg_rep (tab_rep env z)"
  by (rule tab_iter.mg_iterator)

lemma sorted_gc: "sorted_entries es \<Longrightarrow> sorted_entries (gc oldest bottom es)"
proof (induction oldest bottom es rule: gc_drops_induct)
  case (2 oldest bottom e es)
  then show ?case using gc_subset [of oldest bottom es] by (auto simp: sorted_wrt_map sorted_wrt_dropWhile)
qed simp

lemma merge_entries_set:
  assumes "\<forall>es\<in>set tss. wf_entries es"
  shows "set (merge_entries tss) \<subseteq> set (concat tss)"
proof
  note m = merge_entries_facts [OF assms]
  fix e assume "e \<in> set (merge_entries tss)"
  then have "map_of (merge_entries tss) (fst e) = Some (snd e)" using sorted_entries_distinct [OF m(1)] by simp
  then show "e \<in> set (concat tss)" using m(3) map_of_SomeD [of "concat tss" "fst e" "snd e"] by simp
qed

lemma output_gc:
  assumes "\<forall>es\<in>set tss. wf_entries es" and "cost (concat tss) < 2 ^ 31"
  shows "output_ok (gc oldest bottom (merge_entries tss))"
proof -
  let ?T = "gc oldest bottom (merge_entries tss)"
  note m = merge_entries_facts [OF assms(1)]
  have s: "sorted_entries ?T" using m(1) by (rule sorted_gc)
  have "distinct ?T" using sorted_entries_distinct [OF s] by (simp add: distinct_map)
  moreover have "set ?T \<subseteq> set (concat tss)" using gc_subset merge_entries_set [OF assms(1)] by blast
  ultimately have "cost ?T \<le> cost (concat tss)" by (rule cost_subset)
  moreover have "wf_entries ?T" using m(2) gc_subset [of oldest bottom "merge_entries tss"] by blast
  ultimately show ?thesis using s assms(2) by (simp add: output_ok_def)
qed

lemma compact_merge_ok:
  assumes env: "reads_ok env" and t: "list_all2 (table_holds z d) inputs tss" and c: "cost (concat tss) < 2 ^ 31" and z: "zlib_inverse z"
    and n: "unat (db_nextFileNum db) + length (concat tss) + 3 < 2 ^ 64" and r: "compact_merge env envs z lv oldest inputs db d = (db', d', r)"
  shows "r = Inr metas \<Longrightarrow> \<exists>chunks hi. db' = db\<lparr>db_nextFileNum := hi\<rparr> \<and> new_files z (of_nat (lv + 1)) (db_nextFileNum db) hi metas d' chunks \<and>
      concat chunks = gc oldest (isBottom (lv + 1) (db_version db)) (merge_entries tss) \<and> changed_files (db_nextFileNum db) hi d d' \<and> db_nextFileNum db \<le> hi"
    and "envs = (\<lambda>_. no_faults) \<Longrightarrow> \<forall>n. map_of d (sstName n) \<noteq> Some DirE \<Longrightarrow> \<exists>metas. r = Inr metas"
proof -
  let ?lo = "db_nextFileNum db" and ?I = "merge_entries tss" and ?tg = "of_nat (lv + 1) :: u32" and ?bt = "isBottom (lv + 1) (db_version db)"
  let ?T = "gc oldest ?bt ?I" and ?ops = "mg_ops (ti_ops env z)"
  obtain its where its: "open_tables env z d inputs = Inr its" "list_all2 (\<lambda>it es. tab_rep env z it es [] \<and> sorted_entries es \<and> wf_entries es) its tss"
    using open_tables_ok [OF env t] by blast
  have wf: "\<forall>es\<in>set tss. wf_entries es" using its(2) by (rule list_all2_wf)
  have "mg_rep (tab_rep env z) (NewMergeIterator its False) ?I []" using tab_iter.mg_New [OF its(2), of False] by (simp add: shown_def)
  from table_merge.seek [OF this] obtain it where it: "mg_SeekToFirst (ti_ops env z) (NewMergeIterator its False) = Some it" "mg_rep (tab_rep env z) it ?I ?I"
    by (auto simp: mg_ops_def)
  define cp0 where "cp0 = \<lparr>cp_builder = None, cp_fileNum = 0, cp_stats = no_stats, cp_newFiles = [], cp_nextFileNum = ?lo\<rparr>"
  have fin0: "fin_inv z ?tg d ?lo cp0 d []" by (simp add: fin_inv_def cp0_def new_files_def changed_files_def)
  have n0: "cp_nextFileNum cp0 < cp_nextFileNum cp0 + 1" using n by (simp add: cp0_def word_less_nat_alt unat_word_ariths)
  obtain cp1 d1 e1 where st: "startFile envs cp0 d = (cp1, d1, e1)" by (cases "startFile envs cp0 d")
  note s = startFile_ok [OF fin0 st n0]
  have out: "output_ok ?T" using output_gc [OF wf c] .
  have "distinct ?I" using sorted_entries_distinct [OF merge_entries_facts(1) [OF wf]] by (simp add: distinct_map)
  then have "length ?I \<le> length (concat tss)" using merge_entries_set [OF wf] by (metis List.finite_set card_length card_mono distinct_card le_trans)
  then have len: "e1 = None \<Longrightarrow> unat (cp_fileNum cp1) + length ?I + 2 < 2 ^ 64" using s(1) n by (auto simp: cp0_def)
  have loop: "e1 = None \<Longrightarrow> \<exists>cp2 d2 e2. compact_loop ?ops envs z ?tg oldest ?bt it cp1 d1 = Some (cp2, d2, e2) \<and>
      (e2 = None \<longrightarrow> (\<exists>ch cur. cp_inv envs z ?tg d ?lo cp2 d2 ch cur \<and> concat ch @ cur = ?T)) \<and>
      (envs = (\<lambda>_. no_faults) \<longrightarrow> (\<forall>n. map_of d (sstName n) \<noteq> Some DirE) \<longrightarrow> e2 = None)"
    using table_merge.compact_loop_ok [OF it(2) _ _ out z, of envs ?tg d ?lo cp1 d1 "[]" "[]"] s(1) len by auto
  have run: "e1 = None \<Longrightarrow> compact_loop ?ops envs z ?tg oldest ?bt it cp1 d1 = Some r2 \<Longrightarrow> (db', d', r) =
      (case and_then r2 (finishFile envs z ?tg) of
         (cp, d, Some e) \<Rightarrow> (db\<lparr>db_nextFileNum := cp_nextFileNum cp\<rparr>, d, Inl e) | (cp, d, None) \<Rightarrow> (db\<lparr>db_nextFileNum := cp_nextFileNum cp\<rparr>, d, Inr (cp_newFiles cp)))" for r2
    using r its(1) it(1) st by (simp add: compact_merge_def Let_def cp0_def)
  have pieces: "sorted_entries cur \<and> wf_entries cur \<and> cost cur < 2 ^ 31" if "concat ch @ cur = ?T" for ch cur
    using output_piece [of "concat ch" cur "[]"] that out by simp
  show "\<exists>chunks hi. db' = db\<lparr>db_nextFileNum := hi\<rparr> \<and> new_files z ?tg ?lo hi metas d' chunks \<and> concat chunks = ?T \<and> changed_files ?lo hi d d' \<and> ?lo \<le> hi"
    if m: "r = Inr metas"
  proof -
    have e1: "e1 = None" using r its(1) it(1) st m by (cases e1) (auto simp: compact_merge_def Let_def cp0_def)
    obtain cp2 d2 e2 where l: "compact_loop ?ops envs z ?tg oldest ?bt it cp1 d1 = Some (cp2, d2, e2)"
      "e2 = None \<longrightarrow> (\<exists>ch cur. cp_inv envs z ?tg d ?lo cp2 d2 ch cur \<and> concat ch @ cur = ?T)" using loop [OF e1] by blast
    obtain cp3 d3 e3 where f: "and_then (cp2, d2, e2) (finishFile envs z ?tg) = (cp3, d3, e3)" by (cases "and_then (cp2, d2, e2) (finishFile envs z ?tg)")
    have e3: "e3 = None" "db' = db\<lparr>db_nextFileNum := cp_nextFileNum cp3\<rparr>" "d' = d3" "metas = cp_newFiles cp3"
      using run [OF e1 l(1)] f m by (cases e3; simp)+
    then have "e2 = None" and fin: "finishFile envs z ?tg cp2 d2 = (cp3, d3, None)" using f by (auto simp: and_then_None)
    then obtain ch cur where i: "cp_inv envs z ?tg d ?lo cp2 d2 ch cur" "concat ch @ cur = ?T" using l(2) by blast
    have "fin_inv z ?tg d ?lo cp3 d3 (ch @ [cur])" using finishFile_ok(1) [OF i(1) fin _ _ _ z] pieces [OF i(2)] by blast
    then show ?thesis using i(2) e3 by (intro exI [of _ "ch @ [cur]"] exI [of _ "cp_nextFileNum cp3"]) (simp add: fin_inv_def)
  qed
  show "\<exists>metas. r = Inr metas" if e: "envs = (\<lambda>_. no_faults)" "\<forall>n. map_of d (sstName n) \<noteq> Some DirE"
  proof -
    have e1: "e1 = None" using s(2) e by blast
    obtain cp2 d2 where l: "compact_loop ?ops envs z ?tg oldest ?bt it cp1 d1 = Some (cp2, d2, None)"
      "\<exists>ch cur. cp_inv envs z ?tg d ?lo cp2 d2 ch cur \<and> concat ch @ cur = ?T" using loop [OF e1] e by blast
    then obtain ch cur where i: "cp_inv envs z ?tg d ?lo cp2 d2 ch cur" "concat ch @ cur = ?T" by blast
    obtain cp3 d3 e3 where f: "finishFile envs z ?tg cp2 d2 = (cp3, d3, e3)" by (cases "finishFile envs z ?tg cp2 d2")
    have "e3 = None" using finishFile_ok(2) [OF i(1) f _ _ _ z e(1)] pieces [OF i(2)] by blast
    then show ?thesis using run [OF e1 l(1)] f by simp
  qed
qed

section \<open>The commit swaps the tables\<close>

lemma mset_remove_level:
  assumes "distinct (map FileNum (concat ls))" and "t \<in> set (concat ls)"
  shows "add_mset t (mset (concat (remove_level (FileNum t) ls))) = mset (concat ls)"
  using assms
proof (induction ls)
  case (Cons files ls)
  show ?case
  proof (cases "remove_file (FileNum t) files")
    case None
    then show ?thesis using Cons remove_file_None [of "FileNum t" files] by auto
  next
    case (Some files')
    from remove_file_Some [OF Some] obtain xs t' ys where f: "files = xs @ t' # ys" "files' = xs @ ys" "FileNum t' = FileNum t" by auto
    then have "t' = t" using Cons.prems by (metis concat.simps(2) distinct_map in_set_conv_decomp inj_onD set_append Un_iff)
    then show ?thesis using Some f by simp
  qed
qed simp

lemma mset_RemoveTable:
  assumes "distinct (map FileNum (GetAllTables v))" and "t \<in> set (GetAllTables v)"
  shows "add_mset t (mset (GetAllTables (RemoveTable (FileNum t) v))) = mset (GetAllTables v)"
  using mset_remove_level [of "Levels v" t] assms by (simp add: GetAllTables_def RemoveTable_def)

lemma distinct_msub:
  assumes "mset xs \<subseteq># mset ys" and "distinct (map f ys)"
  shows "distinct (map f xs)"
proof -
  obtain zs where "mset ys = mset (xs @ zs)" using assms(1) by (metis ex_mset mset_append mset_subset_eq_exists_conv)
  then have "mset (map f ys) = mset (map f (xs @ zs))" by (metis mset_map)
  then have "distinct (map f (xs @ zs))" using assms(2) mset_eq_imp_distinct_iff by blast
  then show ?thesis by simp
qed

lemma log_removes_ok:
  assumes "log_removes envs metas db fs = (db', fs', None)" and "distinct (map FileNum (GetAllTables (db_version db)))"
    and "mset metas \<subseteq># mset (GetAllTables (db_version db))" and "length (Levels (db_version db)) = NumLevels"
  shows "\<exists>v d. db' = db\<lparr>db_version := v\<rparr> \<and> fs' = fs\<lparr>dbdir := d\<rparr> \<and> mset (GetAllTables v) + mset metas = mset (GetAllTables (db_version db)) \<and>
    length (Levels v) = NumLevels \<and> (\<forall>q. q \<noteq> manifestName \<longrightarrow> map_of d q = map_of (dbdir fs) q)"
  using assms
proof (induction metas arbitrary: db fs)
  case Nil
  then show ?case by (intro exI [of _ "db_version db"] exI [of _ "dbdir fs"]) auto
next
  case (Cons meta metas)
  obtain d1 where d1: "Manifest_Append (envs (length metas)) (remove_edit (FileNum meta)) manifestName (dbdir fs) = (d1, None)"
    and rest: "log_removes envs metas (db\<lparr>db_version := RemoveTable (FileNum meta) (db_version db)\<rparr>) (fs\<lparr>dbdir := d1\<rparr>) = (db', fs', None)"
    using Cons.prems(1) by (auto split: prod.splits option.splits)
  let ?v = "RemoveTable (FileNum meta) (db_version db)"
  have "meta \<in> set (GetAllTables (db_version db))" using Cons.prems(3) by (metis list.set_intros(1) mset_subset_eqD set_mset_mset)
  note m = mset_RemoveTable [OF Cons.prems(2) this]
  have sub: "mset (GetAllTables ?v) \<subseteq># mset (GetAllTables (db_version db))" unfolding m [symmetric] by simp
  have "mset metas \<subseteq># mset (GetAllTables ?v)" using Cons.prems(3) m by (metis mset.simps(2) mset_subset_eq_add_mset_cancel)
  then obtain v d where "db' = db\<lparr>db_version := v\<rparr>" "fs' = fs\<lparr>dbdir := d\<rparr>" "mset (GetAllTables v) + mset metas = mset (GetAllTables ?v)"
    "length (Levels v) = NumLevels" "\<forall>q. q \<noteq> manifestName \<longrightarrow> map_of d q = map_of d1 q"
    using Cons.IH [OF rest] distinct_msub [OF sub Cons.prems(2)] Cons.prems(4) by (auto simp: RemoveTable_def)
  moreover have "\<forall>q. q \<noteq> manifestName \<longrightarrow> map_of d1 q = map_of (dbdir fs) q" using Manifest_Append_other d1 by (metis fst_conv)
  ultimately show ?case using m by (intro exI [of _ v] exI [of _ d]) auto
qed

lemma log_adds_ok:
  assumes "log_adds envs metas db fs = (db', fs', None)" and "length (Levels (db_version db)) = NumLevels"
  shows "\<exists>v d. db' = db\<lparr>db_version := v\<rparr> \<and> fs' = fs\<lparr>dbdir := d\<rparr> \<and> mset (GetAllTables v) = mset (GetAllTables (db_version db)) + mset metas \<and>
    length (Levels v) = NumLevels \<and> (\<forall>q. q \<noteq> manifestName \<longrightarrow> map_of d q = map_of (dbdir fs) q)"
  using assms
proof (induction metas arbitrary: db fs)
  case Nil
  then show ?case by (intro exI [of _ "db_version db"] exI [of _ "dbdir fs"]) auto
next
  case (Cons meta metas)
  obtain d1 v1 where d1: "Manifest_Append (envs (length metas)) (add_edit meta) manifestName (dbdir fs) = (d1, None)" "AddTable meta (db_version db) = (v1, None)"
    and rest: "log_adds envs metas (db\<lparr>db_version := v1\<rparr>) (fs\<lparr>dbdir := d1\<rparr>) = (db', fs', None)"
    using Cons.prems(1) by (auto split: prod.splits option.splits)
  note m = mset_AddTable [OF Cons.prems(2) d1(2)]
  obtain v d where "db' = db\<lparr>db_version := v\<rparr>" "fs' = fs\<lparr>dbdir := d\<rparr>" "mset (GetAllTables v) = mset (GetAllTables v1) + mset metas"
    "length (Levels v) = NumLevels" "\<forall>q. q \<noteq> manifestName \<longrightarrow> map_of d q = map_of d1 q"
    using Cons.IH [OF rest] m(2) by auto
  moreover have "\<forall>q. q \<noteq> manifestName \<longrightarrow> map_of d1 q = map_of (dbdir fs) q" using Manifest_Append_other d1 by (metis fst_conv)
  ultimately show ?case using m(1) by (intro exI [of _ v] exI [of _ d]) auto
qed

lemma two_levels:
  assumes "Suc a < length ls"
  shows "mset (ls ! a) + mset (ls ! Suc a) \<subseteq># mset (concat ls)"
proof -
  have "ls = take a ls @ ls ! a # ls ! Suc a # drop (Suc (Suc a)) ls" using assms by (simp add: Cons_nth_drop_Suc id_take_nth_drop)
  from arg_cong [OF this, of "\<lambda>l. mset (concat l)"]
  have "mset (concat ls) = mset (ls ! a) + mset (ls ! Suc a) + (mset (concat (take a ls)) + mset (concat (drop (Suc (Suc a)) ls)))"
    by (simp only: concat_append concat.simps mset_append ac_simps)
  then show ?thesis by (simp only: mset_subset_eq_add_left)
qed

lemma inputs_sub:
  assumes "length (Levels v) = NumLevels" and "lv + 1 < NumLevels"
  shows "mset (compaction_inputs lv v) \<subseteq># mset (GetAllTables v)"
proof -
  have two: "mset (Levels v ! lv) + mset (Levels v ! Suc lv) \<subseteq># mset (GetAllTables v)" using two_levels [of lv "Levels v"] assms by (simp add: GetAllTables_def)
  have ov: "mset (GetOverlappingInputs (Suc lv) x y v) \<subseteq># mset (Levels v ! Suc lv)" for x y by (simp add: GetOverlappingInputs_def mset_filter)
  consider "compaction_inputs lv v = []" | x y where "compaction_inputs lv v = Levels v ! lv @ GetOverlappingInputs (Suc lv) x y v"
    | t ts x y where "Levels v ! lv = t # ts" "compaction_inputs lv v = t # GetOverlappingInputs (Suc lv) x y v"
    by (cases "lv = 0"; cases "Levels v ! lv"; cases "key_range (Levels v ! lv)") (auto simp: compaction_inputs_def)
  then have "mset (compaction_inputs lv v) \<subseteq># mset (Levels v ! lv) + mset (Levels v ! Suc lv)"
  proof cases
    case (2 x y)
    then show ?thesis using ov by simp
  next
    case (3 t ts x y)
    have "mset (GetOverlappingInputs (Suc lv) x y v) \<subseteq># mset ts + mset (Levels v ! Suc lv)" using ov by (rule subset_mset.add_increasing [OF empty_le])
    then show ?thesis using 3 by simp
  qed simp
  then show ?thesis using two by (rule subset_mset.order_trans)
qed


section \<open>Readers do not notice\<close>

text \<open>The versions in the tables to be merged, and those held anywhere else.\<close>

definition merged :: "zlib \<Rightarrow> nat \<Rightarrow> DB \<Rightarrow> Files \<Rightarrow> bytes \<times> bytes \<Rightarrow> bool" where
  "merged z lv db fs e \<longleftrightarrow> (\<exists>t\<in>set (compaction_inputs lv (db_version db)). \<exists>es. table_holds z (dbdir fs) t es \<and> e \<in> set es)"

definition elsewhere :: "zlib \<Rightarrow> nat \<Rightarrow> DB \<Rightarrow> Files \<Rightarrow> bytes \<times> bytes \<Rightarrow> bool" where
  "elsewhere z lv db fs e \<longleftrightarrow> (\<exists>m\<in>set (db_memtable db # db_immutables db). \<exists>es. mem_holds m es \<and> e \<in> set es) \<or>
     (\<exists>t\<in>set (GetAllTables (db_version db)) - set (compaction_inputs lv (db_version db)). \<exists>es. table_holds z (dbdir fs) t es \<and> e \<in> set es)"

text \<open>A tombstone may be dropped when no older version of its key is left outside of the merge.\<close>

definition safe_drops :: "zlib \<Rightarrow> u64 \<Rightarrow> nat \<Rightarrow> DB \<Rightarrow> Files \<Rightarrow> bool" where
  "safe_drops z oldest lv db fs \<longleftrightarrow> (\<forall>t e. merged z lv db fs t \<longrightarrow> droppable oldest (isBottom (lv + 1) (db_version db)) (fst t) \<longrightarrow>
     elsewhere z lv db fs e \<longrightarrow> ExtractUserKey (fst e) = ExtractUserKey (fst t) \<longrightarrow> trailer_seq (fst t) < trailer_seq (fst e))"

text \<open>The merge fits: its output could be one table, and the file numbers do not run out.\<close>

definition merge_fits :: "zlib \<Rightarrow> nat \<Rightarrow> DB \<Rightarrow> Files \<Rightarrow> bool" where
  "merge_fits z lv db fs \<longleftrightarrow> (\<forall>tss. list_all2 (table_holds z (dbdir fs)) (compaction_inputs lv (db_version db)) tss \<longrightarrow>
     cost (concat tss) < 2 ^ 31 \<and> unat (db_nextFileNum db) + length (concat tss) + 3 < 2 ^ 64)"

lemma list_all2_in2: "list_all2 P xs ys \<Longrightarrow> y \<in> set ys \<Longrightarrow> \<exists>x\<in>set xs. P x y"
  by (induction rule: list_all2_induct) auto

lemma list_all2_concat_in: "list_all2 P xs ys \<Longrightarrow> e \<in> set (concat ys) \<Longrightarrow> \<exists>x\<in>set xs. \<exists>es. P x es \<and> e \<in> set es"
  using list_all2_in2 by fastforce

lemma kv_at_compacted:
  assumes M: "sorted_entries M" "wf_entries M" and parts: "set M = set O' \<union> set (concat itss)"
    and safe: "\<And>t e. t \<in> set (concat itss) \<Longrightarrow> droppable oldest bottom (fst t) \<Longrightarrow> e \<in> set O' \<Longrightarrow> ExtractUserKey (fst e) = ExtractUserKey (fst t) \<Longrightarrow>
      trailer_seq (fst t) < trailer_seq (fst e)"
    and seen: "\<And>t. t \<in> set (concat itss) \<Longrightarrow> droppable oldest bottom (fst t) \<Longrightarrow> trailer_seq (fst t) \<le> r"
  defines "N \<equiv> filter (\<lambda>e. e \<in> set O' \<or> e \<in> set (gc oldest bottom (merge_entries itss))) M"
  shows "kv_at r N = kv_at r M"
proof (rule kv_at_hidden [OF M(1)])
  define I where "I = filter (\<lambda>e. e \<in> set (concat itss)) M"
  have I: "sorted_entries I" "wf_entries I" "set I = set (concat itss)" using M sorted_filter [of M] parts by (auto simp: I_def)
  have mI: "merge_entries itss = I" using merge_entries_eq [OF I(1,2)] I(3) by simp
  show "sorted_entries N" "set N \<subseteq> set M" using M(1) sorted_filter by (auto simp: N_def)
  fix e assume e: "e \<in> set M" "e \<notin> set N"
  then have "e \<in> set I" "e \<notin> set (gc oldest bottom I)" using parts I(3) by (auto simp: N_def mI)
  from gc_dropped [OF I(1) this] obtain t where t: "t \<in> set I" "droppable oldest bottom (fst t)" "ExtractUserKey (fst t) = ExtractUserKey (fst e)"
    "e = t \<or> ikey_less (fst t) (fst e)" "\<forall>f\<in>set (gc oldest bottom I). ExtractUserKey (fst f) = ExtractUserKey (fst e) \<longrightarrow> ikey_less (fst f) (fst t)" by blast
  have "ikey_less (fst f) (fst t)" if f: "f \<in> set N" "ExtractUserKey (fst f) = ExtractUserKey (fst e)" for f
  proof (cases "f \<in> set O'")
    case True
    then show ?thesis using safe [of t f] t(1-3) f(2) I(3) by (intro newer_less) simp_all
  next
    case False
    then have "f \<in> set (gc oldest bottom I)" using f(1) by (auto simp: N_def mI)
    then show ?thesis using t(5) f(2) by blast
  qed
  moreover have "is_tombstone (fst t)" "trailer_seq (fst t) \<le> r" "t \<in> set M" using t(1,2) seen [of t] I(3) parts by (auto simp: droppable_def)
  ultimately show "\<exists>t\<in>set M. is_tombstone (fst t) \<and> ExtractUserKey (fst t) = ExtractUserKey (fst e) \<and> trailer_seq (fst t) \<le> r \<and>
      (e = t \<or> ikey_less (fst t) (fst e)) \<and> (\<forall>f\<in>set N. ExtractUserKey (fst f) = ExtractUserKey (fst e) \<longrightarrow> ikey_less (fst f) (fst t))"
    using t(3,4) by blast
qed

lemma word_pred_le: "(x :: u64) < n \<Longrightarrow> x \<le> n - 1"
  by uint_arith

text \<open>The database before a compaction, taken apart.\<close>

lemma before_compaction:
  assumes h: "db_holds z db fs M" and m: "mset (GetAllTables (db_version db)) = mset (inputs @ others)"
  obtains mss itss otss where "list_all2 mem_holds (db_memtable db # db_immutables db) mss" and "list_all2 (table_holds z (dbdir fs)) inputs itss"
    and "list_all2 (table_holds z (dbdir fs)) others otss" and "set M = set (concat mss @ concat otss) \<union> set (concat itss)"
proof -
  obtain mss tss where p: "list_all2 mem_holds (db_memtable db # db_immutables db) mss"
    "list_all2 (table_holds z (dbdir fs)) (GetAllTables (db_version db)) tss" "set (concat (mss @ tss)) = set M" using h unfolding db_holds_def by blast
  obtain tss' where t: "list_all2 (table_holds z (dbdir fs)) (inputs @ others) tss'" "mset tss' = mset tss"
    using list_all2_reorder_left_invariance [OF p(2)] m by metis
  obtain itss otss where io: "tss' = itss @ otss" "list_all2 (table_holds z (dbdir fs)) inputs itss" "list_all2 (table_holds z (dbdir fs)) others otss"
    using t(1) by (auto simp: list_all2_append1)
  have "set tss = set itss \<union> set otss" using mset_eq_setD [OF t(2)] io(1) by auto
  then have "set M = set (concat mss @ concat otss) \<union> set (concat itss)" using p(3) by auto
  then show thesis using that p(1) io(2,3) by blast
qed

text \<open>What a compaction without error has done: its merge wrote new tables, and its commit put them in the place of the inputs.\<close>

definition compacted :: "zlib \<Rightarrow> u64 \<Rightarrow> nat \<Rightarrow> DB \<Rightarrow> Files \<Rightarrow> DB \<Rightarrow> Files \<Rightarrow> bool" where
  "compacted z oldest lv db fs db' fs' \<longleftrightarrow> (\<exists>hi v d others metas itss chunks. db' = db\<lparr>db_nextFileNum := hi, db_version := v\<rparr> \<and> fs' = fs\<lparr>dbdir := d\<rparr> \<and>
     mset (GetAllTables (db_version db)) = mset (compaction_inputs lv (db_version db) @ others) \<and> mset (GetAllTables v) = mset (others @ metas) \<and>
     list_all2 (table_holds z (dbdir fs)) (compaction_inputs lv (db_version db)) itss \<and> new_files z (of_nat (lv + 1)) (db_nextFileNum db) hi metas d chunks \<and>
     concat chunks = gc oldest (isBottom (lv + 1) (db_version db)) (merge_entries itss) \<and> older_tables_kept (db_nextFileNum db) (dbdir fs) d \<and>
     db_nextFileNum db \<le> hi \<and> length (Levels v) = NumLevels)"

lemma CompactLevel_compacted:
  assumes h: "db_holds z db fs M" and below: "files_below db" and dist: "distinct (map FileNum (GetAllTables (db_version db)))" and env: "reads_ok (ce_open ce)"
    and z: "zlib_inverse z" and lv: "0 \<le> lv" and fits: "merge_fits z (nat lv) db fs" and o: "getOldestSnapshotSeq (db_nextSeq db) (db_snapshots db) = Some oldest"
    and run: "CompactLevel ce z lv db fs = (db', fs', None)" and ne: "compaction_inputs (nat lv) (db_version db) \<noteq> []"
  shows "compacted z oldest (nat lv) db fs db' fs'"
proof -
  let ?lv = "nat lv" and ?v = "db_version db"
  let ?in = "compaction_inputs ?lv ?v" and ?lo = "db_nextFileNum db"
  have small: "?lv + 1 < NumLevels" using run lv by (auto simp: CompactLevel_def split: if_splits)
  have len: "length (Levels ?v) = NumLevels" using below by (simp add: files_below_def)
  note sub = inputs_sub [OF len small]
  then obtain others where others: "mset (GetAllTables ?v) = mset (?in @ others)" by (metis ex_mset mset_append mset_subset_eq_exists_conv)
  obtain itss where itss: "list_all2 (table_holds z (dbdir fs)) ?in itss" using before_compaction [OF h others] by blast
  have fit: "cost (concat itss) < 2 ^ 31" "unat ?lo + length (concat itss) + 3 < 2 ^ 64" using fits itss unfolding merge_fits_def by blast+
  obtain db1 d1 r1 where cm: "compact_merge (ce_open ce) (ce_files ce) z ?lv oldest ?in db (dbdir fs) = (db1, d1, r1)"
    by (cases "compact_merge (ce_open ce) (ce_files ce) z ?lv oldest ?in db (dbdir fs)")
  obtain metas where r1: "r1 = Inr metas" and c: "and_then (log_removes (ce_removes ce) ?in db1 (fs\<lparr>dbdir := d1\<rparr>)) (log_adds (ce_adds ce) metas) = (db', fs', None)"
    using run small lv o ne cm by (cases r1) (auto simp: CompactLevel_def Let_def split: if_splits)
  obtain chunks hi where m: "db1 = db\<lparr>db_nextFileNum := hi\<rparr>" "new_files z (of_nat (?lv + 1)) ?lo hi metas d1 chunks"
    "concat chunks = gc oldest (isBottom (?lv + 1) ?v) (merge_entries itss)" "changed_files ?lo hi (dbdir fs) d1" "?lo \<le> hi"
    using compact_merge_ok(1) [OF env itss fit(1) z fit(2) cm r1] by blast
  obtain db2 fs2 where lr: "log_removes (ce_removes ce) ?in db1 (fs\<lparr>dbdir := d1\<rparr>) = (db2, fs2, None)" and la: "log_adds (ce_adds ce) metas db2 fs2 = (db', fs', None)"
    using c by (auto simp: and_then_None)
  obtain v2 d2 where r2: "db2 = db1\<lparr>db_version := v2\<rparr>" "fs2 = fs\<lparr>dbdir := d2\<rparr>" "mset (GetAllTables v2) + mset ?in = mset (GetAllTables ?v)"
    "length (Levels v2) = NumLevels" "\<forall>q. q \<noteq> manifestName \<longrightarrow> map_of d2 q = map_of d1 q"
    using log_removes_ok [OF lr] dist sub len m(1) by auto
  obtain v3 d3 where r3: "db' = db2\<lparr>db_version := v3\<rparr>" "fs' = fs\<lparr>dbdir := d3\<rparr>" "mset (GetAllTables v3) = mset (GetAllTables v2) + mset metas"
    "length (Levels v3) = NumLevels" "\<forall>q. q \<noteq> manifestName \<longrightarrow> map_of d3 q = map_of d2 q" using log_adds_ok [OF la] r2 by auto
  have same: "file_at d3 (sstName n) = file_at d1 (sstName n)" for n using r2(5) r3(5) sstName_manifest [of n] by (simp add: file_at_def)
  have "new_files z (of_nat (?lv + 1)) ?lo hi metas d3 chunks" using m(2) tables_frame [of z d1 metas chunks d3] same by (simp add: new_files_def)
  moreover have "map_of d1 (sstName n) = map_of (dbdir fs) (sstName n)" if n: "n < ?lo" for n
  proof -
    have "\<forall>k. ?lo \<le> k \<longrightarrow> k < hi \<longrightarrow> sstName n \<noteq> sstName k" using n by (auto simp: sstName_inj)
    then show ?thesis using m(4) unfolding changed_files_def by blast
  qed
  then have "older_tables_kept ?lo (dbdir fs) d3" unfolding older_tables_kept_def same by (simp add: file_at_def)
  moreover have "mset (GetAllTables v2) = mset others" using r2(3) others by simp
  ultimately show ?thesis unfolding compacted_def using r3 r2(1) m others itss
    by (intro exI [of _ hi] exI [of _ v3] exI [of _ d3] exI [of _ others] exI [of _ metas] exI [of _ itss] exI [of _ chunks]) simp
qed

lemma compacted_numbers:
  assumes b: "files_below db" and dist: "distinct (map FileNum (GetAllTables (db_version db)))" and c: "compacted z oldest lv db fs db' fs'"
  shows "files_below db'" and "distinct (map FileNum (GetAllTables (db_version db')))"
proof -
  obtain hi v d others metas chunks where c: "db' = db\<lparr>db_nextFileNum := hi, db_version := v\<rparr>" "mset (GetAllTables (db_version db)) = mset (compaction_inputs lv (db_version db) @ others)"
    "mset (GetAllTables v) = mset (others @ metas)" "new_files z (of_nat (lv + 1)) (db_nextFileNum db) hi metas d chunks" "db_nextFileNum db \<le> hi" "length (Levels v) = NumLevels"
    using c unfolding compacted_def by blast
  have new: "\<forall>t\<in>set metas. db_nextFileNum db \<le> FileNum t \<and> FileNum t < hi" "distinct (map FileNum metas)" using c(4) by (auto simp: new_files_def)
  have sets: "set (GetAllTables v) = set others \<union> set metas" "set others \<subseteq> set (GetAllTables (db_version db))"
    using mset_eq_setD [OF c(3)] mset_eq_setD [OF c(2)] by auto
  have old: "\<forall>t\<in>set others. FileNum t < db_nextFileNum db" using b sets(2) by (auto simp: files_below_def)
  show "files_below db'" using old new sets(1) c(1,5,6) by (auto simp: files_below_def)
  have "distinct (map FileNum others)" using distinct_msub [OF _ dist, of others] c(2) by simp
  then have "distinct (map FileNum (others @ metas))" using old new by fastforce
  moreover have "mset (map FileNum (GetAllTables v)) = mset (map FileNum (others @ metas))" using c(3) by (metis mset_map)
  ultimately have "distinct (map FileNum (GetAllTables v))" using mset_eq_imp_distinct_iff by blast
  then show "distinct (map FileNum (GetAllTables (db_version db')))" using c(1) by simp
qed

lemma compacted_holds:
  assumes v: "db_versions z db fs M" and below: "files_below db" and dist: "distinct (map FileNum (GetAllTables (db_version db)))"
    and c: "compacted z oldest lv db fs db' fs'" and safe: "safe_drops z oldest lv db fs"
  shows "\<exists>N. db_versions z db' fs' N \<and> (\<forall>r. min oldest (db_nextSeq db - 1) \<le> r \<longrightarrow> kv_at r N = kv_at r M)"
proof -
  let ?in = "compaction_inputs lv (db_version db)" and ?bt = "isBottom (lv + 1) (db_version db)"
  obtain hi v' d others metas itss chunks where c: "db' = db\<lparr>db_nextFileNum := hi, db_version := v'\<rparr>" "fs' = fs\<lparr>dbdir := d\<rparr>"
    "mset (GetAllTables (db_version db)) = mset (?in @ others)" "mset (GetAllTables v') = mset (others @ metas)" "list_all2 (table_holds z (dbdir fs)) ?in itss"
    "list_all2 (table_holds z d) metas chunks" "concat chunks = gc oldest ?bt (merge_entries itss)" "older_tables_kept (db_nextFileNum db) (dbdir fs) d"
    using c unfolding compacted_def new_files_def by blast
  have h: "db_holds z db fs M" and M: "sorted_entries M" "wf_entries M" and seqs: "\<forall>e\<in>set M. trailer_seq (fst e) < db_nextSeq db"
    using v by (auto simp: db_versions_def db_holds_def)
  obtain mss itss' otss where p: "list_all2 mem_holds (db_memtable db # db_immutables db) mss" "list_all2 (table_holds z (dbdir fs)) ?in itss'"
    "list_all2 (table_holds z (dbdir fs)) others otss" "set M = set (concat mss @ concat otss) \<union> set (concat itss')"
    using h c(3) by (rule before_compaction)
  have "itss' = itss" by (rule list_all2_same [OF table_holds_unique p(2) c(5)])
  note parts = p(4) [unfolded this]
  let ?T = "gc oldest ?bt (merge_entries itss)"
  define N where "N = filter (\<lambda>e. e \<in> set (concat mss @ concat otss) \<or> e \<in> set ?T) M"
  have out: "set others \<subseteq> set (GetAllTables (db_version db)) - set ?in"
  proof -
    have "distinct (?in @ others)" using dist mset_eq_imp_distinct_iff [OF c(3)] by (simp add: distinct_map)
    then show ?thesis using mset_eq_setD [OF c(3)] by auto
  qed
  have "elsewhere z lv db fs e" if "e \<in> set (concat mss @ concat otss)" for e
    using list_all2_concat_in [OF p(1), of e] list_all2_concat_in [OF p(3), of e] that out unfolding elsewhere_def by fastforce
  moreover have "merged z lv db fs t" if "t \<in> set (concat itss)" for t using list_all2_concat_in [OF c(5) that] unfolding merged_def .
  ultimately have drops: "trailer_seq (fst t) < trailer_seq (fst e)" if "t \<in> set (concat itss)" "droppable oldest ?bt (fst t)" "e \<in> set (concat mss @ concat otss)"
    "ExtractUserKey (fst e) = ExtractUserKey (fst t)" for t e using safe that unfolding safe_drops_def by blast
  have seen: "trailer_seq (fst t) \<le> min oldest (db_nextSeq db - 1)" if "t \<in> set (concat itss)" "droppable oldest ?bt (fst t)" for t
    using that seqs parts by (auto simp: droppable_def intro: word_pred_le)
  have "kv_at r N = kv_at r M" if "min oldest (db_nextSeq db - 1) \<le> r" for r
    unfolding N_def by (rule kv_at_compacted [OF M parts drops]) (use seen that order_trans in blast)+
  moreover have "db_versions z db' fs' N"
  proof -
    have wf: "\<forall>es\<in>set itss. wf_entries es" using c(5) list_all2_in2 [OF c(5)] unfolding table_holds_def by blast
    have "set ?T \<subseteq> set M" using gc_subset merge_entries_set [OF wf] parts by blast
    then have N: "set N = set (concat mss @ concat otss) \<union> set ?T" using parts by (auto simp: N_def)
    have "list_all2 (table_holds z d) others otss" using p(3) out below c(8) by (intro tables_frame [OF p(3)]) (auto simp: older_tables_kept_def files_below_def)
    then have "list_all2 (table_holds z d) (others @ metas) (otss @ chunks)" using c(6) by (rule list_all2_appendI)
    then obtain tss where t: "list_all2 (table_holds z d) (GetAllTables v') tss" "mset tss = mset (otss @ chunks)"
      using list_all2_reorder_left_invariance c(4) by metis
    have "set tss = set otss \<union> set chunks" using mset_eq_setD [OF t(2)] by simp
    then have "set (concat (mss @ tss)) = set N" using N c(7) [symmetric] by auto
    moreover have "sorted_entries N" "wf_entries N" "set N \<subseteq> set M" using M sorted_filter [of M] by (auto simp: N_def)
    ultimately show ?thesis using p(1) t(1) c(1,2) seqs unfolding db_versions_def db_holds_def by auto
  qed
  ultimately show ?thesis by blast
qed

lemma no_inputs:
  assumes "CompactLevel ce z lv db fs = (db', fs', None)" and "0 \<le> lv" and "compaction_inputs (nat lv) (db_version db) = []"
  shows "db' = db" and "fs' = fs"
  using assms by (auto simp: CompactLevel_def split: if_splits option.splits)

lemma CompactLevel_versions:
  assumes v: "db_versions z db fs M" and below: "files_below db" and dist: "distinct (map FileNum (GetAllTables (db_version db)))" and env: "reads_ok (ce_open ce)"
    and z: "zlib_inverse z" and lv: "0 \<le> lv" and fits: "merge_fits z (nat lv) db fs" and o: "getOldestSnapshotSeq (db_nextSeq db) (db_snapshots db) = Some oldest"
    and run: "CompactLevel ce z lv db fs = (db', fs', None)" and safe: "safe_drops z oldest (nat lv) db fs"
  shows "\<exists>N. db_versions z db' fs' N \<and> (\<forall>r. min oldest (db_nextSeq db - 1) \<le> r \<longrightarrow> kv_at r N = kv_at r M)"
    and "files_below db'" and "distinct (map FileNum (GetAllTables (db_version db')))" and "db_bgErr db' = db_bgErr db"
proof -
  have h: "db_holds z db fs M" using v by (simp add: db_versions_def)
  note c = CompactLevel_compacted [OF h below dist env z lv fits o run]
  note n = no_inputs [OF run lv]
  show "\<exists>N. db_versions z db' fs' N \<and> (\<forall>r. min oldest (db_nextSeq db - 1) \<le> r \<longrightarrow> kv_at r N = kv_at r M)"
    using compacted_holds [OF v below dist c safe] v n by blast
  show "files_below db'" "distinct (map FileNum (GetAllTables (db_version db')))" using compacted_numbers [OF below dist c] below dist n by metis+
  show "db_bgErr db' = db_bgErr db" using c n by (fastforce simp: compacted_def)
qed

section \<open>A compaction without faults\<close>

definition no_compaction_faults :: compaction_env where
  "no_compaction_faults = \<lparr>ce_open = no_faults, ce_files = (\<lambda>_. no_faults), ce_removes = (\<lambda>_. no_faults), ce_adds = (\<lambda>_. no_faults)\<rparr>"

lemma Manifest_Append_remove: "\<exists>d'. Manifest_Append no_faults (remove_edit n) p d = (d', None)"
proof -
  have "\<exists>raw. Manifest_EncodeRecord (remove_edit n) = Inr raw" by (simp add: Manifest_EncodeRecord_eq encode_data_def remove_edit_def)
  then show ?thesis by (auto simp: Manifest_Append_def)
qed

lemma log_removes_succeeds: "\<exists>db' fs'. log_removes (\<lambda>_. no_faults) metas db fs = (db', fs', None)"
proof (induction metas arbitrary: db fs)
  case (Cons meta metas)
  obtain d where "Manifest_Append no_faults (remove_edit (FileNum meta)) manifestName (dbdir fs) = (d, None)" using Manifest_Append_remove by blast
  then show ?case using Cons.IH by simp
qed simp

lemma log_adds_succeeds: "\<forall>m\<in>set metas. unat (Level m) < NumLevels \<Longrightarrow> \<exists>db' fs'. log_adds (\<lambda>_. no_faults) metas db fs = (db', fs', None)"
proof (induction metas arbitrary: db fs)
  case (Cons meta metas)
  obtain d where "Manifest_Append no_faults (add_edit meta) manifestName (dbdir fs) = (d, None)" using Manifest_Append_edit(1) by blast
  moreover obtain v where "AddTable meta (db_version db) = (v, None)" using Cons.prems by (simp add: AddTable_def Let_def)
  ultimately show ?case using Cons by simp
qed simp

lemma CompactLevel_succeeds:
  assumes h: "db_holds z db fs M" and len: "length (Levels (db_version db)) = NumLevels"
    and z: "zlib_inverse z" and lv: "0 \<le> lv" "lv < int NumLevels - 1" and fits: "merge_fits z (nat lv) db fs"
    and o: "getOldestSnapshotSeq (db_nextSeq db) (db_snapshots db) = Some oldest" and nodir: "\<forall>n. map_of (dbdir fs) (sstName n) \<noteq> Some DirE"
  shows "\<exists>db' fs'. CompactLevel no_compaction_faults z lv db fs = (db', fs', None)"
proof (cases "compaction_inputs (nat lv) (db_version db) = []")
  case True
  then show ?thesis using lv o by (simp add: CompactLevel_def)
next
  case False
  let ?lv = "nat lv" and ?in = "compaction_inputs (nat lv) (db_version db)"
  have small: "?lv + 1 < NumLevels" using lv by linarith
  obtain others where others: "mset (GetAllTables (db_version db)) = mset (?in @ others)"
    using inputs_sub [OF len small] by (metis ex_mset mset_append mset_subset_eq_exists_conv)
  obtain itss where itss: "list_all2 (table_holds z (dbdir fs)) ?in itss" using before_compaction [OF h others] by blast
  have fit: "cost (concat itss) < 2 ^ 31" "unat (db_nextFileNum db) + length (concat itss) + 3 < 2 ^ 64" using fits itss unfolding merge_fits_def by blast+
  have env: "reads_ok no_faults" by (simp add: reads_ok_def)
  obtain db1 d1 r1 where cm: "compact_merge no_faults (\<lambda>_. no_faults) z ?lv oldest ?in db (dbdir fs) = (db1, d1, r1)"
    by (cases "compact_merge no_faults (\<lambda>_. no_faults) z ?lv oldest ?in db (dbdir fs)")
  note m = compact_merge_ok [OF env itss fit(1) z fit(2) cm]
  obtain metas where r1: "r1 = Inr metas" using m(2) nodir by blast
  have "\<forall>m\<in>set metas. Level m = of_nat (?lv + 1)" using m(1) [OF r1] by (auto simp: new_files_def)
  moreover have "unat (of_nat (?lv + 1) :: u32) = ?lv + 1" using small by (subst unat_of_nat) (simp add: NumLevels_def)
  ultimately have lev: "\<forall>m\<in>set metas. unat (Level m) < NumLevels" using small by simp
  obtain db2 fs2 where "log_removes (\<lambda>_. no_faults) ?in db1 (fs\<lparr>dbdir := d1\<rparr>) = (db2, fs2, None)" using log_removes_succeeds by blast
  moreover obtain db3 fs3 where "log_adds (\<lambda>_. no_faults) metas db2 fs2 = (db3, fs3, None)" using log_adds_succeeds [OF lev] by blast
  ultimately show ?thesis using lv o cm r1 False by (simp add: CompactLevel_def no_compaction_faults_def Let_def)
qed

section \<open>A sample compaction\<close>

text \<open>One table of level 0 with a deleted key, whose old value is in the same table, and another key.\<close>

definition sample_table :: entries where
  "sample_table = [([107, 2, 9, 0, 0, 0, 0, 0, 0], []), ([107, 1, 5, 0, 0, 0, 0, 0, 0], [1]), ([108, 1, 3, 0, 0, 0, 0, 0, 0], [2])]"

definition sample_meta :: SSTableMeta where
  "sample_meta = (let st = fold update_stats (map fst sample_table) no_stats in
     \<lparr>FileNum = 1, Level = 0, SmallestSeq = st_smallestSeq st, LargestSeq = st_largestSeq st, SmallestKey = st_smallest st, LargestKey = st_largest st, FileSize = 0\<rparr>)"

definition sample_db :: DB where
  "sample_db = (fresh_db \<lparr>maxSegmentSz = 0, active = None, activeNum = 0, segments = []\<rparr>)
     \<lparr>db_version := fst (AddTable sample_meta NewVersionSet), db_nextSeq := 10, db_nextFileNum := 2\<rparr>"

lemma sample_tables: "GetAllTables (db_version sample_db) = [sample_meta]" "compaction_inputs 0 (db_version sample_db) = [sample_meta]"
    "length (Levels (db_version sample_db)) = NumLevels"
proof -
  have "FileNum sample_meta = 1" "Level sample_meta = 0" by (simp_all add: sample_meta_def Let_def)
  then show "GetAllTables (db_version sample_db) = [sample_meta]" "compaction_inputs 0 (db_version sample_db) = [sample_meta]"
      "length (Levels (db_version sample_db)) = NumLevels"
    by (simp_all add: sample_db_def AddTable_def NewVersionSet_def NumLevels_def GetAllTables_def compaction_inputs_def GetOverlappingInputs_def key_range_def numeral_eq_Suc)
qed

lemma sample_table_ok: "wf_entries sample_table" "cost sample_table < 2 ^ 31" "length sample_table = 3"
  by (simp_all add: sample_table_def wf_ikey_def)

lemma sample_table_eval: "sorted_entries sample_table" "\<forall>e\<in>set sample_table. trailer_seq (fst e) < 10" "kv sample_table [107] = None" "kv sample_table [108] = Some [2]"
  by code_simp+


lemma sample_compaction:
  obtains d where "db_versions plain_zlib sample_db \<lparr>dbdir = d, waldir = []\<rparr> sample_table" and "files_below sample_db"
    and "merge_fits plain_zlib 0 sample_db \<lparr>dbdir = d, waldir = []\<rparr>" and "safe_drops plain_zlib 10 0 sample_db \<lparr>dbdir = d, waldir = []\<rparr>"
    and "\<forall>n. map_of d (sstName n) \<noteq> Some DirE" and "table_holds plain_zlib d sample_meta sample_table"
proof -
  have num: "FileNum sample_meta = 1" by (simp add: sample_meta_def Let_def)
  obtain d0 where "build_table no_faults plain_zlib (sstName 1) sample_table [] = (d0, None)"
    using build_table_succeeds [of sample_table "[]" "sstName 1" plain_zlib] sample_table_ok(3) by auto
  then have t0: "table_holds plain_zlib d0 sample_meta sample_table"
    using num by (intro built_table_holds [OF sample_table_eval(1) sample_table_ok(1) _ plain_zlib_inverse sample_table_ok(2)]) (simp_all add: sample_meta_def Let_def)
  then obtain f where f: "file_at d0 (sstName 1) = Some f" using num by (auto simp: table_holds_def)
  define d where "d = [(sstName 1, FileE f)]"
  have t: "table_holds plain_zlib d sample_meta sample_table" using t0 tables_frame [of plain_zlib d0 "[sample_meta]" "[sample_table]" d] f num by (simp add: d_def file_at_def)
  let ?fs = "\<lparr>dbdir = d, waldir = []\<rparr> :: Files"
  have mem: "db_memtable sample_db = Memtable_New" "db_immutables sample_db = []" "db_nextSeq sample_db = 10" "db_nextFileNum sample_db = 2"
    by (simp_all add: sample_db_def fresh_db_def)
  have m: "mem_holds Memtable_New []" using mem_rep_New by (simp add: mem_holds_def)
  show thesis
  proof (rule that [of d])
    show "db_versions plain_zlib sample_db ?fs sample_table" unfolding db_versions_def db_holds_def sample_tables mem
      using sample_table_eval(1,2) sample_table_ok(1) m t by (intro conjI exI [of _ "[[]]"] exI [of _ "[sample_table]"]) simp_all
    show "files_below sample_db" using sample_tables num mem(4) by (simp add: files_below_def)
    show "merge_fits plain_zlib 0 sample_db ?fs" unfolding merge_fits_def sample_tables
    proof (intro allI impI)
      fix tss assume "list_all2 (table_holds plain_zlib (dbdir ?fs)) [sample_meta] tss"
      then have "tss = [sample_table]" using table_holds_unique [OF _ t] by (auto simp: list_all2_Cons1)
      then show "cost (concat tss) < 2 ^ 31 \<and> unat (db_nextFileNum sample_db) + length (concat tss) + 3 < 2 ^ 64" using sample_table_ok(2,3) mem(4) by simp
    qed
    show "safe_drops plain_zlib 10 0 sample_db ?fs"
      using mem_holds_unique [OF _ m] unfolding safe_drops_def elsewhere_def sample_tables mem by fastforce
    show "\<forall>n. map_of d (sstName n) \<noteq> Some DirE" by (simp add: d_def)
  qed (rule t)
qed

lemma sample_oldest: "getOldestSnapshotSeq (db_nextSeq sample_db) (db_snapshots sample_db) = Some 10" "db_nextSeq sample_db = 10"
  "distinct (map FileNum (GetAllTables (db_version sample_db)))" "db_bgErr sample_db = None"
  by (simp_all add: sample_tables) (simp_all add: sample_db_def fresh_db_def getOldestSnapshotSeq_def no_snapshots_def oldest_from.simps)

section \<open>Properties\<close>

text \<open>C5. A compaction is invisible to readers.  When \<^verbatim>\<open>CompactLevel\<close> returns without error, \<^verbatim>\<open>Get\<close> and every \<^verbatim>\<open>GetWithOptions\<close>
  whose read sequence number is at least that of the oldest snapshot (or that sees all writes so far) return what they returned before,
  although the tombstones at the bottom and the versions they hide are gone.  Writing the new tables and the manifest may meet any faults; opening and reading the input tables
  must not meet one, because a table iterator that fails to read a block ends as if the table ended there, and the compaction then loses the rest of that table without an error.
  Assumed is also that no older version of a dropped tombstone's key is outside of the
  inputs, that the inputs' content fits one table and that table numbers are distinct and do not run out; the reads that are compared are free of faults, with no background error pending.\<close>

theorem CompactLevel_keeps_reads:
  assumes "db_versions z db fs M" and "files_below db" and "distinct (map FileNum (GetAllTables (db_version db)))" and "reads_ok (ce_open ce)"
    and "zlib_inverse z" and "0 \<le> lv" and "merge_fits z (nat lv) db fs" and "getOldestSnapshotSeq (db_nextSeq db) (db_snapshots db) = Some oldest"
    and "CompactLevel ce z lv db fs = (db', fs', None)" and "safe_drops z oldest (nat lv) db fs"
    and "reads_ok env" and "db_bgErr db = None" and "min oldest (db_nextSeq db - 1) \<le> r"
  shows "GetWithOptions env z key (Some r) db' fs' = GetWithOptions env z key (Some r) db fs \<and> Get env z key db' fs' = Get env z key db fs"
proof -
  note c = CompactLevel_versions [OF assms(1-10)]
  obtain N where N: "db_versions z db' fs' N" "\<forall>r. min oldest (db_nextSeq db - 1) \<le> r \<longrightarrow> kv_at r N = kv_at r M" using c(1) by blast
  have h: "db_holds z db fs M" "db_holds z db' fs' N" "db_bgErr db' = None" using assms(1,12) N(1) c(4) by (auto simp: db_versions_def)
  have "GetWithOptions env z key (Some r) db' fs' = GetWithOptions env z key (Some r) db fs"
    using GetWithOptions_ok(1) [OF h(1) assms(11,12)] GetWithOptions_ok(1) [OF h(2) assms(11) h(3)] N(2) assms(13) by simp
  moreover have "kv_at (- 1) N = kv_at (- 1) M" using N(2) by simp
  then have "Get env z key db' fs' = Get env z key db fs"
    using GetWithOptions_ok(2) [OF h(1) assms(11,12)] GetWithOptions_ok(2) [OF h(2) assms(11) h(3)] by (simp add: kv_kv_at)
  ultimately show ?thesis by blast
qed

theorem CompactLevel_keeps_reads_witness:
  "\<exists>fs db' fs'. CompactLevel no_compaction_faults plain_zlib 0 sample_db fs = (db', fs', None) \<and>
     Get no_faults plain_zlib [107] db' fs' = Inl ErrNotFound \<and> Get no_faults plain_zlib [108] db' fs' = Inr [2]"
proof -
  obtain d where s: "db_versions plain_zlib sample_db \<lparr>dbdir = d, waldir = []\<rparr> sample_table" "files_below sample_db"
    "merge_fits plain_zlib 0 sample_db \<lparr>dbdir = d, waldir = []\<rparr>" "safe_drops plain_zlib 10 0 sample_db \<lparr>dbdir = d, waldir = []\<rparr>"
    "\<forall>n. map_of d (sstName n) \<noteq> Some DirE" by (rule sample_compaction)
  let ?fs = "\<lparr>dbdir = d, waldir = []\<rparr> :: Files"
  have h: "db_holds plain_zlib sample_db ?fs sample_table" using s(1) by (simp add: db_versions_def)
  have ok: "reads_ok no_faults" "reads_ok (ce_open no_compaction_faults)" by (simp_all add: reads_ok_def no_compaction_faults_def)
  have fits: "merge_fits plain_zlib (nat 0) sample_db ?fs" and safe: "safe_drops plain_zlib 10 (nat 0) sample_db ?fs" using s(3,4) by simp_all
  obtain db' fs' where r: "CompactLevel no_compaction_faults plain_zlib 0 sample_db ?fs = (db', fs', None)"
    using CompactLevel_succeeds [OF h sample_tables(3) plain_zlib_inverse _ _ fits sample_oldest(1)] s(5) by (auto simp: NumLevels_def)
  have "Get no_faults plain_zlib key db' fs' = found (kv sample_table key)" for key
    using CompactLevel_keeps_reads [OF s(1,2) sample_oldest(3) ok(2) plain_zlib_inverse _ fits sample_oldest(1) r safe ok(1) sample_oldest(4), of "- 1" key]
      GetWithOptions_ok(2) [OF h ok(1) sample_oldest(4)] by simp
  then have "Get no_faults plain_zlib [107] db' fs' = Inl ErrNotFound" "Get no_faults plain_zlib [108] db' fs' = Inr [2]"
    using sample_table_eval(3,4) by (simp_all add: found_def)
  then show ?thesis using r by blast
qed



end
